(* ===== verification/EA_Prelude.thy ===== *)
theory EA_Prelude
  imports Main "HOL-Library.Word" "HOL-Library.Monad_Syntax" "HOL-Library.Multiset"
    "HOL-Library.Tree" "HOL-Library.List_Lexorder" "HOL-Library.Product_Lexorder"
begin

text \<open>
  Shared vocabulary of the development: the types the C code uses, the convention for undefined
  behaviour, byte buffers with checked access, and the generic list facts the components share.

  A C function is a HOL function into \<open>'a option\<close>: \<open>None\<close> is undefined behaviour (a read or
  write outside a buffer, a use of a freed node, a signed overflow, a division by zero), and
  \<open>Some r\<close> is a run that is defined and gives \<open>r\<close>.  What the C code itself signals
  (\<^verbatim>\<open>NULL\<close>, \<^verbatim>\<open>NGX_ERROR\<close>) is a value inside \<open>r\<close>, never \<open>None\<close>.  A theorem
  of the form \<open>f x = Some y\<close> therefore also says that the run is free of such errors.
\<close>

declare add_2_eq_Suc [simp del] add_2_eq_Suc' [simp del]

section \<open>Types\<close>

type_synonym byte = "8 word"
type_synonym bytes = "byte list"
type_synonym time = int
type_synonym addr = nat

text \<open>\<^verbatim>\<open>ngx_int_t\<close> return codes of nginx that the module uses.\<close>

datatype ngx_rc = NGX_OK | NGX_ERROR | NGX_AGAIN | NGX_BUSY | NGX_DONE | NGX_DECLINED | HTTP_STATUS nat

named_theorems buf_simps \<open>checked buffer access on buffers of known shape\<close>

section \<open>Undefined behaviour\<close>

definition ub_guard :: "bool \<Rightarrow> unit option" where
  "ub_guard b = (if b then Some () else None)"

lemma ub_guard_simps [simp]:
  "ub_guard True = Some ()" "ub_guard False = None"
  by (simp_all add: ub_guard_def)

lemma ub_guard_eq_Some [simp]: "ub_guard b = Some u \<longleftrightarrow> b"
  by (simp add: ub_guard_def)

lemma bind_guard [simp]: "b \<Longrightarrow> Option.bind (ub_guard b) f = f ()"
  by simp

section \<open>Byte buffers\<close>

definition rd :: "bytes \<Rightarrow> nat \<Rightarrow> byte option" where
  "rd buf i = (if i < length buf then Some (buf ! i) else None)"

definition wr :: "bytes \<Rightarrow> nat \<Rightarrow> byte \<Rightarrow> bytes option" where
  "wr buf i b = (if i < length buf then Some (buf[i := b]) else None)"

text \<open>The bytes \<^verbatim>\<open>[p, p + n)\<close>, as a callee that is handed \<open>(p, n)\<close> reads them.\<close>

definition slice :: "bytes \<Rightarrow> nat \<Rightarrow> nat \<Rightarrow> bytes option" where
  "slice buf p n = (if p + n \<le> length buf then Some (take n (drop p buf)) else None)"

definition overwrite :: "bytes \<Rightarrow> nat \<Rightarrow> bytes \<Rightarrow> bytes" where
  "overwrite buf p xs = take p buf @ xs @ drop (p + length xs) buf"

text \<open>\<^verbatim>\<open>ngx_cpymem\<close>/\<^verbatim>\<open>memcpy\<close> of \<open>xs\<close> to \<open>buf + p\<close>; the result is the buffer and the
  pointer past the copy.\<close>

definition cpymem :: "bytes \<Rightarrow> nat \<Rightarrow> bytes \<Rightarrow> (bytes \<times> nat) option" where
  "cpymem buf p xs =
     (if p + length xs \<le> length buf then Some (overwrite buf p xs, p + length xs) else None)"

text \<open>\<^verbatim>\<open>(size_t) (e - p)\<close>: the pointer difference, read as an unsigned 64-bit number.\<close>

definition ptr_diff :: "nat \<Rightarrow> nat \<Rightarrow> nat" where
  "ptr_diff e p = nat ((int e - int p) mod 2 ^ 64)"

lemma ptr_diff_le:
  assumes "p \<le> l" "l < 2 ^ 64"
  shows "ptr_diff l p = l - p"
proof -
  have "(int l - int p) mod 2 ^ 64 = int l - int p"
    using assms by (intro mod_pos_pos_trivial) auto
  then show ?thesis by (simp add: ptr_diff_def)
qed

lemma rd_append [buf_simps]: "i < length xs \<Longrightarrow> rd (pre @ xs @ post) (length pre + i) = Some (xs ! i)"
  by (simp add: rd_def nth_append)

lemma length_overwrite [simp]:
  "p + length xs \<le> length buf \<Longrightarrow> length (overwrite buf p xs) = length buf"
  by (simp add: overwrite_def)

lemma overwrite_append [buf_simps]:
  "length xs \<le> length post \<Longrightarrow>
   overwrite (pre @ post) (length pre) xs = pre @ xs @ drop (length xs) post"
  by (simp add: overwrite_def)

lemma wr_overwrite: "wr buf i b = (if i < length buf then Some (overwrite buf i [b]) else None)"
  by (simp add: wr_def overwrite_def upd_conv_take_nth_drop)

lemma overwrite_overwrite:
  assumes "p + length xs + length ys \<le> length buf" "q = p + length xs"
  shows "overwrite (overwrite buf p xs) q ys = overwrite buf p (xs @ ys)"
  using assms by (simp add: overwrite_def ac_simps)

lemma overwrite_same_Nil [simp]: "overwrite buf p [] = buf"
  by (simp add: overwrite_def)

lemma cpymem_append [buf_simps]:
  "length xs \<le> length post \<Longrightarrow>
   cpymem (pre @ post) (length pre) xs =
     Some (pre @ xs @ drop (length xs) post, length pre + length xs)"
  by (simp add: cpymem_def overwrite_append)

lemma slice_append [buf_simps]:
  "n \<le> length xs \<Longrightarrow> slice (pre @ xs) (length pre) n = Some (take n xs)"
  by (simp add: slice_def)

lemma slice_append2:
  "slice (pre @ xs @ post) (length pre) (length xs) = Some xs"
  by (simp add: slice_def)

section \<open>Lists\<close>

lemma remove1_append_mid:
  "a \<notin> set xs \<Longrightarrow> remove1 a (xs @ a # ys) = xs @ ys"
  by (induction xs) auto

lemma remove1_snoc: "a \<notin> set xs \<Longrightarrow> remove1 a (xs @ [a]) = xs"
  by (induction xs) auto

lemma snoc_cases: "xs \<noteq> [] \<Longrightarrow> \<exists>ys y. xs = ys @ [y]"
  by (cases xs rule: rev_cases) auto

lemma map_of_filter_key: "map_of (filter (\<lambda>(k', _). k' \<noteq> k) l) = (map_of l)(k := None)"
  by (induction l) (auto simp: fun_eq_iff)

lemma distinct_map_of_mset:
  assumes "mset xs = mset ys" "distinct (map fst xs)"
  shows "map_of xs = map_of ys"
proof -
  have "distinct (map fst ys)"
    using assms by (metis mset_eq_imp_distinct_iff mset_map)
  moreover have "set xs = set ys" using assms(1) by (rule mset_eq_setD)
  ultimately show ?thesis
    using assms(2) by (simp add: map_of_inject_set)
qed

lemma find_distinct:
  "distinct (map f xs) \<Longrightarrow> List.find (\<lambda>x. f x = k) xs = Some x \<longleftrightarrow> x \<in> set xs \<and> f x = k"
  by (induction xs) force+

section \<open>C strings\<close>

text \<open>\<^verbatim>\<open>ngx_strncmp(x, y, n) == 0\<close>; reading behind the end of a string is undefined.\<close>

fun strncmp_same :: "bytes \<Rightarrow> bytes \<Rightarrow> nat \<Rightarrow> bool option" where
  "strncmp_same xs ys 0 = Some True"
| "strncmp_same (x # xs) (y # ys) (Suc n) =
     (if x \<noteq> y then Some False else if x = 0 then Some True else strncmp_same xs ys n)"
| "strncmp_same xs ys (Suc n) = None"

lemma strncmp_same_iff:
  "length xs = length ys \<Longrightarrow> 0 \<notin> set ys \<Longrightarrow> strncmp_same xs ys (length ys) = Some (xs = ys)"
  by (induction xs ys rule: list_induct2) auto

lemma strncmp_same_total:
  "n \<le> length xs \<Longrightarrow> n \<le> length ys \<Longrightarrow> \<exists>b. strncmp_same xs ys n = Some b \<and> (xs = ys \<longrightarrow> b)"
proof (induction n arbitrary: xs ys)
  case (Suc n)
  then obtain x xs' y ys' where "xs = x # xs'" "ys = y # ys'" "n \<le> length xs'" "n \<le> length ys'"
    by (cases xs; cases ys) auto
  with Suc.IH[of xs' ys'] show ?case by auto
qed auto

text \<open>\<^verbatim>\<open>strchr(s, c)\<close>: the search ends at the terminating zero.\<close>

definition cstr_chr :: "bytes \<Rightarrow> byte \<Rightarrow> nat option" where
  "cstr_chr xs c =
     (let s = takeWhile (\<lambda>b. b \<noteq> 0) xs
      in if c \<in> set s then Some (length (takeWhile (\<lambda>b. b \<noteq> c) s)) else None)"

text \<open>\<^verbatim>\<open>ngx_strncmp(v, lit, sizeof(lit) - 1) == 0\<close> for a zero-terminated \<open>v\<close> and a literal.\<close>

definition starts :: "bytes \<Rightarrow> bytes \<Rightarrow> bool" where
  "starts v lit \<longleftrightarrow> take (length lit) v = lit"

lemma startsD: "starts v lit \<Longrightarrow> \<exists>w. v = lit @ w"
  unfolding starts_def by (metis append_take_drop_id)

lemma starts_append [simp]: "starts (lit @ w) lit"
  by (simp add: starts_def)

end
