(* ===== verification/EA_Nginx.thy ===== *)
theory EA_Nginx
  imports EA_Prelude
begin

text \<open>
  The code the module calls but does not contain: nginx's string, red-black tree and slab
  functions and OpenSSL's digests.  They are parameters, the fields of one record \<open>ngx\<close>; every
  definition that calls one takes the record as its first argument.  What the module relies on is
  stated beside it, as the predicates \<open>..._doc\<close>, each the documented behaviour of one function; the
  theorems that need one name it as a hypothesis.  A callee that is handed a pointer and a length
  receives the bytes it is entitled to read, so an over-long pair is undefined behaviour at the
  call.  The type \<open>'s\<close> is the slab pool's own state.
\<close>

section \<open>The external functions\<close>

text \<open>A red-black tree of node addresses; the flag is nginx's colour bit (set for red).\<close>

type_synonym rbt = "(addr \<times> bool) tree"

definition rbt_addrs :: "rbt \<Rightarrow> addr list" where
  "rbt_addrs t = map fst (inorder t)"

lemma rbt_addrs_simps [simp]:
  "rbt_addrs Leaf = []"
  "rbt_addrs (Node l x r) = rbt_addrs l @ fst x # rbt_addrs r"
  by (simp_all add: rbt_addrs_def)

record 's ngx =
  ngx_strlchr :: "bytes \<Rightarrow> byte \<Rightarrow> nat option"
  ngx_atoi :: "bytes \<Rightarrow> int"
  ngx_memn2cmp :: "bytes \<Rightarrow> bytes \<Rightarrow> int"
  ngx_crc32_short :: "bytes \<Rightarrow> 32 word"
  ngx_crc32_long :: "bytes \<Rightarrow> 32 word"
  ngx_align_ptr :: "nat \<Rightarrow> nat \<Rightarrow> nat"
  ngx_rbtree_insert :: "(rbt \<Rightarrow> rbt option) \<Rightarrow> rbt \<Rightarrow> addr \<Rightarrow> rbt option"
  ngx_rbtree_delete :: "rbt \<Rightarrow> addr \<Rightarrow> rbt"
  ngx_slab_alloc_locked :: "'s \<Rightarrow> nat \<Rightarrow> addr option \<times> 's"
  ngx_slab_free_locked :: "'s \<Rightarrow> addr \<Rightarrow> 's"
  slab_live :: "'s \<Rightarrow> addr set"
  sha256 :: "bytes \<Rightarrow> bytes"
  hmac_sha256 :: "bytes \<Rightarrow> bytes \<Rightarrow> bytes option"

section \<open>Documented behaviour\<close>

text \<open>\<^verbatim>\<open>ngx_strlchr\<close>: the first occurrence of a byte, or \<^verbatim>\<open>NULL\<close>.\<close>

definition strlchr_doc :: "'s ngx \<Rightarrow> bool" where
  "strlchr_doc E \<longleftrightarrow>
     (\<forall>xs c. case ngx_strlchr E xs c of
        None \<Rightarrow> c \<notin> set xs
      | Some i \<Rightarrow> i < length xs \<and> xs ! i = c \<and> c \<notin> set (take i xs))"

text \<open>\<^verbatim>\<open>ngx_atoi\<close>: the value of a non-empty string of decimal digits that fits
  \<^verbatim>\<open>ngx_int_t\<close>, and \<^verbatim>\<open>NGX_ERROR\<close> (-1) otherwise.\<close>

definition is_digit :: "byte \<Rightarrow> bool" where
  "is_digit b \<longleftrightarrow> 48 \<le> b \<and> b \<le> 57"

definition dec_value :: "bytes \<Rightarrow> int" where
  "dec_value xs = foldl (\<lambda>v b. v * 10 + (uint b - 48)) 0 xs"

definition atoi_doc :: "'s ngx \<Rightarrow> bool" where
  "atoi_doc E \<longleftrightarrow>
     (\<forall>xs. ngx_atoi E xs =
        (if xs \<noteq> [] \<and> list_all is_digit xs \<and> dec_value xs < 2 ^ 63 then dec_value xs else -1))"

text \<open>\<^verbatim>\<open>ngx_memn2cmp\<close>: the lexicographic order of unsigned bytes, a proper prefix first.\<close>

definition memn2cmp_doc :: "'s ngx \<Rightarrow> bool" where
  "memn2cmp_doc E \<longleftrightarrow>
     (\<forall>xs ys. (ngx_memn2cmp E xs ys < 0 \<longleftrightarrow> xs < ys) \<and> (ngx_memn2cmp E xs ys = 0 \<longleftrightarrow> xs = ys))"

text \<open>\<^verbatim>\<open>ngx_align_ptr\<close>: the least multiple of a power of two at or above an address.\<close>

definition align_doc :: "'s ngx \<Rightarrow> bool" where
  "align_doc E \<longleftrightarrow>
     (\<forall>p k. p \<le> ngx_align_ptr E p (2 ^ k) \<and> ngx_align_ptr E p (2 ^ k) < p + 2 ^ k
        \<and> 2 ^ k dvd ngx_align_ptr E p (2 ^ k))"

text \<open>
  \<^verbatim>\<open>ngx_rbtree_insert\<close> links a node into an empty tree itself and otherwise calls the tree's
  insert callback, then rebalances; \<^verbatim>\<open>ngx_rbtree_delete\<close> unlinks a node and rebalances.
  Rebalancing recolours and rotates: it keeps the in-order sequence.
\<close>

definition rbtree_doc :: "'s ngx \<Rightarrow> bool" where
  "rbtree_doc E \<longleftrightarrow>
     (\<forall>cb a. map_option rbt_addrs (ngx_rbtree_insert E cb Leaf a) = Some [a])
   \<and> (\<forall>cb t t' a. t \<noteq> Leaf \<longrightarrow> cb t = Some t' \<longrightarrow>
        map_option rbt_addrs (ngx_rbtree_insert E cb t a) = Some (rbt_addrs t'))
   \<and> (\<forall>t a. distinct (rbt_addrs t) \<longrightarrow> a \<in> set (rbt_addrs t) \<longrightarrow>
        rbt_addrs (ngx_rbtree_delete E t a) = remove1 a (rbt_addrs t))"

text \<open>
  The slab pool hands out a block that is not in use, or \<^verbatim>\<open>NULL\<close>, and takes a block back.
  \<open>slab_live\<close> is the set of blocks in use; no definition of the module reads it.
\<close>

definition slab_doc :: "'s ngx \<Rightarrow> bool" where
  "slab_doc E \<longleftrightarrow>
     (\<forall>s n. case ngx_slab_alloc_locked E s n of
        (None, s') \<Rightarrow> slab_live E s' = slab_live E s
      | (Some a, s') \<Rightarrow> a \<notin> slab_live E s \<and> slab_live E s' = insert a (slab_live E s))
   \<and> (\<forall>s a. a \<in> slab_live E s \<longrightarrow> slab_live E (ngx_slab_free_locked E s a) = slab_live E s - {a})"

text \<open>\<^verbatim>\<open>SHA256\<close> writes 32 bytes; \<^verbatim>\<open>HMAC(EVP_sha256(), ...)\<close> fails or writes 32 bytes.\<close>

definition digest_doc :: "'s ngx \<Rightarrow> bool" where
  "digest_doc E \<longleftrightarrow>
     (\<forall>xs. length (sha256 E xs) = 32)
   \<and> (\<forall>k xs. case hmac_sha256 E k xs of None \<Rightarrow> True | Some m \<Rightarrow> length m = 32)"

text \<open>What the node store relies on.\<close>

definition store_doc :: "'s ngx \<Rightarrow> bool" where
  "store_doc E \<longleftrightarrow> memn2cmp_doc E \<and> rbtree_doc E \<and> slab_doc E"

lemma store_docD [dest]:
  "store_doc E \<Longrightarrow> memn2cmp_doc E \<and> rbtree_doc E \<and> slab_doc E"
  by (simp add: store_doc_def)

section \<open>Consequences used by the components\<close>

lemma strlchr_None: "strlchr_doc E \<Longrightarrow> ngx_strlchr E xs c = None \<longleftrightarrow> c \<notin> set xs"
  unfolding strlchr_doc_def by (erule allE[of _ xs], erule allE[of _ c]) (auto split: option.splits)

lemma strlchr_Some:
  assumes "strlchr_doc E" "ngx_strlchr E xs c = Some i"
  shows "i < length xs" "xs ! i = c" "c \<notin> set (take i xs)"
proof -
  from assms(1) have "case ngx_strlchr E xs c of None \<Rightarrow> c \<notin> set xs
      | Some i \<Rightarrow> i < length xs \<and> xs ! i = c \<and> c \<notin> set (take i xs)"
    unfolding strlchr_doc_def by blast
  with assms(2) show "i < length xs" "xs ! i = c" "c \<notin> set (take i xs)" by simp_all
qed

lemma memn2cmp_less: "memn2cmp_doc E \<Longrightarrow> ngx_memn2cmp E xs ys < 0 \<longleftrightarrow> xs < ys"
  and memn2cmp_zero: "memn2cmp_doc E \<Longrightarrow> ngx_memn2cmp E xs ys = 0 \<longleftrightarrow> xs = ys"
  by (simp_all add: memn2cmp_doc_def)

lemma slab_alloc_Some:
  assumes "slab_doc E" "ngx_slab_alloc_locked E s n = (Some a, s')"
  shows "a \<notin> slab_live E s" "slab_live E s' = insert a (slab_live E s)"
  using assms(1)[unfolded slab_doc_def, THEN conjunct1, THEN spec, THEN spec, of s n] assms(2)
  by simp_all

lemma slab_alloc_None:
  assumes "slab_doc E" "ngx_slab_alloc_locked E s n = (None, s')"
  shows "slab_live E s' = slab_live E s"
  using assms(1)[unfolded slab_doc_def, THEN conjunct1, THEN spec, THEN spec, of s n] assms(2)
  by simp

lemma slab_free_live:
  "slab_doc E \<Longrightarrow> a \<in> slab_live E s \<Longrightarrow>
   slab_live E (ngx_slab_free_locked E s a) = slab_live E s - {a}"
  by (simp add: slab_doc_def)

lemma hmac_length: "digest_doc E \<Longrightarrow> hmac_sha256 E k xs = Some m \<Longrightarrow> length m = 32"
  unfolding digest_doc_def by (drule conjunct2, drule spec[of _ k], drule spec[of _ xs]) simp

lemma rbtree_insert_doc:
  assumes "rbtree_doc E"
  shows "\<exists>t. ngx_rbtree_insert E cb Leaf a = Some t \<and> rbt_addrs t = [a]"
    and "t \<noteq> Leaf \<Longrightarrow> cb t = Some t' \<Longrightarrow> \<exists>u. ngx_rbtree_insert E cb t a = Some u \<and> rbt_addrs u = rbt_addrs t'"
  using assms by (auto simp: rbtree_doc_def)

section \<open>A concrete environment\<close>

text \<open>
  One instance of the record, used by the witnesses: first-match search, decimal parsing, a tree
  that is not rebalanced, a slab pool of a fixed number of blocks (the pool's state is that number
  and the blocks in use), and digests that are simple functions of the bytes.
\<close>

fun ref_strlchr :: "bytes \<Rightarrow> byte \<Rightarrow> nat option" where
  "ref_strlchr [] c = None"
| "ref_strlchr (x # xs) c = (if x = c then Some 0 else map_option Suc (ref_strlchr xs c))"

definition ref_atoi :: "bytes \<Rightarrow> int" where
  "ref_atoi xs =
     (if xs \<noteq> [] \<and> list_all is_digit xs \<and> dec_value xs < 2 ^ 63 then dec_value xs else -1)"

definition ref_memn2cmp :: "bytes \<Rightarrow> bytes \<Rightarrow> int" where
  "ref_memn2cmp xs ys = (if xs < ys then -1 else if xs = ys then 0 else 1)"

definition ref_crc32 :: "bytes \<Rightarrow> 32 word" where
  "ref_crc32 xs = foldl (\<lambda>h b. h * 31 + ucast b) 7 xs"

definition ref_align :: "nat \<Rightarrow> nat \<Rightarrow> nat" where
  "ref_align p a = (p + (a - 1)) div a * a"

fun ref_rbtree_insert :: "(rbt \<Rightarrow> rbt option) \<Rightarrow> rbt \<Rightarrow> addr \<Rightarrow> rbt option" where
  "ref_rbtree_insert cb Leaf a = Some (Node Leaf (a, False) Leaf)"
| "ref_rbtree_insert cb t a = cb t"

fun rbt_join :: "rbt \<Rightarrow> rbt \<Rightarrow> rbt" where
  "rbt_join Leaf r = r"
| "rbt_join (Node l x m) r = Node l x (rbt_join m r)"

fun ref_rbtree_delete :: "rbt \<Rightarrow> addr \<Rightarrow> rbt" where
  "ref_rbtree_delete Leaf a = Leaf"
| "ref_rbtree_delete (Node l x r) a =
     (if fst x = a then rbt_join l r
      else Node (ref_rbtree_delete l a) x
             (if a \<in> set (rbt_addrs l) then r else ref_rbtree_delete r a))"

definition ref_slab_alloc :: "nat \<times> addr list \<Rightarrow> nat \<Rightarrow> addr option \<times> (nat \<times> addr list)" where
  "ref_slab_alloc s n =
     (if length (snd s) < fst s
      then (let a = Suc (foldr max (snd s) 0) in (Some a, (fst s, a # snd s)))
      else (None, s))"

definition ref_slab_free :: "nat \<times> addr list \<Rightarrow> addr \<Rightarrow> nat \<times> addr list" where
  "ref_slab_free s a = (fst s, removeAll a (snd s))"

definition ref_sha256 :: "bytes \<Rightarrow> bytes" where
  "ref_sha256 xs = take 32 (xs @ replicate 32 0)"

definition ref_hmac :: "bytes \<Rightarrow> bytes \<Rightarrow> bytes option" where
  "ref_hmac k xs = Some (take 32 (map2 (+) (k @ replicate 32 1) (rev xs @ replicate 32 2) @ replicate 32 3))"

definition ref_ngx :: "(nat \<times> addr list) ngx" where
  "ref_ngx = \<lparr> ngx_strlchr = ref_strlchr, ngx_atoi = ref_atoi, ngx_memn2cmp = ref_memn2cmp,
     ngx_crc32_short = ref_crc32, ngx_crc32_long = ref_crc32, ngx_align_ptr = ref_align,
     ngx_rbtree_insert = ref_rbtree_insert, ngx_rbtree_delete = ref_rbtree_delete,
     ngx_slab_alloc_locked = ref_slab_alloc, ngx_slab_free_locked = ref_slab_free,
     slab_live = (\<lambda>s. set (snd s)), sha256 = ref_sha256, hmac_sha256 = ref_hmac \<rparr>"

lemma ref_ngx_sel [simp]:
  "ngx_strlchr ref_ngx = ref_strlchr" "ngx_atoi ref_ngx = ref_atoi"
  "ngx_memn2cmp ref_ngx = ref_memn2cmp" "ngx_crc32_short ref_ngx = ref_crc32"
  "ngx_crc32_long ref_ngx = ref_crc32" "ngx_align_ptr ref_ngx = ref_align"
  "ngx_rbtree_insert ref_ngx = ref_rbtree_insert" "ngx_rbtree_delete ref_ngx = ref_rbtree_delete"
  "ngx_slab_alloc_locked ref_ngx = ref_slab_alloc" "ngx_slab_free_locked ref_ngx = ref_slab_free"
  "slab_live ref_ngx = (\<lambda>s. set (snd s))" "sha256 ref_ngx = ref_sha256"
  "hmac_sha256 ref_ngx = ref_hmac"
  by (simp_all add: ref_ngx_def)

lemma ref_strlchr_doc: "strlchr_doc ref_ngx"
proof -
  have "case ref_strlchr xs c of None \<Rightarrow> c \<notin> set xs
      | Some i \<Rightarrow> i < length xs \<and> xs ! i = c \<and> c \<notin> set (take i xs)" for xs c
    by (induction xs) (auto split: option.splits)
  then show ?thesis by (simp add: strlchr_doc_def)
qed

lemma ref_atoi_doc: "atoi_doc ref_ngx"
  by (simp add: atoi_doc_def ref_atoi_def)

lemma ref_memn2cmp_doc: "memn2cmp_doc ref_ngx"
  by (simp add: memn2cmp_doc_def ref_memn2cmp_def)

lemma ref_align_doc: "align_doc ref_ngx"
proof -
  have "p \<le> ref_align p (2 ^ k) \<and> ref_align p (2 ^ k) < p + 2 ^ k \<and> 2 ^ k dvd ref_align p (2 ^ k)"
    for p k :: nat
  proof -
    define m :: nat where "m = 2 ^ k"
    have m: "0 < m" by (simp add: m_def)
    have dm: "(p + (m - 1)) div m * m + (p + (m - 1)) mod m = p + (m - 1)"
      by (rule div_mult_mod_eq)
    moreover have "(p + (m - 1)) mod m < m" using m by simp
    ultimately have "p \<le> (p + (m - 1)) div m * m" "(p + (m - 1)) div m * m < p + m"
      using m by linarith+
    then show ?thesis unfolding ref_align_def m_def by simp
  qed
  then show ?thesis by (simp add: align_doc_def)
qed

lemma rbt_addrs_join [simp]: "rbt_addrs (rbt_join l r) = rbt_addrs l @ rbt_addrs r"
  by (induction l r rule: rbt_join.induct) auto

lemma rbt_addrs_ref_delete:
  "distinct (rbt_addrs t) \<Longrightarrow> rbt_addrs (ref_rbtree_delete t a) = remove1 a (rbt_addrs t)"
  by (induction t) (auto simp: remove1_append remove1_idem)

lemma ref_rbtree_doc: "rbtree_doc ref_ngx"
proof -
  have "ref_rbtree_insert cb t a = cb t" if "t \<noteq> Leaf" for cb t a
    using that by (cases t) auto
  then show ?thesis by (auto simp: rbtree_doc_def rbt_addrs_ref_delete)
qed

lemma foldr_max_ge: "a \<in> set xs \<Longrightarrow> a \<le> foldr max xs (0 :: nat)"
  by (induction xs) auto

lemma ref_slab_doc: "slab_doc ref_ngx"
  by (auto simp: slab_doc_def ref_slab_alloc_def ref_slab_free_def Let_def dest: foldr_max_ge
      split: prod.splits option.splits if_splits)

lemma ref_digest_doc: "digest_doc ref_ngx"
  by (auto simp: digest_doc_def ref_sha256_def ref_hmac_def)

lemma ref_store_doc: "store_doc ref_ngx"
  by (simp add: store_doc_def ref_memn2cmp_doc ref_rbtree_doc ref_slab_doc)

end
