(* ===== verification/EA_Codec.thy ===== *)
theory EA_Codec
  imports EA_Prelude
begin

unbundle bit_operations_syntax

text \<open>
  The little-endian field codecs of \<^verbatim>\<open>ngx_http_error_abuse_scan.c\<close>.  A \<^verbatim>\<open>u_char *p\<close> is
  an index into a buffer; \<^verbatim>\<open>p[i] = b\<close> is the checked write \<^const>\<open>wr\<close>, so a codec that
  leaves its buffer is undefined behaviour.  The interface \<open>le_codec\<close> states what the serializer
  and the loader rely on, and the three codecs are its interpretations.
\<close>

section \<open>The codecs\<close>

definition ea_put_u16 :: "bytes \<Rightarrow> nat \<Rightarrow> 16 word \<Rightarrow> (bytes \<times> nat) option" where
  "ea_put_u16 buf p v = do {
     buf \<leftarrow> wr buf p (ucast v);
     buf \<leftarrow> wr buf (p + 1) (ucast (drop_bit 8 v));
     Some (buf, p + 2)
   }"

definition ea_put_u32 :: "bytes \<Rightarrow> nat \<Rightarrow> 32 word \<Rightarrow> (bytes \<times> nat) option" where
  "ea_put_u32 buf p v = do {
     buf \<leftarrow> wr buf p (ucast v);
     buf \<leftarrow> wr buf (p + 1) (ucast (drop_bit 8 v));
     buf \<leftarrow> wr buf (p + 2) (ucast (drop_bit 16 v));
     buf \<leftarrow> wr buf (p + 3) (ucast (drop_bit 24 v));
     Some (buf, p + 4)
   }"

text \<open>The loops \<^verbatim>\<open>for (i = 0; i < 8; i++)\<close>; the list is the index sequence that is left.\<close>

fun put_u64_loop :: "bytes \<Rightarrow> nat \<Rightarrow> 64 word \<Rightarrow> nat list \<Rightarrow> bytes option" where
  "put_u64_loop buf p v [] = Some buf"
| "put_u64_loop buf p v (i # is) = do {
     buf \<leftarrow> wr buf (p + i) (ucast (drop_bit (8 * i) v));
     put_u64_loop buf p v is
   }"

definition ea_put_u64 :: "bytes \<Rightarrow> nat \<Rightarrow> 64 word \<Rightarrow> (bytes \<times> nat) option" where
  "ea_put_u64 buf p v = do {
     buf \<leftarrow> put_u64_loop buf p v [0..<8];
     Some (buf, p + 8)
   }"

definition ea_get_u16 :: "bytes \<Rightarrow> nat \<Rightarrow> 16 word option" where
  "ea_get_u16 buf p = do {
     b0 \<leftarrow> rd buf p;
     b1 \<leftarrow> rd buf (p + 1);
     Some (ucast b0 OR push_bit 8 (ucast b1))
   }"

definition ea_get_u32 :: "bytes \<Rightarrow> nat \<Rightarrow> 32 word option" where
  "ea_get_u32 buf p = do {
     b0 \<leftarrow> rd buf p;
     b1 \<leftarrow> rd buf (p + 1);
     b2 \<leftarrow> rd buf (p + 2);
     b3 \<leftarrow> rd buf (p + 3);
     Some (ucast b0 OR push_bit 8 (ucast b1) OR push_bit 16 (ucast b2) OR push_bit 24 (ucast b3))
   }"

fun get_u64_loop :: "bytes \<Rightarrow> nat \<Rightarrow> 64 word \<Rightarrow> nat list \<Rightarrow> 64 word option" where
  "get_u64_loop buf p v [] = Some v"
| "get_u64_loop buf p v (i # is) = do {
     b \<leftarrow> rd buf (p + i);
     get_u64_loop buf p (v OR push_bit (8 * i) (ucast b)) is
   }"

definition ea_get_u64 :: "bytes \<Rightarrow> nat \<Rightarrow> 64 word option" where
  "ea_get_u64 buf p = get_u64_loop buf p 0 [0..<8]"

section \<open>What a codec means\<close>

text \<open>Byte \<open>i\<close> of the encoding holds bits \<open>8 i\<close> to \<open>8 i + 7\<close>, least significant first.\<close>

definition le_bytes :: "nat \<Rightarrow> 'a::len word \<Rightarrow> bytes" where
  "le_bytes n v = map (\<lambda>i. ucast (drop_bit (8 * i) v)) [0..<n]"

definition le_word :: "bytes \<Rightarrow> 'a::len word" where
  "le_word bs = foldr (\<lambda>b v. ucast b OR push_bit 8 v) bs 0"

lemma length_le_bytes [simp]: "length (le_bytes n v) = n"
  by (simp add: le_bytes_def)

lemma bit_le_word:
  "bit (le_word bs :: 'a::len word) n \<longleftrightarrow>
     n < LENGTH('a) \<and> n < 8 * length bs \<and> bit (bs ! (n div 8)) (n mod 8)"
proof (induction bs arbitrary: n)
  case Nil
  then show ?case by (simp add: le_word_def)
next
  case (Cons b bs)
  have step: "le_word (b # bs) = (ucast b OR push_bit 8 (le_word bs) :: 'a word)"
    by (simp add: le_word_def)
  show ?case
  proof (cases "n < 8")
    case True
    then show ?thesis by (auto simp: step bit_simps)
  next
    case False
    then obtain m where n: "n = m + 8" by (metis add.commute le_Suc_ex not_less)
    have "\<not> bit b (m + 8)" by (auto dest: bit_imp_le_length)
    moreover have "(m + 8) div 8 = Suc (m div 8)" by simp
    ultimately show ?thesis
      by (auto simp: step n bit_simps Cons.IH)
  qed
qed

lemma bit_nth_le_bytes:
  fixes v :: "'a::len word"
  assumes "i < n"
  shows "bit (le_bytes n v ! i) j \<longleftrightarrow> j < 8 \<and> bit v (8 * i + j)"
  using assms by (auto simp: le_bytes_def bit_simps dest: bit_imp_le_length)

lemma le_word_le_bytes:
  fixes v :: "'a::len word"
  assumes "LENGTH('a) = 8 * n"
  shows "le_word (le_bytes n v) = v"
proof (rule bit_word_eqI)
  fix k assume k: "k < LENGTH('a)"
  then have "k div 8 < n" using assms by auto
  then show "bit (le_word (le_bytes n v) :: 'a word) k = bit v k"
    using k assms by (auto simp: bit_le_word bit_nth_le_bytes)
qed

lemma le_bytes_le_word:
  assumes "length bs = n" "LENGTH('a::len) = 8 * n"
  shows "le_bytes n (le_word bs :: 'a word) = bs"
proof (rule nth_equalityI)
  show "length (le_bytes n (le_word bs :: 'a word)) = length bs" using assms by simp
next
  fix i assume "i < length (le_bytes n (le_word bs :: 'a word))"
  then have i: "i < n" by simp
  show "le_bytes n (le_word bs :: 'a word) ! i = bs ! i"
  proof (rule bit_word_eqI)
    fix j :: nat assume j: "j < LENGTH(8)"
    then have "8 * i + j < 8 * n" using i by simp
    then show "bit (le_bytes n (le_word bs :: 'a word) ! i) j = bit (bs ! i) j"
      using i j assms by (simp add: bit_nth_le_bytes bit_le_word)
  qed
qed

section \<open>The interface of a field codec\<close>

locale le_codec =
  fixes put :: "bytes \<Rightarrow> nat \<Rightarrow> 'v \<Rightarrow> (bytes \<times> nat) option"
    and get :: "bytes \<Rightarrow> nat \<Rightarrow> 'v option"
    and enc :: "'v \<Rightarrow> bytes"
    and dec :: "bytes \<Rightarrow> 'v"
    and w :: nat
  assumes w_pos: "0 < w"
    and length_enc: "length (enc v) = w"
    and put_eq: "put buf p v =
          (if p + w \<le> length buf then Some (overwrite buf p (enc v), p + w) else None)"
    and get_eq: "get buf p =
          (if p + w \<le> length buf then Some (dec (take w (drop p buf))) else None)"
    and dec_enc: "dec (enc v) = v"
    and enc_dec: "length bs = w \<Longrightarrow> enc (dec bs) = bs"
begin

lemma get_at:
  assumes "drop p buf = enc v @ post"
  shows "get buf p = Some v"
proof -
  have "length buf - p = w + length post"
    using arg_cong[OF assms, of length] by (simp add: length_enc)
  then have "p + w \<le> length buf" using w_pos by linarith
  then show ?thesis by (simp add: get_eq assms length_enc dec_enc)
qed

lemma get_append: "get (pre @ enc v @ post) (length pre) = Some v"
  by (simp add: get_eq length_enc dec_enc)

lemma get_append_pre: "get (pre @ bs @ post) (length pre) = Some (dec bs)" if "length bs = w"
  using that by (simp add: get_eq)

lemma put_append:
  "w \<le> length post \<Longrightarrow>
   put (pre @ post) (length pre) v = Some (pre @ enc v @ drop w post, length pre + w)"
  by (simp add: put_eq overwrite_def length_enc)

lemma put_get: "put buf p v = Some (buf', q) \<Longrightarrow> get buf' p = Some v \<and> q = p + w"
  by (auto simp: put_eq get_eq length_enc overwrite_def dec_enc split: if_splits)

lemma put_frame:
  assumes "put buf p v = Some (buf', q)" "i < p \<or> q \<le> i"
  shows "rd buf' i = rd buf i"
proof -
  from assms(1) have b: "buf' = overwrite buf p (enc v)" and q: "q = p + w"
    and le: "p + w \<le> length buf"
    by (auto simp: put_eq split: if_splits)
  have len: "length buf' = length buf" by (simp add: b length_enc le)
  have "overwrite buf p (enc v) ! i = buf ! i" if "i < length buf"
    using assms(2) le that q
    by (auto simp: overwrite_def nth_append length_enc)
  then show ?thesis using len b by (simp add: rd_def)
qed

lemma get_bounds: "get buf p \<noteq> None \<longleftrightarrow> p + w \<le> length buf"
  by (simp add: get_eq)

end

section \<open>The codecs implement the interface\<close>

lemma upt_2: "[0..<2] = [0, Suc 0]" and upt_4: "[0..<4] = [0, 1, 2, 3]"
  and upt_8: "[0..<8] = [0, 1, 2, 3, 4, 5, 6, 7]"
  by (simp_all add: upt_conv_Cons)

lemma rd_drop: "rd buf (p + i) = rd (drop p buf) i"
  by (auto simp: rd_def)

lemma take_drop_nths:
  "p + 2 \<le> length buf \<Longrightarrow> take 2 (drop p buf) = [buf ! p, buf ! (p + 1)]"
  "p + 4 \<le> length buf \<Longrightarrow> take 4 (drop p buf) = [buf ! p, buf ! (p + 1), buf ! (p + 2), buf ! (p + 3)]"
  "p + 8 \<le> length buf \<Longrightarrow> take 8 (drop p buf) =
     [buf ! p, buf ! (p + 1), buf ! (p + 2), buf ! (p + 3),
      buf ! (p + 4), buf ! (p + 5), buf ! (p + 6), buf ! (p + 7)]"
  by (simp_all add: list_eq_iff_nth_eq less_Suc_eq numeral_eq_Suc)

lemma get_u16_eq:
  "ea_get_u16 buf p =
     (if p + 2 \<le> length buf then Some (le_word (take 2 (drop p buf))) else None)"
  by (auto simp: ea_get_u16_def rd_def le_word_def take_drop_nths)

lemma get_u32_eq:
  "ea_get_u32 buf p =
     (if p + 4 \<le> length buf then Some (le_word (take 4 (drop p buf))) else None)"
  by (auto simp: ea_get_u32_def rd_def le_word_def take_drop_nths push_bit_or or.assoc)

lemma get_u64_eq:
  "ea_get_u64 buf p =
     (if p + 8 \<le> length buf then Some (le_word (take 8 (drop p buf))) else None)"
  by (auto simp: ea_get_u64_def upt_8 rd_def le_word_def take_drop_nths push_bit_or or.assoc)

lemma put_u16_eq:
  "ea_put_u16 buf p v =
     (if p + 2 \<le> length buf then Some (overwrite buf p (le_bytes 2 v), p + 2) else None)"
  by (auto simp: ea_put_u16_def wr_overwrite overwrite_overwrite le_bytes_def upt_2)

lemma put_u32_eq:
  "ea_put_u32 buf p v =
     (if p + 4 \<le> length buf then Some (overwrite buf p (le_bytes 4 v), p + 4) else None)"
  by (auto simp: ea_put_u32_def wr_overwrite overwrite_overwrite le_bytes_def upt_4)

lemma put_u64_eq:
  "ea_put_u64 buf p v =
     (if p + 8 \<le> length buf then Some (overwrite buf p (le_bytes 8 v), p + 8) else None)"
  by (auto simp: ea_put_u64_def wr_overwrite overwrite_overwrite le_bytes_def upt_8)

interpretation u16: le_codec ea_put_u16 ea_get_u16 "le_bytes 2" le_word 2
  by unfold_locales (simp_all add: put_u16_eq get_u16_eq le_word_le_bytes le_bytes_le_word)

interpretation u32: le_codec ea_put_u32 ea_get_u32 "le_bytes 4" le_word 4
  by unfold_locales (simp_all add: put_u32_eq get_u32_eq le_word_le_bytes le_bytes_le_word)

interpretation u64: le_codec ea_put_u64 ea_get_u64 "le_bytes 8" le_word 8
  by unfold_locales (simp_all add: put_u64_eq get_u64_eq le_word_le_bytes le_bytes_le_word)

end
