(* ===== verification/EA_Scan.thy ===== *)
theory EA_Scan
  imports EA_Nginx EA_Codec
begin

unbundle bit_operations_syntax

text \<open>
  The scan core, \<^verbatim>\<open>ngx_http_error_abuse_scan.c\<close>: the parser of a status list, the validator
  of an on-disk snapshot, the Redis key writer and the size of a serialized record.  A buffer and
  a pointer into it are a byte list and an index.  For each routine the theory gives the code's
  walk, a reference definition on whole lists, and their agreement.
\<close>

section \<open>Constants\<close>

definition DIGEST_LEN :: nat where "DIGEST_LEN = 32"
definition FILE_REC_LEN :: nat where "FILE_REC_LEN = 20"
definition MAX_STATUS :: nat where "MAX_STATUS = 599"
definition STATUS_BYTES :: nat where "STATUS_BYTES = 75"

lemmas scan_consts = DIGEST_LEN_def FILE_REC_LEN_def MAX_STATUS_def STATUS_BYTES_def

definition ascii :: "string \<Rightarrow> bytes" where
  "ascii s = map of_char s"

section \<open>The status list\<close>

datatype statuses_rc = STATUSES_OK | STATUSES_EMPTY_ELEMENT | STATUSES_TRAILING_COMMA | STATUSES_RANGE

text \<open>\<^verbatim>\<open>1U << (status & 7)\<close>, cut to a byte.\<close>

definition status_bit :: "nat \<Rightarrow> byte" where
  "status_bit s = push_bit (s mod 8) 1"

text \<open>\<^verbatim>\<open>bitmap[status >> 3] |= 1U << (status & 7)\<close>, for each status of a range in turn.\<close>

fun status_loop :: "bytes \<Rightarrow> nat list \<Rightarrow> bytes option" where
  "status_loop bm [] = Some bm"
| "status_loop bm (s # ss) = do {
     b \<leftarrow> rd bm (s div 8);
     bm \<leftarrow> wr bm (s div 8) (b OR status_bit s);
     status_loop bm ss
   }"

text \<open>One element \<^verbatim>\<open>[p, en)\<close> of the list: a status or a range \<^verbatim>\<open>first-final\<close>.\<close>

definition parse_element :: "'s ngx \<Rightarrow> bytes \<Rightarrow> nat \<Rightarrow> nat \<Rightarrow> (int \<times> int) option" where
  "parse_element E data p en = do {
     elem \<leftarrow> slice data p (en - p);
     case ngx_strlchr E elem 45 of
       None \<Rightarrow> (let first = ngx_atoi E elem in Some (first, first))
     | Some d \<Rightarrow> do {
         a \<leftarrow> slice data p d;
         b \<leftarrow> slice data (p + d + 1) (en - (p + d) - 1);
         Some (ngx_atoi E a, ngx_atoi E b)
       }
   }"

function parse_statuses_loop ::
  "'s ngx \<Rightarrow> bytes \<Rightarrow> nat \<Rightarrow> nat \<Rightarrow> bytes \<Rightarrow> (statuses_rc \<times> bytes) option" where
  "parse_statuses_loop E data e p bm =
     (if p < e then
        case slice data p (e - p) of
          None \<Rightarrow> None
        | Some rest \<Rightarrow>
            (let en = (case ngx_strlchr E rest 44 of None \<Rightarrow> e | Some i \<Rightarrow> p + i) in
             if en = p then Some (STATUSES_EMPTY_ELEMENT, bm)
             else case parse_element E data p en of
                 None \<Rightarrow> None
               | Some (first, final) \<Rightarrow>
                   if first < 100 \<or> final < first \<or> final > int MAX_STATUS
                   then Some (STATUSES_RANGE, bm)
                   else (case status_loop bm [nat first..<Suc (nat final)] of
                           None \<Rightarrow> None
                         | Some bm' \<Rightarrow>
                             if en = e then Some (STATUSES_OK, bm')
                             else if en + 1 = e then Some (STATUSES_TRAILING_COMMA, bm')
                             else parse_statuses_loop E data e (en + 1) bm'))
      else Some (STATUSES_OK, bm))"
  by pat_completeness auto
termination
  by (relation "measure (\<lambda>(E, data, e, p, bm). e - p)") (auto split: option.splits)

declare parse_statuses_loop.simps [simp del]

definition ea_parse_statuses :: "'s ngx \<Rightarrow> bytes \<Rightarrow> bytes \<Rightarrow> (statuses_rc \<times> bytes) option" where
  "ea_parse_statuses E data bm = parse_statuses_loop E data (length data) 0 bm"

subsection \<open>The bitmap\<close>

text \<open>\<^verbatim>\<open>ngx_http_error_abuse_status_matches\<close> of the module.\<close>

definition ea_status_matches :: "bytes \<Rightarrow> nat \<Rightarrow> bool option" where
  "ea_status_matches statuses status =
     (if status > MAX_STATUS then Some False
      else do {
        b \<leftarrow> rd statuses (status div 8);
        Some (b AND status_bit status \<noteq> 0)
      })"

definition marked :: "bytes \<Rightarrow> nat \<Rightarrow> bool" where
  "marked bm s \<longleftrightarrow> s div 8 < length bm \<and> bit (bm ! (s div 8)) (s mod 8)"

lemma and_status_bit: "b AND status_bit s \<noteq> 0 \<longleftrightarrow> bit b (s mod 8)"
  by (simp add: status_bit_def and_exp_eq_0_iff_not_bit)

lemma bit_status_bit: "bit (status_bit s) n \<longleftrightarrow> n = s mod 8"
  by (auto simp: status_bit_def bit_simps)

lemma status_matches_eq:
  assumes "length bm = STATUS_BYTES"
  shows "ea_status_matches bm s = Some (s \<le> MAX_STATUS \<and> marked bm s)"
proof (cases "s > MAX_STATUS")
  case True
  then show ?thesis by (simp add: ea_status_matches_def)
next
  case False
  then have "s div 8 < length bm" using assms by (simp add: scan_consts)
  then show ?thesis using False
    by (simp add: ea_status_matches_def rd_def marked_def and_status_bit)
qed

lemma marked_update:
  assumes "s div 8 < length bm"
  shows "marked (bm[s div 8 := bm ! (s div 8) OR status_bit s]) t \<longleftrightarrow> marked bm t \<or> t = s"
proof (cases "t div 8 = s div 8")
  case True
  then have "t mod 8 = s mod 8 \<longleftrightarrow> t = s" by (metis div_mult_mod_eq)
  then show ?thesis using assms True by (auto simp: marked_def bit_or_iff bit_status_bit)
next
  case False
  then show ?thesis by (auto simp: marked_def)
qed

lemma status_loop_ok:
  "\<forall>s \<in> set ss. s div 8 < length bm \<Longrightarrow>
   \<exists>bm'. status_loop bm ss = Some bm' \<and> length bm' = length bm
        \<and> (\<forall>t. marked bm' t \<longleftrightarrow> marked bm t \<or> t \<in> set ss)"
proof (induction ss arbitrary: bm)
  case Nil
  then show ?case by simp
next
  case (Cons s ss)
  define bm1 where "bm1 = bm[s div 8 := bm ! (s div 8) OR status_bit s]"
  have s: "s div 8 < length bm" using Cons.prems by simp
  have "\<forall>s \<in> set ss. s div 8 < length bm1" using Cons.prems by (simp add: bm1_def)
  from Cons.IH[OF this] obtain bm' where "status_loop bm1 ss = Some bm'" "length bm' = length bm1"
    "\<forall>t. marked bm' t \<longleftrightarrow> marked bm1 t \<or> t \<in> set ss" by blast
  then show ?case
    using s by (auto simp: rd_def wr_def bm1_def marked_update)
qed

subsection \<open>Reference: a list of comma-separated elements\<close>

function split_on :: "'a \<Rightarrow> 'a list \<Rightarrow> 'a list list" where
  "split_on c xs =
     (if c \<in> set xs then takeWhile (\<lambda>x. x \<noteq> c) xs # split_on c (tl (dropWhile (\<lambda>x. x \<noteq> c) xs))
      else [xs])"
  by pat_completeness auto
termination
proof (relation "measure (length \<circ> snd)", simp)
  fix c :: 'a and xs assume "c \<in> set xs"
  then have "dropWhile (\<lambda>x. x \<noteq> c) xs \<noteq> []" "length (dropWhile (\<lambda>x. x \<noteq> c) xs) \<le> length xs"
    by (auto simp: length_dropWhile_le)
  then show "((c, tl (dropWhile (\<lambda>x. x \<noteq> c) xs)), c, xs) \<in> measure (length \<circ> snd)"
    by (cases "dropWhile (\<lambda>x. x \<noteq> c) xs") auto
qed

declare split_on.simps [simp del]

definition element_range :: "'s ngx \<Rightarrow> bytes \<Rightarrow> int \<times> int" where
  "element_range E x =
     (case ngx_strlchr E x 45 of
        None \<Rightarrow> (ngx_atoi E x, ngx_atoi E x)
      | Some d \<Rightarrow> (ngx_atoi E (take d x), ngx_atoi E (drop (Suc d) x)))"

text \<open>The outcome for a list of elements, and the ranges accepted before it was reached.\<close>

fun spec_statuses :: "'s ngx \<Rightarrow> bytes list \<Rightarrow> statuses_rc \<times> (int \<times> int) list" where
  "spec_statuses E [] = (STATUSES_OK, [])"
| "spec_statuses E (x # xs) =
     (if x = [] then (STATUSES_EMPTY_ELEMENT, [])
      else (let (lo, hi) = element_range E x in
        if lo < 100 \<or> hi < lo \<or> hi > int MAX_STATUS then (STATUSES_RANGE, [])
        else if xs = [[]] then (STATUSES_TRAILING_COMMA, [(lo, hi)])
        else (let (rc, rs) = spec_statuses E xs in (rc, (lo, hi) # rs))))"

definition in_ranges :: "(int \<times> int) list \<Rightarrow> nat \<Rightarrow> bool" where
  "in_ranges rs s \<longleftrightarrow> (\<exists>(lo, hi) \<in> set rs. lo \<le> int s \<and> int s \<le> hi)"

lemma in_ranges_simps [simp]:
  "\<not> in_ranges [] s"
  "in_ranges ((lo, hi) # rs) s \<longleftrightarrow> (lo \<le> int s \<and> int s \<le> hi) \<or> in_ranges rs s"
  by (auto simp: in_ranges_def)

lemma takeWhile_strlchr:
  assumes "strlchr_doc E" "ngx_strlchr E xs c = Some i"
  shows "takeWhile (\<lambda>x. x \<noteq> c) xs = take i xs" "tl (dropWhile (\<lambda>x. x \<noteq> c) xs) = drop (Suc i) xs"
    "c \<in> set xs"
proof -
  note i = strlchr_Some[OF assms]
  have xs: "xs = take i xs @ c # drop (Suc i) xs"
    using id_take_nth_drop[OF i(1)] i(2) by simp
  have t: "\<forall>x\<in>set (take i xs). x \<noteq> c" using i(3) by auto
  show "c \<in> set xs" using i by auto
  have "takeWhile (\<lambda>x. x \<noteq> c) (take i xs @ c # drop (Suc i) xs) = take i xs"
    using t by (simp add: takeWhile_append2)
  then show "takeWhile (\<lambda>x. x \<noteq> c) xs = take i xs" using xs by simp
  have "dropWhile (\<lambda>x. x \<noteq> c) (take i xs @ c # drop (Suc i) xs) = c # drop (Suc i) xs"
    using t by (simp add: dropWhile_append2)
  then show "tl (dropWhile (\<lambda>x. x \<noteq> c) xs) = drop (Suc i) xs" using xs by simp
qed

lemma split_on_strlchr:
  assumes "strlchr_doc E"
  shows "split_on c xs =
     (case ngx_strlchr E xs c of
        None \<Rightarrow> [xs] | Some i \<Rightarrow> take i xs # split_on c (drop (Suc i) xs))"
proof (cases "ngx_strlchr E xs c")
  case None
  then have "c \<notin> set xs" using assms by (simp add: strlchr_None)
  with None show ?thesis by (simp add: split_on.simps[of c xs])
next
  case (Some i)
  then show ?thesis using assms
    by (simp add: split_on.simps[of c xs] takeWhile_strlchr)
qed

lemma split_on_ne_Nil: "split_on c xs \<noteq> []"
  by (subst split_on.simps) simp

lemma split_on_nonempty: "xs \<noteq> [] \<Longrightarrow> split_on c xs \<noteq> [[]]"
  by (subst split_on.simps) (simp add: split_on_ne_Nil)

lemma parse_element_range:
  assumes "strlchr_doc E" "p \<le> en" "en \<le> length data"
  shows "parse_element E data p en = Some (element_range E (take (en - p) (drop p data)))"
proof -
  define x where "x = take (en - p) (drop p data)"
  have sl: "slice data p (en - p) = Some x"
    using assms by (simp add: slice_def x_def)
  have lx: "length x = en - p" using assms by (simp add: x_def)
  show ?thesis
  proof (cases "ngx_strlchr E x 45")
    case None
    then show ?thesis
      by (simp add: parse_element_def sl element_range_def x_def [symmetric] Let_def)
  next
    case (Some d)
    then have d: "d < en - p" using strlchr_Some[OF assms(1)] lx by metis
    have "slice data p d = Some (take d x)"
      using d assms by (simp add: slice_def x_def min_def)
    moreover have "slice data (p + d + 1) (en - (p + d) - 1) = Some (drop (Suc d) x)"
    proof -
      have "drop (Suc d) x = take (en - p - Suc d) (drop (p + Suc d) data)"
        using d by (simp add: x_def drop_take ac_simps)
      moreover have "en - (p + d) - 1 = en - p - Suc d" by simp
      ultimately show ?thesis using d assms by (simp add: slice_def)
    qed
    ultimately show ?thesis using Some
      by (simp add: parse_element_def sl element_range_def x_def [symmetric])
  qed
qed

lemma parse_statuses_loop_spec:
  assumes "strlchr_doc E" "length bm = STATUS_BYTES" "p < length data"
  shows "\<exists>bm'. parse_statuses_loop E data (length data) p bm
             = Some (fst (spec_statuses E (split_on 44 (drop p data))), bm')
           \<and> length bm' = STATUS_BYTES
           \<and> (\<forall>s. marked bm' s \<longleftrightarrow>
                marked bm s \<or> in_ranges (snd (spec_statuses E (split_on 44 (drop p data)))) s)"
  using assms(2,3)
proof (induction "length data - p" arbitrary: p bm rule: less_induct)
  case less
  define rest where "rest = drop p data"
  define en where "en = (case ngx_strlchr E rest 44 of None \<Rightarrow> length data | Some i \<Rightarrow> p + i)"
  define x where "x = take (en - p) rest"
  have en: "p \<le> en" "en \<le> length data"
    using less.prems strlchr_Some(1)[OF assms(1), of rest 44]
    by (auto simp: en_def rest_def split: option.splits)
  have sl: "slice data p (length data - p) = Some rest"
    using less.prems by (simp add: slice_def rest_def)
  have split: "split_on 44 rest = x # (if en = length data then [] else split_on 44 (drop (en + 1) data))"
  proof (cases "ngx_strlchr E rest 44")
    case None
    then show ?thesis
      using less.prems by (simp add: split_on_strlchr[OF assms(1)] en_def x_def rest_def)
  next
    case (Some i)
    then have "i < length rest" using strlchr_Some(1)[OF assms(1)] by blast
    then have "en \<noteq> length data" "en = p + i" using Some by (auto simp: en_def rest_def)
    moreover have "drop (Suc i) rest = drop (en + 1) data"
      using calculation by (simp add: rest_def add.commute)
    ultimately show ?thesis
      using Some by (simp add: split_on_strlchr[OF assms(1), of 44 rest] x_def)
  qed
  have x_empty: "x = [] \<longleftrightarrow> en = p"
    using en less.prems by (auto simp: x_def rest_def)
  obtain lo hi where r: "element_range E x = (lo, hi)" by fastforce
  have pe: "parse_element E data p en = Some (lo, hi)"
    using parse_element_range[OF assms(1) en] r by (simp add: x_def rest_def)
  note unfold = parse_statuses_loop.simps[of E data "length data" p bm]
  show ?case
  proof (cases "en = p \<or> lo < 100 \<or> hi < lo \<or> hi > int MAX_STATUS")
    case True
    then show ?thesis
      using less.prems sl pe x_empty r split
      by (auto simp: unfold Let_def en_def [symmetric] rest_def [symmetric])
  next
    case False
    then have bounds: "100 \<le> lo" "lo \<le> hi" "hi \<le> int MAX_STATUS" "en \<noteq> p" by auto
    have "\<forall>s \<in> set [nat lo..<Suc (nat hi)]. s div 8 < length bm"
      using bounds less.prems(1) by (auto simp: scan_consts)
    from status_loop_ok[OF this] obtain bm1 where bm1:
      "status_loop bm [nat lo..<Suc (nat hi)] = Some bm1" "length bm1 = length bm"
      "\<forall>t. marked bm1 t \<longleftrightarrow> marked bm t \<or> t \<in> set [nat lo..<Suc (nat hi)]"
      by blast
    have range: "t \<in> set [nat lo..<Suc (nat hi)] \<longleftrightarrow> lo \<le> int t \<and> int t \<le> hi" for t
      using bounds by (simp add: nat_le_iff le_nat_iff less_Suc_eq_le del: upt_Suc)
    note bm1 = bm1(1) bm1(2)[unfolded less.prems(1)] bm1(3)[unfolded range]
    show ?thesis
    proof (cases "en = length data")
      case True
      then show ?thesis
        using less.prems sl pe x_empty r split bounds bm1
        by (auto simp: unfold Let_def en_def [symmetric] rest_def [symmetric])
    next
      case False
      note ne = this
      show ?thesis
      proof (cases "en + 1 = length data")
        case True
        then have "split_on 44 (drop (en + 1) data) = [[]]" by (simp add: split_on.simps)
        then show ?thesis
          using True ne less.prems sl pe x_empty r split bounds bm1
          by (auto simp: unfold Let_def en_def [symmetric] rest_def [symmetric])
      next
        case False
        then have lt: "en + 1 < length data" using en ne by simp
        have "split_on 44 (drop (en + 1) data) \<noteq> [[]]"
          using lt by (intro split_on_nonempty) simp
        moreover have "length data - (en + 1) < length data - p" using lt en by linarith
        from less.hyps[OF this bm1(2) lt] obtain bm' where
          "parse_statuses_loop E data (length data) (en + 1) bm1
             = Some (fst (spec_statuses E (split_on 44 (drop (en + 1) data))), bm')"
          "length bm' = STATUS_BYTES"
          "\<forall>s. marked bm' s \<longleftrightarrow>
             marked bm1 s \<or> in_ranges (snd (spec_statuses E (split_on 44 (drop (en + 1) data)))) s"
          by blast
        ultimately show ?thesis
          using lt ne less.prems sl pe x_empty r split bounds bm1
          by (auto simp: unfold Let_def en_def [symmetric] rest_def [symmetric] split: prod.splits)
      qed
    qed
  qed
qed

section \<open>The snapshot validator\<close>

fun validate_loop :: "bytes \<Rightarrow> nat \<Rightarrow> nat \<Rightarrow> nat \<Rightarrow> nat \<Rightarrow> ngx_rc option" where
  "validate_loop buf e threshold 0 p = Some (if p = e then NGX_OK else NGX_ERROR)"
| "validate_loop buf e threshold (Suc n) p =
     (if ptr_diff e p < FILE_REC_LEN then Some NGX_ERROR
      else do {
        rec_key_len \<leftarrow> ea_get_u16 buf p;
        rec_event_count \<leftarrow> ea_get_u16 buf (p + 2);
        let p = p + FILE_REC_LEN;
        if unat rec_key_len \<noteq> DIGEST_LEN \<or> unat rec_event_count > threshold
        then Some NGX_ERROR
        else (let payload = unat rec_key_len + unat rec_event_count * 8 in
          if ptr_diff e p < payload then Some NGX_ERROR
          else validate_loop buf e threshold n (p + payload))
      })"

definition ea_validate_snapshot :: "bytes \<Rightarrow> nat \<Rightarrow> nat \<Rightarrow> 32 word \<Rightarrow> nat \<Rightarrow> ngx_rc option" where
  "ea_validate_snapshot buf p e records threshold = validate_loop buf e threshold (unat records) p"

subsection \<open>Reference: the record format\<close>

record snap_rec =
  sr_blocked :: "64 word"
  sr_seen :: "64 word"
  sr_key :: bytes
  sr_events :: "64 word list"

definition enc_events :: "64 word list \<Rightarrow> bytes" where
  "enc_events es = concat (map (le_bytes 8) es)"

definition enc_head :: "snap_rec \<Rightarrow> bytes" where
  "enc_head r = le_bytes 2 (of_nat (length (sr_key r)) :: 16 word)
     @ le_bytes 2 (of_nat (length (sr_events r)) :: 16 word)
     @ le_bytes 8 (sr_blocked r) @ le_bytes 8 (sr_seen r)"

definition enc_rec :: "snap_rec \<Rightarrow> bytes" where
  "enc_rec r = enc_head r @ sr_key r @ enc_events (sr_events r)"

definition wf_rec :: "nat \<Rightarrow> snap_rec \<Rightarrow> bool" where
  "wf_rec threshold r \<longleftrightarrow>
     length (sr_key r) = DIGEST_LEN \<and> length (sr_events r) \<le> threshold \<and> length (sr_events r) < 2 ^ 16"

definition enc_recs :: "snap_rec list \<Rightarrow> bytes" where
  "enc_recs rs = concat (map enc_rec rs)"

lemma length_enc_events [simp]: "length (enc_events es) = 8 * length es"
  by (induction es) (auto simp: enc_events_def)

lemma length_enc_head [simp]: "length (enc_head r) = FILE_REC_LEN"
  by (simp add: enc_head_def scan_consts)

lemma enc_recs_simps [simp]: "enc_recs [] = []" "enc_recs (r # rs) = enc_rec r @ enc_recs rs"
  by (simp_all add: enc_recs_def)

lemma enc_events_simps [simp]:
  "enc_events [] = []" "enc_events (e # es) = le_bytes 8 e @ enc_events es"
  by (simp_all add: enc_events_def)

lemma drop_plus: "drop (p + k) xs = drop k (drop p xs)"
  by (simp add: add.commute)

lemma drop_enc_rec:
  assumes "drop p buf = enc_rec r @ post"
  shows "drop p buf = le_bytes 2 (of_nat (length (sr_key r)) :: 16 word)
           @ (drop 2 (enc_rec r) @ post)"
    and "drop (p + 2) buf = le_bytes 2 (of_nat (length (sr_events r)) :: 16 word)
           @ (drop 4 (enc_rec r) @ post)"
    and "drop (p + 4) buf = le_bytes 8 (sr_blocked r) @ (drop 12 (enc_rec r) @ post)"
    and "drop (p + 12) buf = le_bytes 8 (sr_seen r) @ (drop 20 (enc_rec r) @ post)"
    and "drop (p + 20) buf = sr_key r @ enc_events (sr_events r) @ post"
    and "drop (p + (20 + length (sr_key r))) buf = enc_events (sr_events r) @ post"
  unfolding drop_plus [of p] assms by (simp_all add: enc_rec_def enc_head_def)

lemmas enc_rec_gets =
  u16.get_at [OF drop_enc_rec(1)] u16.get_at [OF drop_enc_rec(2)]
  u64.get_at [OF drop_enc_rec(3)] u64.get_at [OF drop_enc_rec(4)]

fun dec_events :: "nat \<Rightarrow> bytes \<Rightarrow> 64 word list" where
  "dec_events 0 bs = []"
| "dec_events (Suc n) bs = le_word (take 8 bs) # dec_events n (drop 8 bs)"

definition dec_rec :: "nat \<Rightarrow> bytes \<Rightarrow> snap_rec" where
  "dec_rec c bs =
     \<lparr> sr_blocked = le_word (take 8 (drop 4 bs)), sr_seen = le_word (take 8 (drop 12 bs)),
       sr_key = take DIGEST_LEN (drop 20 bs), sr_events = dec_events c (drop 52 bs) \<rparr>"

lemma length_dec_events [simp]: "length (dec_events n bs) = n"
  by (induction n arbitrary: bs) auto

lemma enc_dec_events: "8 * n \<le> length bs \<Longrightarrow> enc_events (dec_events n bs) = take (8 * n) bs"
proof (induction n arbitrary: bs)
  case 0
  then show ?case by simp
next
  case (Suc n)
  then have "enc_events (dec_events (Suc n) bs) = take 8 bs @ take (8 * n) (drop 8 bs)"
    by (simp add: le_bytes_le_word)
  also have "\<dots> = take (8 * Suc n) bs"
    by (simp add: take_add [symmetric])
  finally show ?case .
qed

lemma enc_dec_rec:
  assumes "52 + 8 * c \<le> length bs"
    and "le_word (take 2 bs) = (32 :: 16 word)"
    and "unat (le_word (take 2 (drop 2 bs)) :: 16 word) = c"
  shows "enc_rec (dec_rec c bs) = take (52 + 8 * c) bs"
proof -
  have h1: "take 2 bs = le_bytes 2 (32 :: 16 word)"
    using le_bytes_le_word[of "take 2 bs" 2, where 'a = 16] assms by simp
  have "(of_nat c :: 16 word) = le_word (take 2 (drop 2 bs))"
    unfolding assms(3) [symmetric] by simp
  then have h2: "take 2 (drop 2 bs) = le_bytes 2 (of_nat c :: 16 word)"
    using le_bytes_le_word[of "take 2 (drop 2 bs)" 2, where 'a = 16] assms by simp
  have "enc_rec (dec_rec c bs) = take 2 bs @ take 2 (drop 2 bs) @ take 8 (drop 4 bs)
     @ take 8 (drop 12 bs) @ take 32 (drop 20 bs) @ take (8 * c) (drop 52 bs)"
    using assms by (simp add: enc_rec_def enc_head_def dec_rec_def scan_consts h1 h2 enc_dec_events
        le_bytes_le_word)
  also have "\<dots> = take (52 + 8 * c) bs"
    using take_add [of 2 2 bs] take_add [of 4 8 bs] take_add [of 12 8 bs] take_add [of 20 32 bs]
    by (simp add: take_add)
  finally show ?thesis .
qed

text \<open>One step of the validator at a well-formed record, and back.\<close>

lemma length_enc_rec [simp]:
  "length (enc_rec r) = FILE_REC_LEN + length (sr_key r) + 8 * length (sr_events r)"
  by (simp add: enc_rec_def)

lemma validate_step_wf:
  assumes "drop p buf = enc_rec r @ post" "wf_rec thr r" "e \<le> length buf" "e < 2 ^ 64"
    and "p + length (enc_rec r) \<le> e"
  shows "validate_loop buf e thr (Suc n) p = validate_loop buf e thr n (p + length (enc_rec r))"
proof -
  have k: "length (sr_key r) = 32" and c: "length (sr_events r) \<le> thr" "length (sr_events r) < 65536"
    using assms(2) by (auto simp: wf_rec_def scan_consts)
  have e: "p + 52 + 8 * length (sr_events r) \<le> e"
    using assms(5) k by (simp add: scan_consts)
  have d: "ptr_diff e p = e - p" "ptr_diff e (p + 20) = e - (p + 20)"
    using e assms(4) by (simp_all add: ptr_diff_le)
  have g: "ea_get_u16 buf p = Some 32"
      "ea_get_u16 buf (p + 2) = Some (of_nat (length (sr_events r)))"
    using enc_rec_gets(1,2)[OF assms(1)] k by simp_all
  have u: "unat (of_nat (length (sr_events r)) :: 16 word) = length (sr_events r)"
    using c by (simp add: unat_of_nat)
  have "\<not> e - p < 20" "\<not> e - (p + 20) < 32 + length (sr_events r) * 8"
    using e by linarith+
  then show ?thesis
    using c k by (simp add: scan_consts d g u Let_def add.assoc mult.commute)
qed

lemma dec_rec_wf:
  assumes "52 + 8 * c \<le> length bs" "c \<le> thr" "c < 2 ^ 16"
  shows "wf_rec thr (dec_rec c bs)"
  using assms by (simp add: wf_rec_def dec_rec_def scan_consts)

lemma enc_rec_prefix_unique:
  assumes "wf_rec thr r" "wf_rec thr r'" "enc_rec r @ post = enc_rec r' @ post'"
  shows "post = post'"
proof -
  have "(of_nat (length (sr_events r)) :: 16 word) = of_nat (length (sr_events r'))"
    using enc_rec_gets(2)[of 0 "enc_rec r @ post" r post]
      enc_rec_gets(2)[of 0 "enc_rec r @ post" r' post'] assms(3) by simp
  then have "length (sr_events r) = length (sr_events r')"
    using assms(1,2) by (auto simp: wf_rec_def dest: arg_cong[of _ _ unat] simp: unat_of_nat)
  then have "length (enc_rec r) = length (enc_rec r')"
    using assms(1,2) by (simp add: wf_rec_def)
  with assms(3) show ?thesis by simp
qed

lemma unat_lt_16: "unat (x :: 16 word) < 2 ^ 16"
  using unsigned_less [of x] by simp

lemma validate_step_bad:
  assumes "e \<le> length buf" "e < 2 ^ 64" "p \<le> e"
    and bad: "\<not> (\<exists>r post. take (e - p) (drop p buf) = enc_rec r @ post \<and> wf_rec thr r)"
  shows "validate_loop buf e thr (Suc n) p = Some NGX_ERROR"
proof (cases "e - p < 20")
  case True
  then show ?thesis using assms by (simp add: ptr_diff_le scan_consts)
next
  case False
  define kl where "kl = (le_word (take 2 (drop p buf)) :: 16 word)"
  define c where "c = unat (le_word (take 2 (drop (p + 2) buf)) :: 16 word)"
  have gets: "ea_get_u16 buf p = Some kl" "ea_get_u16 buf (p + 2) = Some (le_word (take 2 (drop (p + 2) buf)))"
    using False assms by (simp_all add: get_u16_eq kl_def)
  have "False" if "unat kl = 32" "c \<le> thr" "\<not> e - (p + 20) < 32 + c * 8"
  proof -
    have that: "unat kl = 32" "c \<le> thr" "52 + 8 * c \<le> e - p" using that False by linarith+
    define bs where "bs = take (e - p) (drop p buf)"
    have lbs: "52 + 8 * c \<le> length bs" using that assms by (simp add: bs_def)
    have "take 2 bs = take 2 (drop p buf)" "take 2 (drop 2 bs) = take 2 (drop (p + 2) buf)"
      using that by (simp_all add: bs_def drop_take min_def add.commute)
    then have "le_word (take 2 bs) = (32 :: 16 word)" "unat (le_word (take 2 (drop 2 bs)) :: 16 word) = c"
      using that(1) by (simp_all add: kl_def c_def word_unat_eq_iff)
    from enc_dec_rec[OF lbs this] have "bs = enc_rec (dec_rec c bs) @ drop (52 + 8 * c) bs" by simp
    moreover have "c < 2 ^ 16" unfolding c_def by (rule unat_lt_16)
    ultimately show False using bad dec_rec_wf[OF lbs that(2)] unfolding bs_def by blast
  qed
  then show ?thesis
    using False gets assms
    by (auto simp: scan_consts ptr_diff_le c_def [symmetric] Let_def)
qed

lemma validate_loop_iff:
  assumes "e \<le> length buf" "e < 2 ^ 64" "p \<le> e"
  shows "validate_loop buf e thr n p =
     Some (if \<exists>rs. length rs = n \<and> (\<forall>r \<in> set rs. wf_rec thr r)
                 \<and> take (e - p) (drop p buf) = enc_recs rs
           then NGX_OK else NGX_ERROR)"
  using assms(3)
proof (induction n arbitrary: p)
  case 0
  then show ?case using assms by auto
next
  case (Suc n)
  define bs where "bs = take (e - p) (drop p buf)"
  have lbs: "length bs = e - p" using assms Suc.prems by (simp add: bs_def)
  have dropp: "drop p buf = bs @ drop e buf"
    using Suc.prems by (simp add: bs_def append_take_drop_id[symmetric] drop_drop add.commute)
       (metis append_take_drop_id drop_drop le_add_diff_inverse2)
  show ?case
  proof (cases "\<exists>r post. bs = enc_rec r @ post \<and> wf_rec thr r")
    case True
    then obtain r post where r: "bs = enc_rec r @ post" "wf_rec thr r" by blast
    have le: "p + length (enc_rec r) \<le> e" using arg_cong[OF r(1), of length] lbs Suc.prems by auto
    have post: "take (e - (p + length (enc_rec r))) (drop (p + length (enc_rec r)) buf) = post"
    proof -
      have "drop (p + length (enc_rec r)) buf = post @ drop e buf"
        unfolding drop_plus[of p] dropp r(1) by simp
      moreover have "length post = e - (p + length (enc_rec r))"
        using arg_cong[OF r(1), of length] lbs by simp
      ultimately show ?thesis by simp
    qed
    have "validate_loop buf e thr (Suc n) p = validate_loop buf e thr n (p + length (enc_rec r))"
      using validate_step_wf[of p buf r "post @ drop e buf"] dropp r le assms by simp
    also note Suc.IH[OF le, unfolded post]
    also have "(\<exists>rs. length rs = n \<and> (\<forall>r \<in> set rs. wf_rec thr r) \<and> post = enc_recs rs)
       = (\<exists>rs. length rs = Suc n \<and> (\<forall>r \<in> set rs. wf_rec thr r) \<and> bs = enc_recs rs)"
    proof
      assume "\<exists>rs. length rs = n \<and> (\<forall>r \<in> set rs. wf_rec thr r) \<and> post = enc_recs rs"
      then obtain rs where "length rs = n" "\<forall>r \<in> set rs. wf_rec thr r" "post = enc_recs rs" by blast
      then show "\<exists>rs. length rs = Suc n \<and> (\<forall>r \<in> set rs. wf_rec thr r) \<and> bs = enc_recs rs"
        using r by (intro exI[of _ "r # rs"]) simp
    next
      assume "\<exists>rs. length rs = Suc n \<and> (\<forall>r \<in> set rs. wf_rec thr r) \<and> bs = enc_recs rs"
      then obtain r' rs where rs: "length rs = n" "\<forall>r \<in> set rs. wf_rec thr r" "wf_rec thr r'"
        "bs = enc_rec r' @ enc_recs rs"
        by (auto simp: length_Suc_conv)
      from enc_rec_prefix_unique[OF r(2) rs(3), of post "enc_recs rs"] r(1) rs(4)
      have "post = enc_recs rs" by simp
      with rs show "\<exists>rs. length rs = n \<and> (\<forall>r \<in> set rs. wf_rec thr r) \<and> post = enc_recs rs" by blast
    qed
    finally show ?thesis unfolding bs_def .
  next
    case False
    have none: "\<not> (\<exists>rs. length rs = Suc n \<and> (\<forall>r \<in> set rs. wf_rec thr r) \<and> bs = enc_recs rs)"
    proof (safe)
      fix rs assume rs: "length rs = Suc n" "\<forall>r \<in> set rs. wf_rec thr r" "bs = enc_recs rs"
      then obtain r rs' where "rs = r # rs'" by (cases rs) auto
      with rs have "bs = enc_rec r @ enc_recs rs'" "wf_rec thr r" by simp_all
      with False show False by blast
    qed
    have "validate_loop buf e thr (Suc n) p = Some NGX_ERROR"
      by (rule validate_step_bad[OF assms(1,2) Suc.prems]) (use False in \<open>simp add: bs_def\<close>)
    with none show ?thesis unfolding bs_def by simp
  qed
qed

section \<open>Redis keys\<close>

definition hex_digits :: bytes where
  "hex_digits = ascii ''0123456789abcdef''"

definition ea_redis_key_len :: "nat \<Rightarrow> nat \<Rightarrow> nat \<Rightarrow> nat" where
  "ea_redis_key_len prefix_len zone_name_len digest_len =
     prefix_len + 1 + zone_name_len + 1 + digest_len * 2 + 1"

text \<open>\<^verbatim>\<open>*p++ = b\<close>\<close>

definition put_byte :: "bytes \<Rightarrow> nat \<Rightarrow> byte \<Rightarrow> (bytes \<times> nat) option" where
  "put_byte buf p b = do { buf \<leftarrow> wr buf p b; Some (buf, p + 1) }"

fun put_hex :: "bytes \<Rightarrow> nat \<Rightarrow> bytes \<Rightarrow> (bytes \<times> nat) option" where
  "put_hex buf p [] = Some (buf, p)"
| "put_hex buf p (d # ds) = do {
     h \<leftarrow> rd hex_digits (unat (drop_bit 4 d));
     (buf, p) \<leftarrow> put_byte buf p h;
     l \<leftarrow> rd hex_digits (unat (d AND 0x0f));
     (buf, p) \<leftarrow> put_byte buf p l;
     put_hex buf p ds
   }"

definition ea_redis_key_write :: "bytes \<Rightarrow> nat \<Rightarrow> bytes \<Rightarrow> bytes \<Rightarrow> bytes \<Rightarrow> (bytes \<times> nat) option" where
  "ea_redis_key_write buf p prefix zone_name digest = do {
     (buf, p) \<leftarrow> cpymem buf p prefix;
     (buf, p) \<leftarrow> put_byte buf p 123;
     (buf, p) \<leftarrow> cpymem buf p zone_name;
     (buf, p) \<leftarrow> put_byte buf p 58;
     (buf, p) \<leftarrow> put_hex buf p digest;
     put_byte buf p 125
   }"

definition ea_serialize_rec_len :: "nat \<Rightarrow> nat \<Rightarrow> nat" where
  "ea_serialize_rec_len key_len event_count = FILE_REC_LEN + key_len + event_count * 8"

subsection \<open>Reference: the key as a byte string\<close>

definition hex_of :: "bytes \<Rightarrow> bytes" where
  "hex_of ds = concat (map (\<lambda>d. [hex_digits ! unat (drop_bit 4 d), hex_digits ! unat (d AND 0x0f)]) ds)"

definition redis_key :: "bytes \<Rightarrow> bytes \<Rightarrow> bytes \<Rightarrow> bytes" where
  "redis_key prefix zone_name digest = prefix @ [123] @ zone_name @ [58] @ hex_of digest @ [125]"

lemma length_hex_of [simp]: "length (hex_of ds) = 2 * length ds"
  by (induction ds) (auto simp: hex_of_def)

lemma length_redis_key [simp]:
  "length (redis_key pre zn ds) = ea_redis_key_len (length pre) (length zn) (length ds)"
  by (simp add: redis_key_def ea_redis_key_len_def)

lemma put_byte_eq:
  "p < length buf \<Longrightarrow> put_byte buf p b = Some (overwrite buf p [b], p + 1)"
  by (simp add: put_byte_def wr_overwrite)

lemma low_nibble: "d AND 0x0f = take_bit 4 (d :: byte)"
  by (simp add: take_bit_eq_mask mask_numeral)

lemma nibble_bounds: "unat (drop_bit 4 (d :: byte)) < 16" "unat (d AND 0x0f) < 16"
proof -
  have "unat d < 2 ^ LENGTH(8)" by (rule unsigned_less)
  then show "unat (drop_bit 4 d) < 16"
    by (simp add: drop_bit_eq_div unat_div_distrib)
  show "unat (d AND 0x0f) < 16" unfolding low_nibble
    using take_bit_nat_less_exp[of 4 "unat d"] by (simp add: unsigned_take_bit_eq)
qed

lemma hex_digits_eq: "hex_digits = [48, 49, 50, 51, 52, 53, 54, 55, 56, 57, 97, 98, 99, 100, 101, 102]"
  by (simp add: hex_digits_def ascii_def)

lemma length_hex_digits [simp]: "length hex_digits = 16"
  by (simp add: hex_digits_eq)

lemma hex_of_Cons:
  "hex_of (d # ds) =
     [hex_digits ! unat (drop_bit 4 d), hex_digits ! unat (d AND 0x0f)] @ hex_of ds"
  by (simp add: hex_of_def)

lemma put_hex_eq:
  "p + 2 * length ds \<le> length buf \<Longrightarrow>
   put_hex buf p ds = Some (overwrite buf p (hex_of ds), p + 2 * length ds)"
proof (induction ds arbitrary: buf p)
  case Nil
  then show ?case by (simp add: hex_of_def)
next
  case (Cons d ds)
  have "p + 2 + 2 * length ds \<le> length buf" using Cons.prems by simp
  then show ?case
    using nibble_bounds[of d]
    by (simp add: rd_def put_byte_eq overwrite_overwrite Cons.IH hex_of_Cons)
qed

lemma redis_key_write_eq:
  assumes "p + ea_redis_key_len (length pre) (length zn) (length ds) \<le> length buf"
  shows "ea_redis_key_write buf p pre zn ds =
     Some (overwrite buf p (redis_key pre zn ds), p + ea_redis_key_len (length pre) (length zn) (length ds))"
  using assms
  by (simp add: ea_redis_key_write_def cpymem_def put_byte_eq put_hex_eq overwrite_overwrite
      redis_key_def ea_redis_key_len_def)

text \<open>Distinct digests have distinct hexadecimal forms.\<close>

lemma byte_of_nibbles: "d = d' \<longleftrightarrow> drop_bit 4 d = drop_bit 4 d' \<and> d AND 0x0f = d' AND 0x0f"
  for d d' :: byte
proof -
  have "x = push_bit 4 (drop_bit 4 x) + (x AND 0x0f)" for x :: byte
    unfolding low_nibble by (rule bits_ident [symmetric])
  then show ?thesis by metis
qed

lemma hex_digits_inj: "i < 16 \<Longrightarrow> j < 16 \<Longrightarrow> hex_digits ! i = hex_digits ! j \<longleftrightarrow> i = j"
proof -
  have "distinct hex_digits" by (simp add: hex_digits_eq)
  then show "i < 16 \<Longrightarrow> j < 16 \<Longrightarrow> hex_digits ! i = hex_digits ! j \<longleftrightarrow> i = j"
    by (simp add: nth_eq_iff_index_eq)
qed

lemma hex_of_inj: "hex_of ds = hex_of ds' \<longleftrightarrow> ds = ds'"
proof (induction ds arbitrary: ds')
  case Nil
  then show ?case by (cases ds') (auto simp: hex_of_def)
next
  case (Cons d ds)
  then show ?case
    using nibble_bounds
    by (cases ds') (auto simp: hex_of_def hex_digits_inj byte_of_nibbles [of d] dest!: unsigned_word_eqI)
qed

text \<open>A separator that does not occur on either side of it splits a string in one way only.\<close>

lemma append_sep_unique:
  assumes "c \<notin> set xs" "c \<notin> set xs'" "xs @ c # ys = xs' @ c # ys'"
  shows "xs = xs' \<and> ys = ys'"
  using assms by (induction xs arbitrary: xs') (auto simp: Cons_eq_append_conv append_eq_Cons_conv)

lemma redis_key_inj:
  assumes "redis_key pre zn ds = redis_key pre' zn' ds'"
    and "123 \<notin> set pre" "123 \<notin> set pre'" "length ds = length ds'"
  shows "pre = pre' \<and> zn = zn' \<and> ds = ds'"
proof -
  from append_sep_unique[OF assms(2,3)] assms(1)
  have "pre = pre'" and r: "zn @ [58] @ hex_of ds @ [125] = zn' @ [58] @ hex_of ds' @ [125]"
    unfolding redis_key_def by (simp_all only: append_Cons append_Nil)
  moreover have "length zn = length zn'"
    using arg_cong[OF r, of length] assms(4) by simp
  ultimately show ?thesis by (auto simp: hex_of_inj)
qed

end
