(* ===== verification/EA_Time.thy ===== *)
theory EA_Time
  imports EA_Prelude
begin

text \<open>
  Deadline arithmetic (\<^verbatim>\<open>ngx_http_error_abuse_time.h\<close>).  A \<^verbatim>\<open>time_t\<close> is an integer; an
  addition or subtraction whose result leaves the signed 64-bit range is undefined behaviour.
\<close>

section \<open>Checked arithmetic on \<^verbatim>\<open>time_t\<close>\<close>

definition time_rep :: "int \<Rightarrow> bool" where
  "time_rep t \<longleftrightarrow> - (2 ^ 63) \<le> t \<and> t < 2 ^ 63"

definition t_add :: "time \<Rightarrow> time \<Rightarrow> time option" where
  "t_add a b = (if time_rep (a + b) then Some (a + b) else None)"

definition t_sub :: "time \<Rightarrow> time \<Rightarrow> time option" where
  "t_sub a b = (if time_rep (a - b) then Some (a - b) else None)"

section \<open>The header's functions\<close>

text \<open>\<open>ea_time_max\<close> for a \<^verbatim>\<open>time_t\<close> that is unsigned (then all bits set) or signed, of
  \<open>sz\<close> bytes.\<close>

definition ea_time_max :: "bool \<Rightarrow> nat \<Rightarrow> int" where
  "ea_time_max unsgn sz =
     (if unsgn then 2 ^ (8 * sz) - 1
      else if sz \<ge> 8 then 2 ^ 63 - 1
      else if sz \<ge> 4 then 2 ^ 31 - 1
      else if sz \<ge> 2 then 2 ^ 15 - 1
      else 2 ^ 7 - 1)"

definition ea_time_add_saturate_at :: "time \<Rightarrow> time \<Rightarrow> time \<Rightarrow> time option" where
  "ea_time_add_saturate_at now duration ceiling =
     (if now \<ge> ceiling then Some ceiling
      else if duration \<le> 0 then Some now
      else do {
        room \<leftarrow> t_sub ceiling now;
        if duration > room then Some ceiling else t_add now duration
      })"

text \<open>The module is built for a signed 64-bit \<^verbatim>\<open>time_t\<close>.\<close>

abbreviation TIME_MAX :: int where
  "TIME_MAX \<equiv> ea_time_max False 8"

definition ea_time_add_saturate :: "time \<Rightarrow> time \<Rightarrow> time option" where
  "ea_time_add_saturate now duration = ea_time_add_saturate_at now duration TIME_MAX"

section \<open>Facts\<close>

lemma TIME_MAX_eq: "TIME_MAX = 2 ^ 63 - 1"
  by (simp add: ea_time_max_def)

text \<open>The mathematical meaning of the saturating sum.\<close>

definition sat_add :: "time \<Rightarrow> time \<Rightarrow> time" where
  "sat_add now d = min TIME_MAX (now + max 0 d)"

lemma t_sub_ok: "0 \<le> a \<Longrightarrow> a < 2 ^ 63 \<Longrightarrow> 0 \<le> b \<Longrightarrow> b < 2 ^ 63 \<Longrightarrow> t_sub a b = Some (a - b)"
  by (simp add: t_sub_def time_rep_def)

lemma time_add_saturate_at_eq:
  assumes "0 \<le> now" "now < 2 ^ 63" "c < 2 ^ 63"
  shows "ea_time_add_saturate_at now d c = Some (min c (now + max 0 d))"
  using assms by (auto simp: ea_time_add_saturate_at_def t_sub_def t_add_def time_rep_def)

lemma time_add_saturate_eq [simp]:
  "0 \<le> now \<Longrightarrow> now < 2 ^ 63 \<Longrightarrow> ea_time_add_saturate now d = Some (sat_add now d)"
  by (simp add: ea_time_add_saturate_def time_add_saturate_at_eq TIME_MAX_eq sat_add_def)

lemma sat_add_range: "0 \<le> now \<Longrightarrow> 0 \<le> sat_add now d \<and> sat_add now d < 2 ^ 63"
  by (auto simp: sat_add_def TIME_MAX_eq)

lemma sat_add_gt:
  "0 < d \<Longrightarrow> now < TIME_MAX \<Longrightarrow> now < sat_add now d"
  by (auto simp: sat_add_def)

lemma sat_add_ge: "now \<le> TIME_MAX \<Longrightarrow> now \<le> sat_add now d"
  by (auto simp: sat_add_def)

end
