(* ===== verification/EA_Formats.thy ===== *)
theory EA_Formats
  imports EA_Scan EA_Time
begin

text \<open>
  The properties of the pure routines: deadline arithmetic, the field codecs, the status list, the
  snapshot validator and the Redis key.  The lemmas are in the theories that define the routines.
\<close>

section \<open>Time\<close>

text \<open>A deadline never overflows and never moves into the past.  For a clock value in range,
  adding a duration is defined for every duration, gives the exact sum cut at the largest
  \<^verbatim>\<open>time_t\<close>, and is not before the clock value.\<close>

theorem saturating_deadline:
  assumes "0 \<le> now" "now < 2 ^ 63"
  shows "\<exists>t. ea_time_add_saturate now d = Some t \<and> t = min (2 ^ 63 - 1) (now + max 0 d) \<and> now \<le> t"
  using assms by (simp add: sat_add_def TIME_MAX_eq)

theorem saturating_deadline_witness:
  "ea_time_add_saturate (2 ^ 63 - 5) 3600 = Some (2 ^ 63 - 1) \<and> ea_time_add_saturate 1000 3600 = Some 4600"
  using saturating_deadline[of "2 ^ 63 - 5" 3600] saturating_deadline[of 1000 3600] by simp

section \<open>Field codecs\<close>

text \<open>The field codecs round-trip and stay in their field.  A field that is written at \<open>p\<close>, in a
  buffer that has room for it, reads back as the value written; the write moves the pointer by the
  field's width and changes no other byte; without room the write is not defined.\<close>

theorem codecs_roundtrip:
  "(ea_put_u16 buf p v16 = Some (buf', q) \<longrightarrow> ea_get_u16 buf' p = Some v16 \<and> q = p + 2
      \<and> (\<forall>i. i < p \<or> q \<le> i \<longrightarrow> rd buf' i = rd buf i))
   \<and> (ea_put_u32 buf p v32 = Some (buf', q) \<longrightarrow> ea_get_u32 buf' p = Some v32 \<and> q = p + 4
      \<and> (\<forall>i. i < p \<or> q \<le> i \<longrightarrow> rd buf' i = rd buf i))
   \<and> (ea_put_u64 buf p v64 = Some (buf', q) \<longrightarrow> ea_get_u64 buf' p = Some v64 \<and> q = p + 8
      \<and> (\<forall>i. i < p \<or> q \<le> i \<longrightarrow> rd buf' i = rd buf i))
   \<and> (ea_put_u64 buf p v64 = None \<longleftrightarrow> length buf < p + 8)"
proof (intro conjI)
  show "ea_put_u16 buf p v16 = Some (buf', q) \<longrightarrow> ea_get_u16 buf' p = Some v16 \<and> q = p + 2
      \<and> (\<forall>i. i < p \<or> q \<le> i \<longrightarrow> rd buf' i = rd buf i)" using u16.put_get u16.put_frame by metis
  show "ea_put_u32 buf p v32 = Some (buf', q) \<longrightarrow> ea_get_u32 buf' p = Some v32 \<and> q = p + 4
      \<and> (\<forall>i. i < p \<or> q \<le> i \<longrightarrow> rd buf' i = rd buf i)" using u32.put_get u32.put_frame by metis
  show "ea_put_u64 buf p v64 = Some (buf', q) \<longrightarrow> ea_get_u64 buf' p = Some v64 \<and> q = p + 8
      \<and> (\<forall>i. i < p \<or> q \<le> i \<longrightarrow> rd buf' i = rd buf i)" using u64.put_get u64.put_frame by metis
  show "ea_put_u64 buf p v64 = None \<longleftrightarrow> length buf < p + 8" by (auto simp: u64.put_eq)
qed

theorem codecs_roundtrip_witness:
  "ea_put_u16 [0, 0, 0] 1 0x0102 = Some ([0, 2, 1], 3) \<and> ea_get_u16 [0, 2, 1] 1 = Some 0x0102"
proof -
  have p: "ea_put_u16 [0, 0, 0] 1 0x0102 = Some ([0, 2, 1], 3)"
    by (simp add: ea_put_u16_def wr_def drop_bit_eq_div numeral_eq_Suc [of num.One])
  then show ?thesis using codecs_roundtrip[of "[0, 0, 0]" 1 "0x0102" "[0, 2, 1]" 3 0 0] by simp
qed

section \<open>The status list\<close>

lemma spec_ranges_valid:
  "(lo, hi) \<in> set (snd (spec_statuses E xs)) \<Longrightarrow> 100 \<le> lo \<and> lo \<le> hi \<and> hi \<le> int MAX_STATUS"
  by (induction xs) (auto simp: Let_def split: prod.splits if_splits)

text \<open>C36. The status list is parsed exactly.  On a non-empty list and an empty bitmap the parser is
  defined (no access outside the list or the bitmap), its verdict is that of the reference, which
  splits the list at commas and judges the elements in order, and afterwards the bitmap matches a
  status if and only if it lies in one of the ranges that were accepted.\<close>

theorem parse_statuses_exact:
  assumes "strlchr_doc E" "data \<noteq> []"
  shows "\<exists>rc bm. ea_parse_statuses E data (replicate STATUS_BYTES 0) = Some (rc, bm)
     \<and> rc = fst (spec_statuses E (split_on 44 data))
     \<and> (\<forall>s. ea_status_matches bm s = Some (in_ranges (snd (spec_statuses E (split_on 44 data))) s))"
proof -
  obtain bm where bm: "ea_parse_statuses E data (replicate STATUS_BYTES 0) =
      Some (fst (spec_statuses E (split_on 44 data)), bm)" "length bm = STATUS_BYTES"
    "\<forall>s. marked bm s \<longleftrightarrow> marked (replicate STATUS_BYTES 0) s
       \<or> in_ranges (snd (spec_statuses E (split_on 44 data))) s"
    using parse_statuses_loop_spec[OF assms(1), of "replicate STATUS_BYTES 0" 0 data] assms(2)
    by (auto simp: ea_parse_statuses_def)
  have "in_ranges (snd (spec_statuses E (split_on 44 data))) s \<Longrightarrow> s \<le> MAX_STATUS" for s
    using spec_ranges_valid[of _ _ E "split_on 44 data"] by (fastforce simp: in_ranges_def)
  then have "ea_status_matches bm s = Some (in_ranges (snd (spec_statuses E (split_on 44 data))) s)" for s
    using status_matches_eq[OF bm(2), of s] bm(3) by (auto simp: marked_def)
  with bm(1) show ?thesis by blast
qed

lemma ex_list: "spec_statuses ref_ngx (split_on 44 (ascii ''404,500-599'')) = (STATUSES_OK, [(404, 404), (500, 599)])"
  by (simp add: ascii_def split_on.simps element_range_def ref_atoi_def is_digit_def dec_value_def
      MAX_STATUS_def Let_def)

theorem parse_statuses_exact_witness:
  "\<exists>bm. ea_parse_statuses ref_ngx (ascii ''404,500-599'') (replicate STATUS_BYTES 0) = Some (STATUSES_OK, bm)
     \<and> ea_status_matches bm 404 = Some True \<and> ea_status_matches bm 503 = Some True
     \<and> ea_status_matches bm 403 = Some False"
proof -
  have "ascii ''404,500-599'' \<noteq> []" by (simp add: ascii_def)
  from parse_statuses_exact[OF ref_strlchr_doc this, unfolded ex_list] show ?thesis by auto
qed

section \<open>The snapshot validator\<close>

text \<open>C35. The validator accepts exactly the well-formed record streams.  On a payload \<open>[p, e)\<close> of a
  buffer it is defined and reads nothing outside it, and it answers \<^verbatim>\<open>NGX_OK\<close> if and only if
  the payload is the concatenation of as many encoded records as announced, each with a key of 32
  bytes and at most the threshold of events.\<close>

theorem validate_snapshot_exact:
  assumes "p \<le> e" "e \<le> length buf" "length buf < 2 ^ 64"
  shows "ea_validate_snapshot buf p e records threshold =
     Some (if \<exists>rs. length rs = unat records \<and> (\<forall>r \<in> set rs. wf_rec threshold r)
                 \<and> take (e - p) (drop p buf) = enc_recs rs
           then NGX_OK else NGX_ERROR)"
  unfolding ea_validate_snapshot_def
  by (rule validate_loop_iff[OF assms(2) le_less_trans[OF assms(2,3)] assms(1)])

theorem validate_snapshot_exact_witness:
  "ea_validate_snapshot (replicate 20 0) 0 20 1 5 = Some NGX_ERROR
   \<and> ea_validate_snapshot (replicate 20 0) 20 20 0 5 = Some NGX_OK"
proof -
  have no: "\<not> (\<exists>rs. length rs = unat (1 :: 32 word) \<and> (\<forall>r \<in> set rs. wf_rec 5 r)
      \<and> take (20 - 0) (drop 0 (replicate 20 0)) = enc_recs rs)"
  proof
    assume "\<exists>rs. length rs = unat (1 :: 32 word) \<and> (\<forall>r \<in> set rs. wf_rec 5 r)
      \<and> take (20 - 0) (drop 0 (replicate 20 0)) = enc_recs rs"
    then obtain r where "wf_rec 5 r" "replicate 20 0 = enc_rec r" by (auto simp: length_Suc_conv)
    then have "length (enc_rec r) = 20" by (metis length_replicate)
    moreover have "52 \<le> length (enc_rec r)" using \<open>wf_rec 5 r\<close> by (simp add: wf_rec_def scan_consts)
    ultimately show False by simp
  qed
  show ?thesis
    using validate_snapshot_exact[of 0 20 "replicate 20 0" 1 5, unfolded if_not_P[OF no]]
      validate_snapshot_exact[of 20 20 "replicate 20 0" 0 5] by simp
qed

section \<open>Redis keys\<close>

text \<open>The Redis key is written exactly into the length announced for it: the writer is defined
  in a buffer with \<^verbatim>\<open>redis_key_len\<close> bytes left, ends at the end of that field, and writes the
  prefix and the zone and the hexadecimal digest in braces.\<close>

theorem redis_key_exact:
  assumes "p + ea_redis_key_len (length prefix) (length zone_name) (length digest) \<le> length buf"
  shows "ea_redis_key_write buf p prefix zone_name digest =
     Some (overwrite buf p (prefix @ [123] @ zone_name @ [58] @ hex_of digest @ [125]),
           p + ea_redis_key_len (length prefix) (length zone_name) (length digest))"
  using redis_key_write_eq[OF assms] by (simp add: redis_key_def)

theorem redis_key_exact_witness:
  "ea_redis_key_write (replicate 7 0) 0 [80] [90] [0xa5] = Some ([80, 123, 90, 58, 97, 53, 125], 7)"
proof -
  have h: "overwrite (replicate 7 0) 0 ([80] @ [123] @ [90] @ [58] @ hex_of [0xa5] @ [125])
      = [80, 123, 90, 58, 97, 53, 125]" by code_simp
  show ?thesis
    using redis_key_exact[of 0 "[80]" "[90]" "[0xa5]" "replicate 7 0", unfolded h] by (simp add: ea_redis_key_len_def)
qed

text \<open>C37. Two clients never share a Redis key.  For prefixes without an opening brace and digests of
  one length, the keys that are written (each into a buffer of its announced length) are equal if
  and only if the prefix, the zone and the digest are.\<close>

theorem redis_key_injective:
  assumes "123 \<notin> set prefix" "123 \<notin> set prefix'" "length ds = length ds'"
  shows "map_option fst (ea_redis_key_write (replicate (ea_redis_key_len (length prefix) (length zn) (length ds)) 0) 0 prefix zn ds)
       = map_option fst (ea_redis_key_write (replicate (ea_redis_key_len (length prefix') (length zn') (length ds')) 0) 0 prefix' zn' ds')
     \<longleftrightarrow> prefix = prefix' \<and> zn = zn' \<and> ds = ds'"
proof -
  have w: "ea_redis_key_write (replicate (ea_redis_key_len (length pre) (length z) (length d)) 0) 0 pre z d =
      Some (redis_key pre z d, ea_redis_key_len (length pre) (length z) (length d))" for pre z d
    using redis_key_write_eq[of 0 pre z d "replicate (ea_redis_key_len (length pre) (length z) (length d)) 0"]
    by (simp add: overwrite_def)
  show ?thesis unfolding w using redis_key_inj[of prefix zn ds prefix' zn' ds'] assms by auto
qed

theorem redis_key_injective_witness:
  "map_option fst (ea_redis_key_write (replicate 7 0) 0 [80] [90] [0xa5])
   \<noteq> map_option fst (ea_redis_key_write (replicate 7 0) 0 [80] [90] [0xa6])"
  using redis_key_injective[of "[80]" "[80]" "[0xa5]" "[0xa6]" "[90]" "[90]"]
  by (simp add: ea_redis_key_len_def)

end
