(* ===== verification/EA_Store.thy ===== *)
theory EA_Store
  imports EA_Time EA_Scan
begin

text \<open>
  The node store of a zone: the shared-memory context (\<^verbatim>\<open>ngx_http_error_abuse_shctx_t\<close>), its
  nodes, and the operations that find, age, evict and create them
  (\<^verbatim>\<open>ngx_http_error_abuse_lookup\<close> to \<^verbatim>\<open>..._create_node\<close>).  Every operation runs under
  the zone mutex, so it is one function from the store to the store.

  The allocated nodes are a heap \<open>addr \<rightharpoonup> node\<close>; a use of an address outside it is undefined
  behaviour.  The LRU queue is the list of its addresses from the head (most recent) to the tail.
  A store is abstracted to the list of its clients in LRU order (\<open>zabs\<close>), and each operation is
  shown to refine an operation on that list.
\<close>

section \<open>State\<close>

record node =
  n_hash :: "32 word"
  n_blocked_until :: time
  n_last_seen :: time
  n_event_head :: nat
  n_event_count :: nat
  n_key_len :: "16 word"
  n_data :: bytes
  n_events :: "time list"

type_synonym heap = "addr \<rightharpoonup> node"

record 's shctx =
  sh_rbtree :: rbt
  sh_queue :: "addr list"
  sh_heap :: heap
  sh_slab :: 's
  sh_fault_nth :: int
  sh_fault_seen :: nat

record zone =
  z_name :: bytes
  z_key :: bytes
  z_statuses :: bytes
  z_interval :: time
  z_block :: time
  z_inactive :: time
  z_threshold :: nat
  z_persist :: bytes
  z_persist_secret :: bytes
  z_persist_interval :: nat
  z_redis :: bool
  z_on_full_reject :: bool
  z_shm_size :: nat

definition MAX_THRESHOLD :: nat where "MAX_THRESHOLD = 1024"
definition MAX_SECONDS :: int where "MAX_SECONDS = 315360000"
definition EVICT_SCAN_LIMIT :: nat where "EVICT_SCAN_LIMIT = 64"

section \<open>The layout of a node\<close>

text \<open>\<^verbatim>\<open>offsetof(ngx_http_error_abuse_node_t, data)\<close> on a 64-bit build: a tree node of 40 bytes,
  a queue link of 16, four 8-byte fields and a 2-byte length.\<close>

definition OFFSETOF_DATA :: nat where "OFFSETOF_DATA = 40 + 16 + 8 + 8 + 8 + 8 + 2"

definition ea_node_size :: "nat \<Rightarrow> nat \<Rightarrow> nat" where
  "ea_node_size key_len threshold = OFFSETOF_DATA + key_len + 8 - 1 + threshold * 8"

text \<open>The address of the event ring of a node at \<open>a\<close>.\<close>

definition ea_events :: "'s ngx \<Rightarrow> addr \<Rightarrow> nat \<Rightarrow> addr" where
  "ea_events E a key_len = ngx_align_ptr E (a + OFFSETOF_DATA + key_len) 8"

lemma events_in_node:
  assumes "align_doc E"
  shows "a + OFFSETOF_DATA + kl \<le> ea_events E a kl"
    "ea_events E a kl + threshold * 8 \<le> a + ea_node_size kl threshold"
    "8 dvd ea_events E a kl"
  using assms[unfolded align_doc_def, rule_format, of "a + OFFSETOF_DATA + kl" 3]
  by (simp_all add: ea_events_def ea_node_size_def)

section \<open>Lookup\<close>

fun lookup_loop :: "'s ngx \<Rightarrow> heap \<Rightarrow> 32 word \<Rightarrow> bytes \<Rightarrow> rbt \<Rightarrow> addr option option" where
  "lookup_loop E h hash key Leaf = Some None"
| "lookup_loop E h hash key (Node l x r) = do {
     n \<leftarrow> h (fst x);
     if hash < n_hash n then lookup_loop E h hash key l
     else if hash > n_hash n then lookup_loop E h hash key r
     else do {
       d \<leftarrow> slice (n_data n) 0 (unat (n_key_len n));
       let rc = ngx_memn2cmp E key d;
       if rc = 0 then Some (Some (fst x))
       else if rc < 0 then lookup_loop E h hash key l
       else lookup_loop E h hash key r
     }
   }"

definition ea_lookup :: "'s ngx \<Rightarrow> 's shctx \<Rightarrow> 32 word \<Rightarrow> bytes \<Rightarrow> addr option option" where
  "ea_lookup E sh hash key = lookup_loop E (sh_heap sh) hash key (sh_rbtree sh)"

text \<open>The tree's insert callback: descend to a free child and link the node there, red.\<close>

definition insert_left :: "'s ngx \<Rightarrow> node \<Rightarrow> node \<Rightarrow> bool option" where
  "insert_left E n nt =
     (if n_hash n < n_hash nt then Some True
      else if n_hash n > n_hash nt then Some False
      else do {
        d \<leftarrow> slice (n_data n) 0 (unat (n_key_len n));
        dt \<leftarrow> slice (n_data nt) 0 (unat (n_key_len nt));
        Some (ngx_memn2cmp E d dt < 0)
      })"

fun ea_rbtree_insert :: "'s ngx \<Rightarrow> heap \<Rightarrow> addr \<Rightarrow> rbt \<Rightarrow> rbt option" where
  "ea_rbtree_insert E h a Leaf = None"
| "ea_rbtree_insert E h a (Node l x r) = do {
     n \<leftarrow> h a;
     nt \<leftarrow> h (fst x);
     lft \<leftarrow> insert_left E n nt;
     if lft then
       (if l = Leaf then Some (Node (Node Leaf (a, True) Leaf) x r)
        else do { l' \<leftarrow> ea_rbtree_insert E h a l; Some (Node l' x r) })
     else
       (if r = Leaf then Some (Node l x (Node Leaf (a, True) Leaf))
        else do { r' \<leftarrow> ea_rbtree_insert E h a r; Some (Node l x r') })
   }"

section \<open>Recency and removal\<close>

text \<open>\<^verbatim>\<open>ngx_queue_remove\<close> of a link that is in the queue; of any other it is undefined.\<close>

definition queue_remove :: "addr list \<Rightarrow> addr \<Rightarrow> addr list option" where
  "queue_remove q a = (if a \<in> set q then Some (remove1 a q) else None)"

definition ea_touch :: "'s shctx \<Rightarrow> addr \<Rightarrow> 's shctx option" where
  "ea_touch sh a = do {
     q \<leftarrow> queue_remove (sh_queue sh) a;
     Some (sh \<lparr> sh_queue := a # q \<rparr>)
   }"

definition ea_delete :: "'s ngx \<Rightarrow> 's shctx \<Rightarrow> addr \<Rightarrow> 's shctx option" where
  "ea_delete E sh a = do {
     q \<leftarrow> queue_remove (sh_queue sh) a;
     ub_guard (a \<in> set (rbt_addrs (sh_rbtree sh)));
     Some (sh \<lparr> sh_queue := q,
                sh_rbtree := ngx_rbtree_delete E (sh_rbtree sh) a,
                sh_heap := (sh_heap sh)(a := None),
                sh_slab := ngx_slab_free_locked E (sh_slab sh) a \<rparr>)
   }"

fun ea_expire :: "'s ngx \<Rightarrow> zone \<Rightarrow> 's shctx \<Rightarrow> time \<Rightarrow> nat \<Rightarrow> 's shctx option" where
  "ea_expire E z sh now 0 = Some sh"
| "ea_expire E z sh now (Suc limit) =
     (if sh_queue sh = [] then Some sh
      else do {
        let a = List.last (sh_queue sh);
        n \<leftarrow> sh_heap sh a;
        keep \<leftarrow> (if n_blocked_until n > now then Some True
                else do {
                  t \<leftarrow> ea_time_add_saturate (n_last_seen n) (z_inactive z);
                  Some (t > now)
                });
        if keep then Some sh
        else do {
          sh \<leftarrow> ea_delete E sh a;
          ea_expire E z sh now limit
        }
      })"

section \<open>Eviction\<close>

text \<open>\<^verbatim>\<open>ngx_queue_prev\<close>: the link before one that is in the queue, \<open>None\<close> for the sentinel.\<close>

fun queue_prev :: "addr list \<Rightarrow> addr \<Rightarrow> addr option" where
  "queue_prev (x # y # q) a = (if y = a then Some x else queue_prev (y # q) a)"
| "queue_prev q a = None"

fun evict_loop ::
  "'s ngx \<Rightarrow> 's shctx \<Rightarrow> time \<Rightarrow> addr option \<Rightarrow> nat \<Rightarrow> addr option \<Rightarrow> (bool \<times> 's shctx) option" where
  "evict_loop E sh now stop 0 q = Some (False, sh)"
| "evict_loop E sh now stop (Suc limit) None = Some (False, sh)"
| "evict_loop E sh now stop (Suc limit) (Some a) = do {
     let next = queue_prev (sh_queue sh) a;
     n \<leftarrow> sh_heap sh a;
     if n_blocked_until n \<le> now then do {
       sh \<leftarrow> ea_delete E sh a;
       Some (True, sh)
     } else do {
       sh \<leftarrow> ea_touch sh a;
       if Some a = stop then Some (False, sh)
       else evict_loop E sh now stop limit next
     }
   }"

definition queue_head :: "addr list \<Rightarrow> addr option" where
  "queue_head q = (if q = [] then None else Some (hd q))"

definition queue_last :: "addr list \<Rightarrow> addr option" where
  "queue_last q = (if q = [] then None else Some (List.last q))"

definition ea_evict_one_unblocked :: "'s ngx \<Rightarrow> 's shctx \<Rightarrow> time \<Rightarrow> (bool \<times> 's shctx) option" where
  "ea_evict_one_unblocked E sh now =
     evict_loop E sh now (queue_head (sh_queue sh)) EVICT_SCAN_LIMIT (queue_last (sh_queue sh))"

section \<open>Allocation\<close>

text \<open>
  The allocator with the CI build's failure injector in front of it; a negative
  \<open>sh_fault_nth\<close> (what \<^verbatim>\<open>init_zone\<close> sets, and all a packaged build has) is a straight call.
\<close>

definition ea_slab_alloc_locked :: "'s ngx \<Rightarrow> 's shctx \<Rightarrow> nat \<Rightarrow> addr option \<times> 's shctx" where
  "ea_slab_alloc_locked E sh sz =
     (if sh_fault_nth sh \<ge> 0 \<and> int (sh_fault_seen sh) \<ge> sh_fault_nth sh
      then (None, sh \<lparr> sh_fault_seen := sh_fault_seen sh + 1 \<rparr>)
      else (let sh = (if sh_fault_nth sh \<ge> 0
                      then sh \<lparr> sh_fault_seen := sh_fault_seen sh + 1 \<rparr> else sh);
                (a, s) = ngx_slab_alloc_locked E (sh_slab sh) sz
            in (a, sh \<lparr> sh_slab := s \<rparr>)))"

lemma slab_alloc_locked_fields [simp]:
  "sh_queue (snd (ea_slab_alloc_locked E sh sz)) = sh_queue sh"
  "sh_heap (snd (ea_slab_alloc_locked E sh sz)) = sh_heap sh"
  "sh_rbtree (snd (ea_slab_alloc_locked E sh sz)) = sh_rbtree sh"
  "sh_fault_nth (snd (ea_slab_alloc_locked E sh sz)) = sh_fault_nth sh"
  by (auto simp: ea_slab_alloc_locked_def Let_def split: prod.splits)

lemma length_remove1_in: "a \<in> set q \<Longrightarrow> length q = Suc (length (remove1 a q))"
  by (induction q) auto

lemma touch_shape:
  "ea_touch sh a = Some sh' \<Longrightarrow> length (sh_queue sh') = length (sh_queue sh) \<and> sh_heap sh' = sh_heap sh"
  by (auto simp: ea_touch_def queue_remove_def dest: length_remove1_in
      split: if_splits Option.bind_splits)

lemma delete_length:
  "ea_delete E sh a = Some sh' \<Longrightarrow> length (sh_queue sh') < length (sh_queue sh)"
  by (auto simp: ea_delete_def queue_remove_def dest: length_remove1_in
      split: if_splits Option.bind_splits)

lemma evict_loop_length:
  "evict_loop E sh now stop limit q = Some (True, sh') \<Longrightarrow> length (sh_queue sh') < length (sh_queue sh)"
proof (induction E sh now stop limit q rule: evict_loop.induct)
  case (3 E sh now stop limit a)
  then show ?case
    by (fastforce split: Option.bind_splits if_splits simp: Let_def dest: delete_length touch_shape)
qed simp_all

text \<open>The force-evict loop of \<^verbatim>\<open>create_node\<close>; every turn that goes on shortens the queue.\<close>

function evict_until ::
  "'s ngx \<Rightarrow> 's shctx \<Rightarrow> time \<Rightarrow> nat \<Rightarrow> addr option \<Rightarrow> (addr option \<times> 's shctx) option" where
  "evict_until E sh now sz (Some a) = Some (Some a, sh)"
| "evict_until E sh now sz None =
     (case ea_evict_one_unblocked E sh now of
        None \<Rightarrow> None
      | Some (False, sh') \<Rightarrow> Some (None, sh')
      | Some (True, sh') \<Rightarrow>
          evict_until E (snd (ea_slab_alloc_locked E sh' sz)) now sz
            (fst (ea_slab_alloc_locked E sh' sz)))"
  by pat_completeness auto
termination
  by (relation "measure (\<lambda>(E, sh, now, sz, a). length (sh_queue sh))")
     (auto simp: ea_evict_one_unblocked_def dest: evict_loop_length)

definition ea_create_node ::
  "'s ngx \<Rightarrow> zone \<Rightarrow> 's shctx \<Rightarrow> 32 word \<Rightarrow> bytes \<Rightarrow> time \<Rightarrow> (addr option \<times> 's shctx) option" where
  "ea_create_node E z sh hash key now =
     (if length key > DIGEST_LEN then Some (None, sh)
      else do {
        let sz = ea_node_size (length key) (z_threshold z);
        let (a, sh) = ea_slab_alloc_locked E sh sz;
        (a, sh) \<leftarrow> (if a = None then do {
                       sh \<leftarrow> ea_expire E z sh now 64;
                       Some (ea_slab_alloc_locked E sh sz)
                     } else Some (a, sh));
        (a, sh) \<leftarrow> evict_until E sh now sz a;
        case a of
          None \<Rightarrow> Some (None, sh)
        | Some a \<Rightarrow> do {
            let n = \<lparr> n_hash = hash, n_blocked_until = 0, n_last_seen = now, n_event_head = 0,
                      n_event_count = 0, n_key_len = of_nat (length key), n_data = key,
                      n_events = replicate (z_threshold z) 0 \<rparr>;
            let h = (sh_heap sh)(a \<mapsto> n);
            t \<leftarrow> ngx_rbtree_insert E (ea_rbtree_insert E h a) (sh_rbtree sh) a;
            Some (Some a, sh \<lparr> sh_heap := h, sh_rbtree := t, sh_queue := a # sh_queue sh \<rparr>)
          }
      })"

section \<open>Well-formed stores\<close>

definition wf_zone :: "zone \<Rightarrow> bool" where
  "wf_zone z \<longleftrightarrow>
     1 \<le> z_threshold z \<and> z_threshold z \<le> MAX_THRESHOLD
   \<and> 0 < z_interval z \<and> z_interval z \<le> MAX_SECONDS
   \<and> 0 < z_block z \<and> z_block z \<le> MAX_SECONDS
   \<and> z_interval z \<le> z_inactive z \<and> z_block z \<le> z_inactive z \<and> z_inactive z \<le> MAX_SECONDS"

definition wf_node :: "'s ngx \<Rightarrow> zone \<Rightarrow> node \<Rightarrow> bool" where
  "wf_node E z n \<longleftrightarrow>
     length (n_data n) = DIGEST_LEN \<and> n_key_len n = of_nat DIGEST_LEN
   \<and> n_hash n = ngx_crc32_short E (n_data n)
   \<and> length (n_events n) = z_threshold z
   \<and> n_event_head n < z_threshold z \<and> n_event_count n \<le> z_threshold z
   \<and> 0 \<le> n_blocked_until n \<and> n_blocked_until n < 2 ^ 63
   \<and> 0 \<le> n_last_seen n \<and> n_last_seen n < 2 ^ 63
   \<and> (\<forall>t \<in> set (n_events n). time_rep t)"

definition nkey :: "node \<Rightarrow> 32 word \<times> bytes" where
  "nkey n = (n_hash n, n_data n)"

abbreviation hkey :: "heap \<Rightarrow> addr \<Rightarrow> 32 word \<times> bytes" where
  "hkey h a \<equiv> nkey (the (h a))"

definition wf_sh :: "'s ngx \<Rightarrow> zone \<Rightarrow> 's shctx \<Rightarrow> bool" where
  "wf_sh E z sh \<longleftrightarrow>
     distinct (sh_queue sh) \<and> set (sh_queue sh) = dom (sh_heap sh)
   \<and> set (rbt_addrs (sh_rbtree sh)) = dom (sh_heap sh)
   \<and> sorted_wrt (\<lambda>a b. hkey (sh_heap sh) a < hkey (sh_heap sh) b) (rbt_addrs (sh_rbtree sh))
   \<and> dom (sh_heap sh) \<subseteq> slab_live E (sh_slab sh)
   \<and> (\<forall>n \<in> ran (sh_heap sh). wf_node E z n)"

lemma wf_shI:
  assumes "distinct (sh_queue sh)" "set (sh_queue sh) = dom (sh_heap sh)"
    "set (rbt_addrs (sh_rbtree sh)) = dom (sh_heap sh)"
    "sorted_wrt (\<lambda>a b. hkey (sh_heap sh) a < hkey (sh_heap sh) b) (rbt_addrs (sh_rbtree sh))"
    "dom (sh_heap sh) \<subseteq> slab_live E (sh_slab sh)"
    "\<And>a n. sh_heap sh a = Some n \<Longrightarrow> wf_node E z n"
  shows "wf_sh E z sh"
  using assms by (auto simp: wf_sh_def ran_def)

lemma wf_shD:
  assumes "wf_sh E z sh"
  shows "distinct (sh_queue sh)" "set (sh_queue sh) = dom (sh_heap sh)"
    "set (rbt_addrs (sh_rbtree sh)) = dom (sh_heap sh)"
    "sorted_wrt (\<lambda>a b. hkey (sh_heap sh) a < hkey (sh_heap sh) b) (rbt_addrs (sh_rbtree sh))"
    "dom (sh_heap sh) \<subseteq> slab_live E (sh_slab sh)"
    "\<And>a n. sh_heap sh a = Some n \<Longrightarrow> wf_node E z n"
  using assms by (auto simp: wf_sh_def ran_def)

lemma wf_in_queue: "wf_sh E z sh \<Longrightarrow> a \<in> set (sh_queue sh) \<longleftrightarrow> (\<exists>n. sh_heap sh a = Some n)"
  by (auto simp: wf_shD)

lemma wf_queue_node:
  assumes "wf_sh E z sh" "a \<in> set (sh_queue sh)"
  obtains n where "sh_heap sh a = Some n" "wf_node E z n"
  using assms wf_in_queue wf_shD(6) by blast

lemma sorted_wrt_less_distinct:
  assumes "sorted_wrt (\<lambda>a b. f a < (f b :: 'k :: linorder)) xs"
  shows "distinct xs" "inj_on f (set xs)"
proof -
  have "sorted_wrt (<) (map f xs)" using assms by (simp add: sorted_wrt_map)
  then have "distinct (map f xs)"
    by (simp add: strict_sorted_iff)
  then show "distinct xs" "inj_on f (set xs)" by (simp_all add: distinct_map)
qed

lemma wf_distinct_tree: "wf_sh E z sh \<Longrightarrow> distinct (rbt_addrs (sh_rbtree sh))"
  by (meson wf_shD(4) sorted_wrt_less_distinct(1))

lemma wf_inj: "wf_sh E z sh \<Longrightarrow> sh_heap sh a = Some n \<Longrightarrow> sh_heap sh b = Some m \<Longrightarrow>
   nkey n = nkey m \<Longrightarrow> a = b"
  using inj_onD[OF sorted_wrt_less_distinct(2)[OF wf_shD(4)], of E z sh a b] wf_shD(3)[of E z sh]
  by auto

text \<open>Under well-formedness the key bytes alone identify a node.\<close>

lemma wf_inj_data: "wf_sh E z sh \<Longrightarrow> sh_heap sh a = Some n \<Longrightarrow> sh_heap sh b = Some m \<Longrightarrow>
   n_data n = n_data m \<Longrightarrow> a = b"
  using wf_inj wf_shD(6) by (metis nkey_def wf_node_def)

lemma wf_inj_queue:
  assumes "wf_sh E z sh" "a \<in> set (sh_queue sh)" "b \<in> set (sh_queue sh)"
  shows "n_data (the (sh_heap sh a)) = n_data (the (sh_heap sh b)) \<longleftrightarrow> a = b"
  using assms by (metis option.sel wf_in_queue wf_inj_data)

lemma wf_node_slice [simp]:
  "wf_node E z n \<Longrightarrow> slice (n_data n) 0 (unat (n_key_len n)) = Some (n_data n)"
  by (simp add: wf_node_def slice_def scan_consts)

section \<open>Lookup finds exactly the node with the key\<close>

lemma lookup_loop_find:
  assumes doc: "memn2cmp_doc E"
    and "sorted_wrt (\<lambda>a b. hkey h a < hkey h b) (rbt_addrs t)"
    and "\<forall>a \<in> set (rbt_addrs t). \<exists>n. h a = Some n \<and> wf_node E z n"
  shows "lookup_loop E h hash key t = Some (List.find (\<lambda>a. hkey h a = (hash, key)) (rbt_addrs t))"
  using assms(2,3)
proof (induction t)
  case Leaf
  then show ?case by simp
next
  case (Node l x r)
  obtain n where n: "h (fst x) = Some n" "wf_node E z n" using Node.prems(2) by auto
  have IH: "lookup_loop E h hash key l = Some (List.find (\<lambda>a. hkey h a = (hash, key)) (rbt_addrs l))"
    "lookup_loop E h hash key r = Some (List.find (\<lambda>a. hkey h a = (hash, key)) (rbt_addrs r))"
    using Node by (auto simp: sorted_wrt_append)
  have less: "\<And>a. a \<in> set (rbt_addrs l) \<Longrightarrow> hkey h a < nkey n"
    "\<And>b. b \<in> set (rbt_addrs r) \<Longrightarrow> nkey n < hkey h b"
    using Node.prems(1) n(1) by (auto simp: sorted_wrt_append)
  have skip_r: "List.find (\<lambda>a. hkey h a = (hash, key)) (rbt_addrs r) = None"
    if "(hash, key) \<le> nkey n" using less(2) that by (fastforce simp: find_None_iff)
  have skip_l: "List.find (\<lambda>a. hkey h a = (hash, key)) (rbt_addrs l) = None"
    if "nkey n \<le> (hash, key)" using less(1) that by (fastforce simp: find_None_iff)
  have app: "List.find P (xs @ ys) = (case List.find P xs of None \<Rightarrow> List.find P ys | Some v \<Rightarrow> Some v)"
    for P :: "addr \<Rightarrow> bool" and xs ys by (induction xs) auto
  have step: "lookup_loop E h hash key (Node l x r) =
     (if (hash, key) < nkey n then lookup_loop E h hash key l
      else if nkey n < (hash, key) then lookup_loop E h hash key r else Some (Some (fst x)))"
  proof (cases "hash = n_hash n")
    case True
    consider "key < n_data n" | "key = n_data n" | "n_data n < key" "key \<noteq> n_data n"
      using less_linear by blast
    then show ?thesis
      using True n memn2cmp_less[OF doc, of key "n_data n"] memn2cmp_zero[OF doc, of key "n_data n"]
      by cases (simp_all add: nkey_def Let_def)
  next
    case False
    then consider "hash < n_hash n" | "n_hash n < hash" by (rule neqE)
    then show ?thesis using n False by cases (auto simp: nkey_def dest: less_asym leD)
  qed
  consider "(hash, key) < nkey n" | "(hash, key) = nkey n" | "nkey n < (hash, key)"
    using less_linear by blast
  then show ?case
  proof cases
    case 1
    then show ?thesis
      using IH(1) skip_r n(1) unfolding step by (auto simp: app split: option.splits)
  next
    case 2
    then show ?thesis using skip_l n(1) unfolding step by (auto simp: app)
  next
    case 3
    then show ?thesis
      using IH(2) skip_l n(1) unfolding step by (auto simp: app)
  qed
qed

lemma lookup_find:
  assumes "memn2cmp_doc E" "wf_sh E z sh"
  shows "ea_lookup E sh hash key =
     Some (List.find (\<lambda>a. hkey (sh_heap sh) a = (hash, key)) (rbt_addrs (sh_rbtree sh)))"
  unfolding ea_lookup_def
  by (rule lookup_loop_find[OF assms(1), where z = z])
     (use assms(2) in \<open>auto simp: wf_shD(3,4) intro: wf_shD(6)\<close>)

lemma lookup_Some_iff:
  assumes "memn2cmp_doc E" "wf_sh E z sh"
  shows "ea_lookup E sh hash key = Some (Some a) \<longleftrightarrow>
     (\<exists>n. sh_heap sh a = Some n \<and> n_hash n = hash \<and> n_data n = key)"
proof
  assume "ea_lookup E sh hash key = Some (Some a)"
  then have "List.find (\<lambda>a. hkey (sh_heap sh) a = (hash, key)) (rbt_addrs (sh_rbtree sh)) = Some a"
    by (simp add: lookup_find[OF assms])
  then have "a \<in> set (rbt_addrs (sh_rbtree sh))" "hkey (sh_heap sh) a = (hash, key)"
    by (auto simp: find_Some_iff)
  then show "\<exists>n. sh_heap sh a = Some n \<and> n_hash n = hash \<and> n_data n = key"
    using wf_shD(3)[OF assms(2)] by (auto simp: nkey_def)
next
  assume "\<exists>n. sh_heap sh a = Some n \<and> n_hash n = hash \<and> n_data n = key"
  then obtain n where n: "sh_heap sh a = Some n" "nkey n = (hash, key)" by (auto simp: nkey_def)
  then have "a \<in> set (rbt_addrs (sh_rbtree sh))" using wf_shD(3)[OF assms(2)] by auto
  with n have "List.find (\<lambda>a. hkey (sh_heap sh) a = (hash, key)) (rbt_addrs (sh_rbtree sh)) \<noteq> None"
    by (auto simp: find_None_iff)
  then obtain b where b: "List.find (\<lambda>a. hkey (sh_heap sh) a = (hash, key)) (rbt_addrs (sh_rbtree sh)) = Some b"
    by blast
  then have "b \<in> set (rbt_addrs (sh_rbtree sh))" "hkey (sh_heap sh) b = (hash, key)"
    by (auto simp: find_Some_iff)
  then obtain m where "sh_heap sh b = Some m" "nkey m = nkey n"
    using wf_shD(3)[OF assms(2)] n(2) by auto
  then have "a = b" using wf_inj[OF assms(2)] n(1) by metis
  then show "ea_lookup E sh hash key = Some (Some a)" using b by (simp add: lookup_find[OF assms])
qed

lemma lookup_None_iff:
  assumes "memn2cmp_doc E" "wf_sh E z sh"
  shows "ea_lookup E sh hash key = Some None \<longleftrightarrow>
     (\<forall>a n. sh_heap sh a = Some n \<longrightarrow> \<not> (n_hash n = hash \<and> n_data n = key))"
proof -
  obtain r where "ea_lookup E sh hash key = Some r" using lookup_find[OF assms] by blast
  then show ?thesis using lookup_Some_iff[OF assms, of hash key] by (cases r) auto
qed

section \<open>The clients of a store, in LRU order\<close>

record client =
  c_key :: bytes
  c_ban :: time
  c_seen :: time
  c_events :: "time list"

text \<open>The events of a node, oldest first: \<open>n_event_count\<close> slots of the ring from its head.\<close>

definition ring_of :: "time list \<Rightarrow> nat \<Rightarrow> nat \<Rightarrow> time list" where
  "ring_of es head cnt = map (\<lambda>i. es ! ((head + i) mod length es)) [0..<cnt]"

definition ring :: "node \<Rightarrow> time list" where
  "ring n = ring_of (n_events n) (n_event_head n) (n_event_count n)"

definition absn :: "node \<Rightarrow> client" where
  "absn n = \<lparr> c_key = n_data n, c_ban = n_blocked_until n, c_seen = n_last_seen n, c_events = ring n \<rparr>"

lemma absn_sel [simp]:
  "c_key (absn n) = n_data n" "c_ban (absn n) = n_blocked_until n"
  "c_seen (absn n) = n_last_seen n" "c_events (absn n) = ring n"
  by (simp_all add: absn_def)

definition zabs :: "'s shctx \<Rightarrow> client list" where
  "zabs sh = map (\<lambda>a. absn (the (sh_heap sh a))) (sh_queue sh)"

lemma length_ring [simp]: "length (ring n) = n_event_count n"
  by (simp add: ring_def ring_of_def)

lemma wf_zabs_keys: "wf_sh E z sh \<Longrightarrow> distinct (map c_key (zabs sh))"
  unfolding zabs_def
  by (auto simp: distinct_map inj_on_def wf_shD(1) wf_inj_queue)

text \<open>The abstract operations.\<close>

definition a_expired :: "zone \<Rightarrow> time \<Rightarrow> client \<Rightarrow> bool" where
  "a_expired z now c \<longleftrightarrow> c_ban c \<le> now \<and> sat_add (c_seen c) (z_inactive z) \<le> now"

fun a_expire :: "zone \<Rightarrow> time \<Rightarrow> nat \<Rightarrow> client list \<Rightarrow> client list" where
  "a_expire z now 0 cs = cs"
| "a_expire z now (Suc limit) cs =
     (if cs \<noteq> [] \<and> a_expired z now (List.last cs) then a_expire z now limit (butlast cs) else cs)"

text \<open>
  Eviction walks from the tail over at most \<open>lim\<close> clients; the banned ones it passes move to the
  head, in their order, and the first that is not banned is removed.
\<close>

definition a_evict :: "time \<Rightarrow> nat \<Rightarrow> client list \<Rightarrow> bool \<times> client list" where
  "a_evict now lim cs =
     (let seg = rev (takeWhile (\<lambda>c. c_ban c > now) (take lim (rev cs)));
          pre = take (length cs - length seg) cs
      in if length seg < lim \<and> pre \<noteq> [] then (True, seg @ butlast pre) else (False, seg @ pre))"

section \<open>Touch and delete\<close>

lemma touch_ok:
  assumes "wf_sh E z sh" "sh_heap sh a = Some n"
  shows "\<exists>sh'. ea_touch sh a = Some sh' \<and> wf_sh E z sh' \<and> sh_heap sh' = sh_heap sh
     \<and> sh_queue sh' = a # remove1 a (sh_queue sh) \<and> sh_fault_nth sh' = sh_fault_nth sh"
proof -
  have a: "a \<in> set (sh_queue sh)" using assms by (auto simp: wf_in_queue)
  then have "set (a # remove1 a (sh_queue sh)) = set (sh_queue sh)"
    using wf_shD(1)[OF assms(1)] by auto
  then have "wf_sh E z (sh \<lparr> sh_queue := a # remove1 a (sh_queue sh) \<rparr>)"
    using assms(1) a by (auto simp: wf_sh_def)
  with a show ?thesis by (simp add: ea_touch_def queue_remove_def)
qed

lemma delete_ok:
  assumes doc: "store_doc E" and wf: "wf_sh E z sh" and a: "sh_heap sh a = Some n"
  shows "\<exists>sh'. ea_delete E sh a = Some sh' \<and> wf_sh E z sh' \<and> sh_heap sh' = (sh_heap sh)(a := None)
     \<and> sh_queue sh' = remove1 a (sh_queue sh) \<and> sh_fault_nth sh' = sh_fault_nth sh
     \<and> slab_live E (sh_slab sh') = slab_live E (sh_slab sh) - {a}"
proof -
  define sh' where "sh' = sh \<lparr> sh_queue := remove1 a (sh_queue sh),
     sh_rbtree := ngx_rbtree_delete E (sh_rbtree sh) a, sh_heap := (sh_heap sh)(a := None),
     sh_slab := ngx_slab_free_locked E (sh_slab sh) a \<rparr>"
  have q: "a \<in> set (sh_queue sh)" "a \<in> set (rbt_addrs (sh_rbtree sh))" "a \<in> slab_live E (sh_slab sh)"
    using a wf_shD(2,3,5)[OF wf] by auto
  have t: "rbt_addrs (ngx_rbtree_delete E (sh_rbtree sh) a) = remove1 a (rbt_addrs (sh_rbtree sh))"
    using store_docD[OF doc] wf_distinct_tree[OF wf] q(2) by (auto simp: rbtree_doc_def)
  have s: "slab_live E (ngx_slab_free_locked E (sh_slab sh) a) = slab_live E (sh_slab sh) - {a}"
    using store_docD[OF doc] q(3) by (auto simp: slab_free_live)
  have "wf_sh E z sh'"
  proof (rule wf_shI)
    show "sorted_wrt (\<lambda>b c. hkey (sh_heap sh') b < hkey (sh_heap sh') c) (rbt_addrs (sh_rbtree sh'))"
    proof -
      have "sorted_wrt (\<lambda>b c. hkey (sh_heap sh) b < hkey (sh_heap sh) c)
              (remove1 a (rbt_addrs (sh_rbtree sh)))"
        using wf_shD(4)[OF wf] wf_distinct_tree[OF wf]
        by (simp add: distinct_remove1_removeAll removeAll_filter_not_eq sorted_wrt_filter)
      then show ?thesis
        using wf_distinct_tree[OF wf]
        by (auto simp: sh'_def t elim!: sorted_wrt_mono_rel[rotated])
    qed
  qed (use wf_shD[OF wf] wf_distinct_tree[OF wf] in
       \<open>auto simp: sh'_def t s split: if_splits\<close>)
  then show ?thesis
    using q s by (auto simp: ea_delete_def queue_remove_def sh'_def intro!: exI[of _ sh'])
qed

section \<open>The operations refine the abstract ones\<close>

definition a_drop :: "bytes \<Rightarrow> client list \<Rightarrow> client list" where
  "a_drop k cs = filter (\<lambda>c. c_key c \<noteq> k) cs"

lemma zabs_remove:
  assumes "wf_sh E z sh" "sh_heap sh a = Some n"
  shows "map (\<lambda>b. absn (the (sh_heap sh b))) (remove1 a (sh_queue sh)) = a_drop (n_data n) (zabs sh)"
proof -
  have "remove1 a (sh_queue sh) = filter (\<lambda>b. n_data (the (sh_heap sh b)) \<noteq> n_data n) (sh_queue sh)"
    unfolding distinct_remove1_removeAll[OF wf_shD(1)[OF assms(1)]] removeAll_filter_not_eq
  proof (rule filter_cong[OF refl])
    fix b assume "b \<in> set (sh_queue sh)"
    moreover have "a \<in> set (sh_queue sh)" using assms by (auto simp: wf_in_queue)
    ultimately show "(a \<noteq> b) = (n_data (the (sh_heap sh b)) \<noteq> n_data n)"
      using wf_inj_queue[OF assms(1), of b a] assms(2) by auto
  qed
  then show ?thesis by (simp add: zabs_def a_drop_def filter_map comp_def)
qed

lemma zabs_delete:
  assumes "wf_sh E z sh" "sh_heap sh a = Some n"
    and "sh_queue sh' = remove1 a (sh_queue sh)" "sh_heap sh' = (sh_heap sh)(a := None)"
  shows "zabs sh' = a_drop (n_data n) (zabs sh)"
proof -
  have "zabs sh' = map (\<lambda>b. absn (the (sh_heap sh b))) (remove1 a (sh_queue sh))"
    unfolding zabs_def using assms(3,4) wf_shD(1)[OF assms(1)] by (auto intro!: map_cong)
  then show ?thesis by (simp add: zabs_remove[OF assms(1,2)])
qed

lemma zabs_touch:
  assumes "wf_sh E z sh" "sh_heap sh a = Some n"
    and "sh_queue sh' = a # remove1 a (sh_queue sh)" "sh_heap sh' = sh_heap sh"
  shows "zabs sh' = absn n # a_drop (n_data n) (zabs sh)"
  using assms zabs_remove[OF assms(1,2)] by (simp add: zabs_def)

lemma a_drop_snoc:
  "distinct (map c_key (cs @ [c])) \<Longrightarrow> a_drop (c_key c) (cs @ [c]) = cs"
  unfolding a_drop_def by (induction cs) auto

text \<open>At the tail, removal is \<open>butlast\<close>.\<close>

lemma zabs_last:
  assumes "wf_sh E z sh" "sh_queue sh \<noteq> []" "sh_heap sh (List.last (sh_queue sh)) = Some n"
  shows "zabs sh \<noteq> []" "List.last (zabs sh) = absn n" "a_drop (n_data n) (zabs sh) = butlast (zabs sh)"
proof -
  show ne: "zabs sh \<noteq> []" using assms(2) by (simp add: zabs_def)
  show l: "List.last (zabs sh) = absn n" using assms(2,3) by (simp add: zabs_def last_map)
  have "zabs sh = butlast (zabs sh) @ [absn n]" using ne l by (metis append_butlast_last_id)
  then show "a_drop (n_data n) (zabs sh) = butlast (zabs sh)"
    using a_drop_snoc[of "butlast (zabs sh)" "absn n"] wf_zabs_keys[OF assms(1)]
    by (metis absn_sel(1))
qed

text \<open>What ageing and eviction leave of the heap: some nodes, unchanged.\<close>

definition shrinks :: "'s shctx \<Rightarrow> 's shctx \<Rightarrow> bool" where
  "shrinks sh sh' \<longleftrightarrow> sh_heap sh' \<subseteq>\<^sub>m sh_heap sh \<and> sh_fault_nth sh' = sh_fault_nth sh"

lemma shrinks_refl [simp, intro]: "shrinks sh sh"
  by (simp add: shrinks_def)

lemma shrinks_trans [trans]: "shrinks sh sh1 \<Longrightarrow> shrinks sh1 sh2 \<Longrightarrow> shrinks sh sh2"
  by (auto simp: shrinks_def intro: map_le_trans)

lemma expire_refines:
  assumes doc: "store_doc E" and "wf_sh E z sh"
  shows "\<exists>sh'. ea_expire E z sh now limit = Some sh' \<and> wf_sh E z sh'
     \<and> zabs sh' = a_expire z now limit (zabs sh) \<and> shrinks sh sh'"
  using assms(2)
proof (induction limit arbitrary: sh)
  case 0
  then show ?case by simp
next
  case (Suc limit)
  show ?case
  proof (cases "sh_queue sh = []")
    case True
    then show ?thesis using Suc.prems by (simp add: zabs_def)
  next
    case False
    define a where "a = List.last (sh_queue sh)"
    have "a \<in> set (sh_queue sh)" using False by (simp add: a_def)
    then obtain n where n: "sh_heap sh a = Some n" "wf_node E z n" by (rule wf_queue_node[OF Suc.prems])
    note last = zabs_last[OF Suc.prems False n(1)[unfolded a_def]]
    have sat: "ea_time_add_saturate (n_last_seen n) (z_inactive z) = Some (sat_add (n_last_seen n) (z_inactive z))"
      using n(2) by (simp add: wf_node_def)
    show ?thesis
    proof (cases "a_expired z now (absn n)")
      case False
      then show ?thesis
        using \<open>sh_queue sh \<noteq> []\<close> n last Suc.prems
        by (auto simp: a_def [symmetric] Let_def sat a_expired_def not_le)
    next
      case True
      obtain sh1 where sh1: "ea_delete E sh a = Some sh1" "wf_sh E z sh1"
        "sh_heap sh1 = (sh_heap sh)(a := None)" "sh_queue sh1 = remove1 a (sh_queue sh)"
        "sh_fault_nth sh1 = sh_fault_nth sh"
        using delete_ok[OF doc Suc.prems n(1)] by blast
      have z1: "zabs sh1 = butlast (zabs sh)"
        using zabs_delete[OF Suc.prems n(1) sh1(4,3)] last(3) by simp
      obtain sh2 where sh2: "ea_expire E z sh1 now limit = Some sh2" "wf_sh E z sh2"
        "zabs sh2 = a_expire z now limit (zabs sh1)" "shrinks sh1 sh2"
        using Suc.IH[OF sh1(2)] by blast
      have "shrinks sh sh1" using sh1 by (simp add: shrinks_def map_le_def)
      then have "shrinks sh sh2" using sh2(4) by (rule shrinks_trans)
      moreover have "\<not> n_blocked_until n > now" "\<not> sat_add (n_last_seen n) (z_inactive z) > now"
        using True by (auto simp: a_expired_def)
      moreover have "zabs sh2 = a_expire z now (Suc limit) (zabs sh)"
        using last True sh2(3) z1 by simp
      ultimately show ?thesis
        using False n sh1 sh2 by (auto simp: a_def [symmetric] Let_def sat)
    qed
  qed
qed

subsection \<open>Eviction\<close>

definition a_evict_from :: "time \<Rightarrow> nat \<Rightarrow> client list \<Rightarrow> client list \<Rightarrow> bool \<times> client list" where
  "a_evict_from now lim front cs =
     (let seg = rev (takeWhile (\<lambda>c. c_ban c > now) (take lim (rev cs)));
          pre = take (length cs - length seg) cs
      in if length seg < lim \<and> pre \<noteq> [] then (True, seg @ front @ butlast pre)
         else (False, seg @ front @ pre))"

lemma a_evict_from_Nil: "a_evict_from now lim [] cs = a_evict now lim cs"
  by (simp add: a_evict_from_def a_evict_def Let_def)

lemma a_evict_from_simps:
  "a_evict_from now 0 front cs = (False, front @ cs)"
  "a_evict_from now lim front [] = (False, front)"
  "c_ban c \<le> now \<Longrightarrow> a_evict_from now (Suc lim) front (cs @ [c]) = (True, front @ cs)"
  "now < c_ban c \<Longrightarrow> a_evict_from now (Suc lim) front (cs @ [c]) = a_evict_from now lim (c # front) cs"
  by (simp_all add: a_evict_from_def Let_def)

lemma queue_prev_snoc: "distinct (xs @ [y, a]) \<Longrightarrow> queue_prev (xs @ [y, a]) a = Some y"
  by (induction xs rule: induct_list012) auto

lemma evict_loop_refines:
  assumes doc: "store_doc E" and "wf_sh E z sh" "sh_queue sh = front @ q" "q \<noteq> []"
  shows "\<exists>b sh'. evict_loop E sh now (Some (hd q)) limit (Some (List.last q)) = Some (b, sh')
     \<and> wf_sh E z sh' \<and> shrinks sh sh'
     \<and> (b, zabs sh') = a_evict_from now limit (take (length front) (zabs sh)) (drop (length front) (zabs sh))"
  using assms(2-)
proof (induction limit arbitrary: sh front q)
  case 0
  then show ?case by (intro exI[of _ False]) (simp add: a_evict_from_simps)
next
  case (Suc limit)
  obtain q1 a where q: "q = q1 @ [a]" using Suc.prems(3) by (metis snoc_cases)
  have dist: "distinct (front @ q1 @ [a])" using wf_shD(1)[OF Suc.prems(1)] Suc.prems(2) q by simp
  have "a \<in> set (sh_queue sh)" using Suc.prems(2) q by simp
  then obtain n where n: "sh_heap sh a = Some n" by (rule wf_queue_node[OF Suc.prems(1)])
  have rem: "remove1 a (sh_queue sh) = front @ q1"
    using dist by (simp add: Suc.prems(2) q remove1_append)
  define f where "f = (\<lambda>b. absn (the (sh_heap sh b)))"
  have z: "zabs sh = map f front @ map f q1 @ [absn n]"
    using n by (simp add: zabs_def Suc.prems(2) q f_def)
  show ?case
  proof (cases "n_blocked_until n \<le> now")
    case True
    obtain sh1 where sh1: "ea_delete E sh a = Some sh1" "wf_sh E z sh1"
      "sh_heap sh1 = (sh_heap sh)(a := None)" "sh_queue sh1 = remove1 a (sh_queue sh)"
      "sh_fault_nth sh1 = sh_fault_nth sh"
      using delete_ok[OF doc Suc.prems(1) n] by blast
    have "zabs sh1 = map f front @ map f q1"
      using dist sh1 rem by (auto simp: zabs_def f_def)
    then show ?thesis
      using True sh1 n
      by (intro exI[of _ True]) (simp add: q z a_evict_from_simps shrinks_def map_le_def Let_def)
  next
    case False
    obtain sh1 where sh1: "ea_touch sh a = Some sh1" "wf_sh E z sh1" "sh_heap sh1 = sh_heap sh"
      "sh_queue sh1 = a # remove1 a (sh_queue sh)" "sh_fault_nth sh1 = sh_fault_nth sh"
      using touch_ok[OF Suc.prems(1) n] by blast
    have z1: "zabs sh1 = (absn n # map f front) @ map f q1"
      using sh1 rem n by (simp add: zabs_def f_def)
    have shr: "shrinks sh sh1" using sh1 by (simp add: shrinks_def)
    have sp: "a_evict_from now (Suc limit) (map f front) (map f q1 @ [absn n])
       = a_evict_from now limit (absn n # map f front) (map f q1)"
      using False by (simp add: a_evict_from_simps)
    show ?thesis
    proof (cases "q1 = []")
      case True
      then show ?thesis using False n sh1 z1 sp shr
        by (intro exI[of _ False]) (simp add: q z Let_def a_evict_from_simps)
    next
      case ne: False
      then obtain q2 b where q1: "q1 = q2 @ [b]" by (metis snoc_cases)
      have nx: "queue_prev (sh_queue sh) a = Some (List.last q1)"
        using queue_prev_snoc[of "front @ q2" b a] dist by (simp add: Suc.prems(2) q q1)
      have "hd q1 \<noteq> a" using dist ne by auto
      moreover obtain b' sh' where
        "evict_loop E sh1 now (Some (hd q1)) limit (Some (List.last q1)) = Some (b', sh')"
        "wf_sh E z sh'" "shrinks sh1 sh'"
        "(b', zabs sh') = a_evict_from now limit (take (length (a # front)) (zabs sh1))
            (drop (length (a # front)) (zabs sh1))"
        using Suc.IH[OF sh1(2) _ ne, of "a # front"] sh1(4) rem by auto
      ultimately show ?thesis
        using False n sh1(1) nx ne z z1 sp shrinks_trans[OF shr]
        by (auto simp: q Let_def)
    qed
  qed
qed

theorem evict_refines:
  assumes "store_doc E" "wf_sh E z sh"
  shows "\<exists>b sh'. ea_evict_one_unblocked E sh now = Some (b, sh') \<and> wf_sh E z sh' \<and> shrinks sh sh'
     \<and> (b, zabs sh') = a_evict now EVICT_SCAN_LIMIT (zabs sh)"
proof (cases "sh_queue sh = []")
  case True
  then show ?thesis using assms(2)
    by (auto simp: ea_evict_one_unblocked_def queue_head_def queue_last_def EVICT_SCAN_LIMIT_def
        zabs_def a_evict_def numeral_eq_Suc)
next
  case False
  then show ?thesis
    using evict_loop_refines[OF assms, of "[]" "sh_queue sh" now EVICT_SCAN_LIMIT]
    by (simp add: ea_evict_one_unblocked_def queue_head_def queue_last_def a_evict_from_Nil)
qed

text \<open>Ageing and eviction drop clients that are not banned, and only those.\<close>

definition sheds :: "time \<Rightarrow> client list \<Rightarrow> client list \<Rightarrow> bool" where
  "sheds now cs cs' \<longleftrightarrow> set cs' \<subseteq> set cs \<and> (\<forall>c \<in> set cs - set cs'. c_ban c \<le> now)"

lemma sheds_refl [simp, intro]: "sheds now cs cs"
  by (simp add: sheds_def)

lemma sheds_trans [trans]: "sheds now cs cs1 \<Longrightarrow> sheds now cs1 cs2 \<Longrightarrow> sheds now cs cs2"
  by (auto simp: sheds_def)

lemma sheds_all: "sheds now cs cs' \<Longrightarrow> (\<forall>c \<in> set cs. P c) \<Longrightarrow> (\<forall>c \<in> set cs'. P c)"
  by (auto simp: sheds_def)

lemma sheds_expire: "sheds now cs (a_expire z now limit cs)"
proof (induction limit arbitrary: cs)
  case (Suc limit)
  show ?case
  proof (cases "cs \<noteq> [] \<and> a_expired z now (List.last cs)")
    case True
    then obtain ds d where cs: "cs = ds @ [d]" by (metis snoc_cases)
    have "sheds now cs ds" using True by (auto simp: cs sheds_def a_expired_def)
    also have "sheds now ds (a_expire z now limit ds)" by (rule Suc.IH)
    finally show ?thesis using True by (simp add: cs)
  next
    case False
    then show ?thesis by auto
  qed
qed simp

lemma evict_split:
  "\<exists>pre seg. cs = pre @ seg \<and> (\<forall>c \<in> set seg. now < c_ban c)
     \<and> ((\<exists>ds d. pre = ds @ [d] \<and> c_ban d \<le> now \<and> length seg < lim \<and> a_evict now lim cs = (True, seg @ ds))
        \<or> length seg = min lim (length cs) \<and> a_evict now lim cs = (False, seg @ pre))"
proof -
  define sg where "sg = takeWhile (\<lambda>c. now < c_ban c) (take lim (rev cs))"
  define pre where "pre = take (length cs - length sg) cs"
  have len: "length sg \<le> lim" "length sg \<le> length cs"
    using length_takeWhile_le[of "\<lambda>c. now < c_ban c" "take lim (rev cs)"] by (auto simp: sg_def)
  have sg: "sg = take (length sg) (rev cs)"
    using takeWhile_eq_take[of "\<lambda>c. now < c_ban c" "take lim (rev cs)"] len(1)
    by (simp add: sg_def[symmetric] min_def)
  then have seg: "cs = pre @ rev sg"
    by (metis append_take_drop_id pre_def rev_rev_ident rev_take length_rev rev_swap)
  have b: "\<forall>c \<in> set (rev sg). now < c_ban c" by (auto simp: sg_def dest: set_takeWhileD)
  have ev: "a_evict now lim cs = (if length sg < lim \<and> pre \<noteq> [] then (True, rev sg @ butlast pre)
       else (False, rev sg @ pre))"
    by (simp add: a_evict_def Let_def sg_def pre_def)
  show ?thesis
  proof (cases "length sg < lim \<and> pre \<noteq> []")
    case True
    then obtain ds d where pre: "pre = ds @ [d]" by (metis snoc_cases)
    have "length sg < length (take lim (rev cs))" using True seg by (auto simp: pre)
    then have "\<not> now < c_ban (take lim (rev cs) ! length sg)"
      unfolding sg_def by (rule nth_length_takeWhile)
    moreover have "rev cs = sg @ d # rev ds" using seg by (simp add: pre)
    ultimately have "c_ban d \<le> now" using True by (simp add: nth_append)
    then show ?thesis using seg b ev True pre by (intro exI[of _ pre] exI[of _ "rev sg"]) auto
  next
    case False
    then have "length sg = min lim (length cs)"
      using len seg by (auto simp: min_def)
    then show ?thesis using seg b ev False by (intro exI[of _ pre] exI[of _ "rev sg"]) auto
  qed
qed

lemma evict_cases:
  obtains (evicted) ds d seg where "cs = ds @ d # seg" "\<forall>c \<in> set seg. now < c_ban c" "c_ban d \<le> now"
      "length seg < lim" "a_evict now lim cs = (True, seg @ ds)"
    | (refused) pre seg where "cs = pre @ seg" "\<forall>c \<in> set seg. now < c_ban c"
      "length seg = min lim (length cs)" "a_evict now lim cs = (False, seg @ pre)"
  using evict_split[of cs now lim] by force

lemma sheds_evict: "a_evict now lim cs = (b, cs') \<Longrightarrow> sheds now cs cs'"
  by (rule evict_cases[of cs now lim]) (auto simp: sheds_def)

lemma evict_False_banned:
  assumes "a_evict now lim cs = (False, cs')"
  shows "\<forall>c \<in> set (take lim cs'). now < c_ban c"
proof (cases rule: evict_cases[of cs now lim])
  case (refused pre seg)
  then have "take lim cs' = take lim seg" using assms by (cases "length cs \<le> lim") auto
  then show ?thesis using refused(2) by (auto dest: in_set_takeD)
qed (use assms in simp)

section \<open>Allocation\<close>

lemma slab_alloc_locked_ok:
  assumes "store_doc E" "wf_sh E z sh" "ea_slab_alloc_locked E sh sz = (r, sh')"
  shows "wf_sh E z sh'" "zabs sh' = zabs sh" "shrinks sh sh'" "sh_heap sh' = sh_heap sh"
    "r = Some a \<Longrightarrow> a \<notin> dom (sh_heap sh') \<and> a \<in> slab_live E (sh_slab sh')"
proof -
  have f: "sh_queue sh' = sh_queue sh" "sh_heap sh' = sh_heap sh" "sh_rbtree sh' = sh_rbtree sh"
    "sh_fault_nth sh' = sh_fault_nth sh"
    using slab_alloc_locked_fields[of E sh sz] by (simp_all add: assms(3))
  then show "sh_heap sh' = sh_heap sh" "zabs sh' = zabs sh" "shrinks sh sh'"
    by (simp_all add: zabs_def shrinks_def)
  have s: "slab_live E (sh_slab sh) \<subseteq> slab_live E (sh_slab sh')
     \<and> (\<forall>a. r = Some a \<longrightarrow> a \<notin> slab_live E (sh_slab sh) \<and> a \<in> slab_live E (sh_slab sh'))"
  proof (cases "sh_fault_nth sh \<ge> 0 \<and> int (sh_fault_seen sh) \<ge> sh_fault_nth sh")
    case True
    then show ?thesis using assms(3) by (auto simp: ea_slab_alloc_locked_def)
  next
    case False
    obtain r' s' where al: "ngx_slab_alloc_locked E (sh_slab sh) sz = (r', s')" by fastforce
    then have "r = r'" "sh_slab sh' = s'"
      using False assms(3) by (auto simp: ea_slab_alloc_locked_def Let_def split: if_splits)
    then show ?thesis
      using al slab_alloc_None[of E "sh_slab sh" sz s'] slab_alloc_Some[of E "sh_slab sh" sz _ s']
        store_docD[OF assms(1)] by (cases r') auto
  qed
  show "wf_sh E z sh'" using wf_shD[OF assms(2)] s f by (intro wf_shI) auto
  show "r = Some a \<Longrightarrow> a \<notin> dom (sh_heap sh') \<and> a \<in> slab_live E (sh_slab sh')"
    using s wf_shD(5)[OF assms(2)] f by auto
qed

lemma evict_until_ok:
  assumes "store_doc E" "wf_sh E z sh"
    and "\<forall>a. r0 = Some a \<longrightarrow> a \<notin> dom (sh_heap sh) \<and> a \<in> slab_live E (sh_slab sh)"
  shows "\<exists>r sh'. evict_until E sh now sz r0 = Some (r, sh') \<and> wf_sh E z sh' \<and> shrinks sh sh'
     \<and> sheds now (zabs sh) (zabs sh')
     \<and> (case r of Some a \<Rightarrow> a \<notin> dom (sh_heap sh') \<and> a \<in> slab_live E (sh_slab sh')
        | None \<Rightarrow> \<forall>c \<in> set (take EVICT_SCAN_LIMIT (zabs sh')). now < c_ban c)"
  using assms
proof (induction E sh now sz r0 rule: evict_until.induct)
  case (1 E sh now sz a)
  then show ?case by simp
next
  case (2 E sh now sz)
  obtain b sh1 where ev: "ea_evict_one_unblocked E sh now = Some (b, sh1)" "wf_sh E z sh1"
    "shrinks sh sh1" "a_evict now EVICT_SCAN_LIMIT (zabs sh) = (b, zabs sh1)"
    using evict_refines[OF 2(2,3), of now] by auto
  have shed: "sheds now (zabs sh) (zabs sh1)" using ev(4) by (rule sheds_evict)
  show ?case
  proof (cases b)
    case False
    then show ?thesis using ev shed evict_False_banned[of now EVICT_SCAN_LIMIT "zabs sh" "zabs sh1"]
      by simp
  next
    case True
    obtain r2 sh2 where al: "ea_slab_alloc_locked E sh1 sz = (r2, sh2)" by fastforce
    note ok = slab_alloc_locked_ok[OF 2(2) ev(2) al]
    have ev1: "ea_evict_one_unblocked E sh now = Some (True, sh1)" using ev True by simp
    obtain r3 sh3 where ih: "evict_until E sh2 now sz r2 = Some (r3, sh3)" "wf_sh E z sh3" "shrinks sh2 sh3"
      "sheds now (zabs sh2) (zabs sh3)"
      "case r3 of Some a \<Rightarrow> a \<notin> dom (sh_heap sh3) \<and> a \<in> slab_live E (sh_slab sh3)
        | None \<Rightarrow> \<forall>c \<in> set (take EVICT_SCAN_LIMIT (zabs sh3)). now < c_ban c"
      using 2(1)[OF ev1 refl _ 2(2)] ok al by auto
    have "shrinks sh sh3" using ev(3) ok(3) ih(3) by (blast intro: shrinks_trans)
    moreover have "sheds now (zabs sh) (zabs sh3)" using shed ih(4) ok(2) by (auto intro: sheds_trans)
    ultimately show ?thesis using ev1 al ih by simp
  qed
qed

lemma insert_left_eq:
  "memn2cmp_doc E \<Longrightarrow> wf_node E z n \<Longrightarrow> wf_node E z m \<Longrightarrow> insert_left E n m = Some (nkey n < nkey m)"
  by (cases "n_hash n" "n_hash m" rule: linorder_cases)
     (simp_all add: insert_left_def nkey_def memn2cmp_less less_not_sym)

lemma rbtree_insert_ok:
  assumes doc: "memn2cmp_doc E" and a: "h a = Some n" "wf_node E z n"
    and "t \<noteq> Leaf" "sorted_wrt (\<lambda>a b. hkey h a < hkey h b) (rbt_addrs t)"
    and "\<forall>b \<in> set (rbt_addrs t). (\<exists>m. h b = Some m \<and> wf_node E z m) \<and> hkey h b \<noteq> nkey n"
  shows "\<exists>t' xs ys. ea_rbtree_insert E h a t = Some t' \<and> rbt_addrs t = xs @ ys
     \<and> rbt_addrs t' = xs @ a # ys \<and> (\<forall>x \<in> set xs. hkey h x < nkey n) \<and> (\<forall>y \<in> set ys. nkey n < hkey h y)"
  using assms(4-)
proof (induction t)
  case Leaf
  then show ?case by simp
next
  case (Node l x r)
  obtain m where m: "h (fst x) = Some m" "wf_node E z m" "nkey m \<noteq> nkey n" using Node.prems(3) by auto
  have less: "\<forall>b \<in> set (rbt_addrs l). hkey h b < nkey m" "\<forall>b \<in> set (rbt_addrs r). nkey m < hkey h b"
    using Node.prems(2) m(1) by (auto simp: sorted_wrt_append)
  note il = insert_left_eq[OF doc a(2) m(2)]
  show ?case
  proof (cases "nkey n < nkey m")
    case True
    have gt: "\<forall>b \<in> set (fst x # rbt_addrs r). nkey n < hkey h b"
      using True less(2) m(1) by (auto intro: less_trans)
    show ?thesis
    proof (cases "l = Leaf")
      case leaf: True
      then show ?thesis using True a m il gt
        by (intro exI[of _ "Node (Node Leaf (a, True) Leaf) x r"] exI[of _ "[]"]
              exI[of _ "fst x # rbt_addrs r"]) auto
    next
      case False
      then obtain t' xs ys where IH: "ea_rbtree_insert E h a l = Some t'" "rbt_addrs l = xs @ ys"
        "rbt_addrs t' = xs @ a # ys" "\<forall>x \<in> set xs. hkey h x < nkey n" "\<forall>y \<in> set ys. nkey n < hkey h y"
        using Node.IH(1) Node.prems by (auto simp: sorted_wrt_append)
      then show ?thesis using True False a m il gt
        by (intro exI[of _ "Node t' x r"] exI[of _ xs] exI[of _ "ys @ fst x # rbt_addrs r"]) auto
    qed
  next
    case False
    then have mn: "nkey m < nkey n" using m(3) by auto
    have lt: "\<forall>b \<in> set (rbt_addrs l @ [fst x]). hkey h b < nkey n"
      using mn less(1) m(1) by (auto intro: less_trans)
    show ?thesis
    proof (cases "r = Leaf")
      case leaf: True
      then show ?thesis using False a m il lt
        by (intro exI[of _ "Node l x (Node Leaf (a, True) Leaf)"] exI[of _ "rbt_addrs l @ [fst x]"]
              exI[of _ "[]"]) auto
    next
      case ne: False
      then obtain t' xs ys where IH: "ea_rbtree_insert E h a r = Some t'" "rbt_addrs r = xs @ ys"
        "rbt_addrs t' = xs @ a # ys" "\<forall>x \<in> set xs. hkey h x < nkey n" "\<forall>y \<in> set ys. nkey n < hkey h y"
        using Node.IH(2) Node.prems by (auto simp: sorted_wrt_append)
      then show ?thesis using False ne a m il lt
        by (intro exI[of _ "Node l x t'"] exI[of _ "rbt_addrs l @ fst x # xs"] exI[of _ ys]) auto
    qed
  qed
qed

text \<open>A node as \<^verbatim>\<open>create_node\<close> leaves it.\<close>

definition new_client :: "bytes \<Rightarrow> time \<Rightarrow> client" where
  "new_client key now = \<lparr> c_key = key, c_ban = 0, c_seen = now, c_events = [] \<rparr>"

text \<open>A fresh node is linked into the tree, the heap and the head of the queue.\<close>

lemma link_ok:
  assumes doc: "store_doc E" and wf: "wf_sh E z sh" and n: "wf_node E z n"
    and a: "a \<notin> dom (sh_heap sh)" "a \<in> slab_live E (sh_slab sh)"
    and new: "\<And>b m. sh_heap sh b = Some m \<Longrightarrow> n_data m \<noteq> n_data n"
  shows "\<exists>t. ngx_rbtree_insert E (ea_rbtree_insert E ((sh_heap sh)(a \<mapsto> n)) a) (sh_rbtree sh) a = Some t
     \<and> wf_sh E z (sh \<lparr> sh_heap := (sh_heap sh)(a \<mapsto> n), sh_rbtree := t, sh_queue := a # sh_queue sh \<rparr>)"
proof -
  define h where "h = (sh_heap sh)(a \<mapsto> n)"
  define cb where "cb = ea_rbtree_insert E h a"
  note D = wf_shD[OF wf]
  have old: "sh_heap sh b = Some m \<Longrightarrow> h b = Some m" for b m using a(1) by (auto simp: h_def)
  have hk: "b \<in> set (rbt_addrs (sh_rbtree sh)) \<Longrightarrow> hkey h b = hkey (sh_heap sh) b" for b
    using D(3) a(1) by (auto simp: h_def)
  have sorted: "sorted_wrt (\<lambda>a b. hkey h a < hkey h b) (rbt_addrs (sh_rbtree sh))"
    by (rule sorted_wrt_mono_rel[OF _ D(4)]) (simp add: hk)
  have fresh: "\<forall>b \<in> set (rbt_addrs (sh_rbtree sh)). (\<exists>m. h b = Some m \<and> wf_node E z m) \<and> hkey h b \<noteq> nkey n"
  proof
    fix b assume "b \<in> set (rbt_addrs (sh_rbtree sh))"
    then obtain m where m: "sh_heap sh b = Some m" using D(3) by auto
    then show "(\<exists>m. h b = Some m \<and> wf_node E z m) \<and> hkey h b \<noteq> nkey n"
      using old[OF m] D(6)[OF m] new[OF m] by (auto simp: nkey_def)
  qed
  have ha: "h a = Some n" by (simp add: h_def)
  have "\<exists>t xs ys. ngx_rbtree_insert E cb (sh_rbtree sh) a = Some t \<and> rbt_addrs (sh_rbtree sh) = xs @ ys
     \<and> rbt_addrs t = xs @ a # ys \<and> (\<forall>x \<in> set xs. hkey h x < nkey n) \<and> (\<forall>y \<in> set ys. nkey n < hkey h y)"
  proof (cases "sh_rbtree sh = Leaf")
    case True
    then show ?thesis using rbtree_insert_doc(1)[of E cb a] store_docD[OF doc] by auto
  next
    case False
    obtain t' xs ys where t': "cb (sh_rbtree sh) = Some t'" "rbt_addrs (sh_rbtree sh) = xs @ ys"
      "rbt_addrs t' = xs @ a # ys" "\<forall>x \<in> set xs. hkey h x < nkey n" "\<forall>y \<in> set ys. nkey n < hkey h y"
      using rbtree_insert_ok[OF _ ha n False sorted fresh] store_docD[OF doc] unfolding cb_def by blast
    then show ?thesis
      using rbtree_insert_doc(2)[of E "sh_rbtree sh" cb t' a] False store_docD[OF doc] by auto
  qed
  then obtain t xs ys where t: "ngx_rbtree_insert E cb (sh_rbtree sh) a = Some t"
    "rbt_addrs (sh_rbtree sh) = xs @ ys" "rbt_addrs t = xs @ a # ys"
    "\<forall>x \<in> set xs. hkey h x < nkey n" "\<forall>y \<in> set ys. nkey n < hkey h y" by blast
  have "wf_sh E z (sh \<lparr> sh_heap := h, sh_rbtree := t, sh_queue := a # sh_queue sh \<rparr>)"
  proof (rule wf_shI)
    have "sorted_wrt (\<lambda>a b. hkey h a < hkey h b) (xs @ ys)" using sorted t(2) by simp
    then show "sorted_wrt (\<lambda>b c. hkey (sh_heap (sh \<lparr> sh_heap := h, sh_rbtree := t, sh_queue := a # sh_queue sh \<rparr>)) b
        < hkey (sh_heap (sh \<lparr> sh_heap := h, sh_rbtree := t, sh_queue := a # sh_queue sh \<rparr>)) c)
        (rbt_addrs (sh_rbtree (sh \<lparr> sh_heap := h, sh_rbtree := t, sh_queue := a # sh_queue sh \<rparr>)))"
      using t ha by (auto simp: sorted_wrt_append)
    have "set (xs @ ys) = dom (sh_heap sh)" using D(3) t(2) by simp
    then show "set (rbt_addrs (sh_rbtree (sh \<lparr> sh_heap := h, sh_rbtree := t, sh_queue := a # sh_queue sh \<rparr>)))
        = dom (sh_heap (sh \<lparr> sh_heap := h, sh_rbtree := t, sh_queue := a # sh_queue sh \<rparr>))"
      using t(3) by (auto simp: h_def)
  qed (use D a n in \<open>auto simp: h_def split: if_splits\<close>)
  then show ?thesis using t(1) unfolding cb_def h_def by blast
qed

lemma wf_new_node:
  assumes "wf_zone z" "length key = DIGEST_LEN" "0 \<le> now" "now < 2 ^ 63"
  shows "wf_node E z \<lparr> n_hash = ngx_crc32_short E key, n_blocked_until = 0, n_last_seen = now,
     n_event_head = 0, n_event_count = 0, n_key_len = of_nat (length key), n_data = key,
     n_events = replicate (z_threshold z) 0 \<rparr>"
  using assms by (auto simp: wf_node_def wf_zone_def time_rep_def)

lemma shrinks_new:
  "shrinks sh sh' \<Longrightarrow> sh_heap sh' b = Some m \<Longrightarrow> sh_heap sh b = Some m"
  by (auto simp: shrinks_def map_le_def dom_def)

text \<open>
  Creation is defined, keeps the store well formed and drops no ban.  It gives either a fresh node
  at the head of the queue, or nothing; then the whole scanned head of the queue is banned.  If
  the first allocation succeeds, nothing is dropped.
\<close>

lemma create_node_ok:
  assumes doc: "store_doc E" and z: "wf_zone z" and wf: "wf_sh E z sh"
    and key: "length key = DIGEST_LEN" and now: "0 \<le> now" "now < 2 ^ 63"
    and new: "\<forall>b m. sh_heap sh b = Some m \<longrightarrow> n_data m \<noteq> key"
  shows "\<exists>r sh'. ea_create_node E z sh (ngx_crc32_short E key) key now = Some (r, sh') \<and> wf_sh E z sh'
     \<and> sh_fault_nth sh' = sh_fault_nth sh
     \<and> (case r of
          None \<Rightarrow> sheds now (zabs sh) (zabs sh') \<and> (\<forall>c \<in> set (take EVICT_SCAN_LIMIT (zabs sh')). now < c_ban c)
            \<and> fst (ea_slab_alloc_locked E sh (ea_node_size DIGEST_LEN (z_threshold z))) = None
        | Some a \<Rightarrow> (\<exists>n cs. sh_heap sh' a = Some n \<and> absn n = new_client key now \<and> n_data n = key
            \<and> zabs sh' = new_client key now # cs \<and> sheds now (zabs sh) cs
            \<and> (fst (ea_slab_alloc_locked E sh (ea_node_size DIGEST_LEN (z_threshold z))) \<noteq> None \<longrightarrow> cs = zabs sh)))"
proof -
  define sz where "sz = ea_node_size (length key) (z_threshold z)"
  obtain r0 sh0 where al0: "ea_slab_alloc_locked E sh sz = (r0, sh0)" by fastforce
  note ok0 = slab_alloc_locked_ok[OF doc wf al0]
  obtain r1 sh1 where s1: "(if r0 = None then do {
      sh \<leftarrow> ea_expire E z sh0 now 64; Some (ea_slab_alloc_locked E sh sz) } else Some (r0, sh0)) = Some (r1, sh1)"
    and ok1: "wf_sh E z sh1" "shrinks sh sh1" "sheds now (zabs sh) (zabs sh1)"
      "\<forall>a. r1 = Some a \<longrightarrow> a \<notin> dom (sh_heap sh1) \<and> a \<in> slab_live E (sh_slab sh1)"
      "r0 \<noteq> None \<Longrightarrow> r1 = r0 \<and> zabs sh1 = zabs sh"
  proof (cases r0)
    case None
    obtain she where e: "ea_expire E z sh0 now 64 = Some she" "wf_sh E z she"
      "zabs she = a_expire z now 64 (zabs sh0)" "shrinks sh0 she"
      using expire_refines[OF doc ok0(1)] by blast
    obtain r1 sh1 where al: "ea_slab_alloc_locked E she sz = (r1, sh1)" by fastforce
    note ok = slab_alloc_locked_ok[OF doc e(2) al]
    have sh: "sheds now (zabs sh) (zabs sh1)" using sheds_expire e(3) ok(2) ok0(2) by simp
    have shr: "shrinks sh sh1" using ok0(3) e(4) ok(3) by (blast intro: shrinks_trans)
    show thesis by (rule that[of r1 sh1]) (use None e al ok shr sh in auto)
  next
    case (Some a)
    show thesis by (rule that[of r0 sh0]) (use Some ok0 in auto)
  qed
  obtain r2 sh2 where ev: "evict_until E sh1 now sz r1 = Some (r2, sh2)" and ok2: "wf_sh E z sh2"
    "shrinks sh1 sh2" "sheds now (zabs sh1) (zabs sh2)"
    "case r2 of Some a \<Rightarrow> a \<notin> dom (sh_heap sh2) \<and> a \<in> slab_live E (sh_slab sh2)
      | None \<Rightarrow> \<forall>c \<in> set (take EVICT_SCAN_LIMIT (zabs sh2)). now < c_ban c"
    using evict_until_ok[OF doc ok1(1,4)] by blast
  have shed: "sheds now (zabs sh) (zabs sh2)" using ok1(3) ok2(3) by (rule sheds_trans)
  have shr: "shrinks sh sh2" using ok1(2) ok2(2) by (rule shrinks_trans)
  have keep: "r0 \<noteq> None \<Longrightarrow> zabs sh2 = zabs sh \<and> r2 \<noteq> None" using ev ok1(5) by auto
  have len: "\<not> length key > DIGEST_LEN" using key by simp
  note unfold = ea_create_node_def sz_def [symmetric] Let_def
  show ?thesis
  proof (cases r2)
    case None
    then have "ea_create_node E z sh (ngx_crc32_short E key) key now = Some (None, sh2)"
      using len al0 s1 ev by (simp add: unfold)
    moreover have "r0 = None" using keep None by blast
    ultimately show ?thesis using None ok2 shed shr al0 key
      by (auto simp: shrinks_def sz_def)
  next
    case (Some a)
    define n where "n = \<lparr> n_hash = ngx_crc32_short E key, n_blocked_until = 0, n_last_seen = now,
     n_event_head = 0, n_event_count = 0, n_key_len = of_nat (length key), n_data = key,
     n_events = replicate (z_threshold z) 0 \<rparr>"
    have n: "wf_node E z n" "n_data n = key" using wf_new_node[OF z key now] by (simp_all add: n_def)
    have abs: "absn n = new_client key now" by (simp add: absn_def n_def new_client_def ring_def ring_of_def)
    have a: "a \<notin> dom (sh_heap sh2)" "a \<in> slab_live E (sh_slab sh2)" using ok2(4) Some by auto
    have fresh: "n_data m \<noteq> n_data n" if "sh_heap sh2 b = Some m" for b m
      using new shrinks_new[OF shr that] n(2) by blast
    obtain t where
      t: "ngx_rbtree_insert E (ea_rbtree_insert E ((sh_heap sh2)(a \<mapsto> n)) a) (sh_rbtree sh2) a = Some t"
        "wf_sh E z (sh2 \<lparr> sh_heap := (sh_heap sh2)(a \<mapsto> n), sh_rbtree := t, sh_queue := a # sh_queue sh2 \<rparr>)"
      using link_ok[OF doc ok2(1) n(1) a] fresh by blast
    define sh3 where "sh3 = sh2 \<lparr> sh_heap := (sh_heap sh2)(a \<mapsto> n), sh_rbtree := t, sh_queue := a # sh_queue sh2 \<rparr>"
    have "ea_create_node E z sh (ngx_crc32_short E key) key now = Some (Some a, sh3)"
      using len al0 s1 ev Some t(1) by (simp add: unfold sh3_def n_def)
    moreover have "zabs sh3 = new_client key now # zabs sh2"
      using a(1) wf_shD(2)[OF ok2(1)] by (auto simp: zabs_def sh3_def abs)
    moreover have "wf_sh E z sh3" using t(2) by (simp add: sh3_def)
    moreover have "sh_heap sh3 a = Some n" "sh_fault_nth sh3 = sh_fault_nth sh"
      using shr by (simp_all add: sh3_def shrinks_def)
    ultimately show ?thesis using shed keep abs n(2) al0 key by (auto simp: sz_def)
  qed
qed

text \<open>When the first allocation succeeds, it is all that happens to the slab pool.\<close>

lemma create_node_slab:
  assumes "ea_create_node E z sh hash key now = Some (r, sh')" "length key \<le> DIGEST_LEN"
    and "fst (ea_slab_alloc_locked E sh (ea_node_size (length key) (z_threshold z))) \<noteq> None"
  shows "sh_slab sh' = sh_slab (snd (ea_slab_alloc_locked E sh (ea_node_size (length key) (z_threshold z))))
     \<and> sh_fault_nth sh' = sh_fault_nth sh"
proof -
  obtain a sh0 where al: "ea_slab_alloc_locked E sh (ea_node_size (length key) (z_threshold z)) = (Some a, sh0)"
    using assms(3) by (cases "ea_slab_alloc_locked E sh (ea_node_size (length key) (z_threshold z))") auto
  moreover have "sh_fault_nth sh0 = sh_fault_nth sh"
    using slab_alloc_locked_fields(4)[of E sh "ea_node_size (length key) (z_threshold z)"] al by simp
  ultimately show ?thesis using assms(1,2)
    by (auto simp: ea_create_node_def Let_def split: Option.bind_splits)
qed

section \<open>Changing a node in place\<close>

definition set_node :: "'s shctx \<Rightarrow> addr \<Rightarrow> node \<Rightarrow> 's shctx" where
  "set_node sh a n = sh \<lparr> sh_heap := (sh_heap sh)(a \<mapsto> n) \<rparr>"

lemma set_node_sel [simp]:
  "sh_heap (set_node sh a n) = (sh_heap sh)(a \<mapsto> n)" "sh_queue (set_node sh a n) = sh_queue sh"
  "sh_rbtree (set_node sh a n) = sh_rbtree sh" "sh_slab (set_node sh a n) = sh_slab sh"
  "sh_fault_nth (set_node sh a n) = sh_fault_nth sh"
  by (simp_all add: set_node_def)

lemma set_node_wf:
  assumes wf: "wf_sh E z sh" and n: "sh_heap sh a = Some n" and "wf_node E z n'" "n_data n' = n_data n"
  shows "wf_sh E z (set_node sh a n')"
proof -
  note D = wf_shD[OF wf]
  have "nkey n' = nkey n" using assms(3,4) D(6)[OF n] by (simp add: nkey_def wf_node_def)
  then have hk: "hkey ((sh_heap sh)(a \<mapsto> n')) b = hkey (sh_heap sh) b" for b using n by simp
  have "dom ((sh_heap sh)(a \<mapsto> n')) = dom (sh_heap sh)" using n by auto
  moreover have "sorted_wrt (\<lambda>b c. hkey (sh_heap (set_node sh a n')) b < hkey (sh_heap (set_node sh a n')) c)
      (rbt_addrs (sh_rbtree (set_node sh a n')))"
    unfolding set_node_sel hk by (rule D(4))
  ultimately show ?thesis using D assms(3)
    by (intro wf_shI) (auto simp del: dom_fun_upd split: if_splits)
qed

lemma set_node_zabs:
  assumes "wf_sh E z sh" "sh_heap sh a = Some n"
  shows "zabs (set_node sh a n') = map (\<lambda>c. if c_key c = n_data n then absn n' else c) (zabs sh)"
proof -
  have a: "a \<in> set (sh_queue sh)" using assms by (auto simp: wf_in_queue)
  have "(n_data (the (sh_heap sh b)) = n_data n) = (b = a)" if "b \<in> set (sh_queue sh)" for b
    using wf_inj_queue[OF assms(1) that a] assms(2) by simp
  then show ?thesis by (simp add: zabs_def)
qed

lemma set_node_head:
  assumes "wf_sh E z sh" "sh_heap sh a = Some n" "sh_queue sh = a # q"
  shows "zabs sh = absn n # tl (zabs sh)" "zabs (set_node sh a n') = absn n' # tl (zabs sh)"
  using assms wf_shD(1)[OF assms(1)] by (auto simp: zabs_def)

lemma zabs_find:
  assumes "wf_sh E z sh"
  shows "List.find (\<lambda>c. c_key c = k) (zabs sh) = Some c \<longleftrightarrow>
     (\<exists>a n. sh_heap sh a = Some n \<and> n_data n = k \<and> c = absn n)"
proof -
  have "List.find (\<lambda>c. c_key c = k) (zabs sh) = Some c \<longleftrightarrow> c \<in> set (zabs sh) \<and> c_key c = k"
    by (rule find_distinct[OF wf_zabs_keys[OF assms]])
  also have "\<dots> \<longleftrightarrow> (\<exists>a n. sh_heap sh a = Some n \<and> n_data n = k \<and> c = absn n)"
    using assms by (force simp: zabs_def wf_in_queue)
  finally show ?thesis .
qed

end
