(* ===== verification/EA_Decide.thy ===== *)
theory EA_Decide
  imports EA_Store
begin

text \<open>
  The decision engine of a zone: counting an error response (\<^verbatim>\<open>record\<close>), asking whether a
  client is banned (\<^verbatim>\<open>is_blocked\<close>) and the read-only forecast of dry-run (\<^verbatim>\<open>peek\<close>).
  Each is refined by a function on the list of clients; the laws of the sliding window and the
  persistence of bans are proved on that list and carried to the code's model.
\<close>

section \<open>The ring of events\<close>

definition ev_get :: "node \<Rightarrow> nat \<Rightarrow> time option" where
  "ev_get n i = (if i < length (n_events n) then Some (n_events n ! i) else None)"

definition ev_set :: "node \<Rightarrow> nat \<Rightarrow> time \<Rightarrow> node option" where
  "ev_set n i t = (if i < length (n_events n) then Some (n \<lparr> n_events := (n_events n)[i := t] \<rparr>) else None)"

text \<open>\<^verbatim>\<open>x % zone->threshold\<close>; by zero it is undefined.\<close>

definition mod_thr :: "zone \<Rightarrow> nat \<Rightarrow> nat option" where
  "mod_thr z x = (if z_threshold z = 0 then None else Some (x mod z_threshold z))"

fun prune_loop :: "zone \<Rightarrow> time \<Rightarrow> node \<Rightarrow> nat \<Rightarrow> nat \<Rightarrow> (nat \<times> nat) option" where
  "prune_loop z cutoff n head 0 = Some (head, 0)"
| "prune_loop z cutoff n head (Suc cnt) = do {
     e \<leftarrow> ev_get n head;
     if e \<le> cutoff then do {
       head \<leftarrow> mod_thr z (head + 1);
       prune_loop z cutoff n head cnt
     } else Some (head, Suc cnt)
   }"

definition ea_prune_events :: "zone \<Rightarrow> node \<Rightarrow> time \<Rightarrow> node option" where
  "ea_prune_events z n now = do {
     cutoff \<leftarrow> t_sub now (z_interval z);
     (head, cnt) \<leftarrow> prune_loop z cutoff n (n_event_head n) (n_event_count n);
     Some (n \<lparr> n_event_head := head, n_event_count := cnt \<rparr>)
   }"

section \<open>The operations\<close>

definition ea_find_touch_locked ::
  "'s ngx \<Rightarrow> zone \<Rightarrow> 's shctx \<Rightarrow> 32 word \<Rightarrow> bytes \<Rightarrow> time \<Rightarrow> (addr option \<times> 's shctx) option" where
  "ea_find_touch_locked E z sh hash key now = do {
     sh \<leftarrow> ea_expire E z sh now 2;
     r \<leftarrow> ea_lookup E sh hash key;
     case r of
       None \<Rightarrow> Some (None, sh)
     | Some a \<Rightarrow> do {
         n \<leftarrow> sh_heap sh a;
         let sh = set_node sh a (n \<lparr> n_last_seen := now \<rparr>);
         sh \<leftarrow> ea_touch sh a;
         Some (Some a, sh)
       }
   }"

text \<open>\<^verbatim>\<open>ean->blocked_until = 0\<close> and an empty ring.\<close>

definition clear_node :: "node \<Rightarrow> node" where
  "clear_node n = n \<lparr> n_blocked_until := 0, n_event_head := 0, n_event_count := 0 \<rparr>"

text \<open>The rest of \<^verbatim>\<open>record\<close> and of \<^verbatim>\<open>is_blocked\<close>, once the node is at hand.\<close>

definition record_node :: "zone \<Rightarrow> node \<Rightarrow> time \<Rightarrow> (ngx_rc \<times> (nat \<times> time) \<times> node) option" where
  "record_node z n now =
     (if n_blocked_until n > now then Some (NGX_BUSY, (z_threshold z, n_blocked_until n), n)
      else do {
        let n = (if n_blocked_until n \<noteq> 0 then clear_node n else n);
        n \<leftarrow> ea_prune_events z n now;
        index \<leftarrow> mod_thr z (n_event_head n + n_event_count n);
        n \<leftarrow> ev_set n index now;
        let n = n \<lparr> n_event_count := n_event_count n + 1 \<rparr>;
        n \<leftarrow> (if n_event_count n \<ge> z_threshold z then do {
                t \<leftarrow> ea_time_add_saturate now (z_block z);
                Some (n \<lparr> n_blocked_until := t, n_event_head := 0, n_event_count := 0 \<rparr>)
              } else Some n);
        let bu = n_blocked_until n;
        let cnt = (if bu > now then z_threshold z else n_event_count n);
        Some (if bu > now then NGX_BUSY else NGX_OK, (cnt, bu), n)
      })"

definition is_blocked_node :: "zone \<Rightarrow> node \<Rightarrow> time \<Rightarrow> (ngx_rc \<times> (nat \<times> time) \<times> node) option" where
  "is_blocked_node z n now =
     (if n_blocked_until n > now then Some (NGX_OK, (z_threshold z, n_blocked_until n), n)
      else do {
        n \<leftarrow> (if n_blocked_until n \<noteq> 0 then Some (clear_node n) else ea_prune_events z n now);
        Some (NGX_DECLINED, (n_event_count n, 0), n)
      })"

text \<open>
  The locals \<^verbatim>\<open>*count\<close> and \<^verbatim>\<open>*blocked_until\<close> of the caller are passed in and out as
  \<open>out\<close>; an error return leaves them.
\<close>

definition ea_record ::
  "'s ngx \<Rightarrow> zone \<Rightarrow> 's shctx \<Rightarrow> bytes \<Rightarrow> time \<Rightarrow> nat \<times> time \<Rightarrow> (ngx_rc \<times> (nat \<times> time) \<times> 's shctx) option" where
  "ea_record E z sh key now out = do {
     let hash = ngx_crc32_short E key;
     (r, sh) \<leftarrow> ea_find_touch_locked E z sh hash key now;
     (r, sh) \<leftarrow> (if r = None then ea_create_node E z sh hash key now else Some (r, sh));
     case r of
       None \<Rightarrow> Some (NGX_ERROR, out, sh)
     | Some a \<Rightarrow> do {
         n \<leftarrow> sh_heap sh a;
         (rc, out, n) \<leftarrow> record_node z n now;
         Some (rc, out, set_node sh a n)
       }
   }"

definition ea_is_blocked ::
  "'s ngx \<Rightarrow> zone \<Rightarrow> 's shctx \<Rightarrow> bytes \<Rightarrow> time \<Rightarrow> (ngx_rc \<times> (nat \<times> time) \<times> 's shctx) option" where
  "ea_is_blocked E z sh key now = do {
     let hash = ngx_crc32_short E key;
     (r, sh) \<leftarrow> ea_find_touch_locked E z sh hash key now;
     case r of
       None \<Rightarrow> Some (NGX_DECLINED, (0, 0), sh)
     | Some a \<Rightarrow> do {
         n \<leftarrow> sh_heap sh a;
         (rc, out, n) \<leftarrow> is_blocked_node z n now;
         Some (rc, out, set_node sh a n)
       }
   }"

fun peek_loop :: "zone \<Rightarrow> time \<Rightarrow> node \<Rightarrow> nat list \<Rightarrow> nat \<Rightarrow> nat option" where
  "peek_loop z cutoff n [] valid = Some valid"
| "peek_loop z cutoff n (i # is) valid = do {
     j \<leftarrow> mod_thr z (n_event_head n + i);
     e \<leftarrow> ev_get n j;
     peek_loop z cutoff n is (if e > cutoff then valid + 1 else valid)
   }"

text \<open>The forecast writes only its results \<^verbatim>\<open>*count\<close>, \<^verbatim>\<open>*blocked_until\<close> and
  \<^verbatim>\<open>*would_block\<close>; it returns no store because it has none to write.\<close>

definition ea_peek ::
  "'s ngx \<Rightarrow> zone \<Rightarrow> 's shctx \<Rightarrow> bytes \<Rightarrow> time \<Rightarrow> (nat \<times> time \<times> bool) option" where
  "ea_peek E z sh key now = do {
     let hash = ngx_crc32_short E key;
     r \<leftarrow> ea_lookup E sh hash key;
     case r of
       None \<Rightarrow> do {
         bu \<leftarrow> (if z_threshold z \<le> 1 then ea_time_add_saturate now (z_block z) else Some 0);
         Some (if z_threshold z \<le> 1 then z_threshold z else 1, bu, z_threshold z \<le> 1)
       }
     | Some a \<Rightarrow> do {
         n \<leftarrow> sh_heap sh a;
         if n_blocked_until n > now then Some (z_threshold z, n_blocked_until n, True)
         else do {
           cutoff \<leftarrow> t_sub now (z_interval z);
           valid \<leftarrow> peek_loop z cutoff n [0..<n_event_count n] 0;
           let cnt = valid + 1;
           bu \<leftarrow> (if cnt \<ge> z_threshold z then ea_time_add_saturate now (z_block z) else Some 0);
           Some (cnt, bu, cnt \<ge> z_threshold z)
         }
       }
   }"

section \<open>The CI build's probe\<close>

text \<open>One walk of the queue counts the nodes and, among them, the banned ones.\<close>

fun probe_loop :: "heap \<Rightarrow> time \<Rightarrow> addr list \<Rightarrow> nat \<Rightarrow> nat \<Rightarrow> (nat \<times> nat) option" where
  "probe_loop h now [] nodes blocked = Some (nodes, blocked)"
| "probe_loop h now (a # q) nodes blocked = do {
     n \<leftarrow> h a;
     probe_loop h now q (nodes + 1) (if n_blocked_until n > now then blocked + 1 else blocked)
   }"

definition ea_probe_count_nodes :: "'s shctx option \<Rightarrow> time \<Rightarrow> (nat \<times> nat) option" where
  "ea_probe_count_nodes zone_sh now =
     (case zone_sh of None \<Rightarrow> Some (0, 0) | Some sh \<Rightarrow> probe_loop (sh_heap sh) now (sh_queue sh) 0 0)"

definition ea_probe_fault_state :: "'s shctx option \<Rightarrow> int \<times> nat" where
  "ea_probe_fault_state zone_sh =
     (case zone_sh of None \<Rightarrow> (-1, 0) | Some sh \<Rightarrow> (sh_fault_nth sh, sh_fault_seen sh))"

definition ea_probe_arm_slab :: "'s shctx option \<Rightarrow> int \<Rightarrow> ngx_rc \<times> 's shctx option" where
  "ea_probe_arm_slab zone_sh k =
     (case zone_sh of
        None \<Rightarrow> (NGX_DECLINED, None)
      | Some sh \<Rightarrow> (NGX_OK, Some (sh \<lparr> sh_fault_nth := k, sh_fault_seen := 0 \<rparr>)))"

section \<open>The abstract engine\<close>

text \<open>The events still inside the window that ends at \<open>now\<close>.\<close>

definition in_window :: "zone \<Rightarrow> time \<Rightarrow> time list \<Rightarrow> time list" where
  "in_window z now es = dropWhile (\<lambda>e. e \<le> now - z_interval z) es"

definition client_record :: "zone \<Rightarrow> time \<Rightarrow> client \<Rightarrow> ngx_rc \<times> (nat \<times> time) \<times> client" where
  "client_record z now c =
     (if c_ban c > now then (NGX_BUSY, (z_threshold z, c_ban c), c)
      else (let es = (if c_ban c \<noteq> 0 then [] else in_window z now (c_events c)) @ [now] in
        if length es \<ge> z_threshold z
        then (NGX_BUSY, (z_threshold z, sat_add now (z_block z)),
              c \<lparr> c_ban := sat_add now (z_block z), c_events := [] \<rparr>)
        else (NGX_OK, (length es, 0), c \<lparr> c_ban := 0, c_events := es \<rparr>)))"

definition client_is_blocked :: "zone \<Rightarrow> time \<Rightarrow> client \<Rightarrow> ngx_rc \<times> (nat \<times> time) \<times> client" where
  "client_is_blocked z now c =
     (if c_ban c > now then (NGX_OK, (z_threshold z, c_ban c), c)
      else (let es = (if c_ban c \<noteq> 0 then [] else in_window z now (c_events c)) in
        (NGX_DECLINED, (length es, 0), c \<lparr> c_ban := 0, c_events := es \<rparr>)))"

definition client_peek :: "zone \<Rightarrow> time \<Rightarrow> client \<Rightarrow> nat \<times> time \<times> bool" where
  "client_peek z now c =
     (if c_ban c > now then (z_threshold z, c_ban c, True)
      else (let cnt = length (filter (\<lambda>e. e > now - z_interval z) (c_events c)) + 1 in
        if cnt \<ge> z_threshold z then (cnt, sat_add now (z_block z), True) else (cnt, 0, False)))"

definition a_find :: "bytes \<Rightarrow> client list \<Rightarrow> client option" where
  "a_find k cs = List.find (\<lambda>c. c_key c = k) cs"

text \<open>The locked prologue: age two clients, and bring the one with the key to the front.\<close>

definition a_find_touch :: "zone \<Rightarrow> time \<Rightarrow> bytes \<Rightarrow> client list \<Rightarrow> client option \<times> client list" where
  "a_find_touch z now k cs =
     (let cs1 = a_expire z now 2 cs in
      case a_find k cs1 of
        None \<Rightarrow> (None, cs1)
      | Some c \<Rightarrow> (Some (c \<lparr> c_seen := now \<rparr>), a_drop k cs1))"

definition a_is_blocked :: "zone \<Rightarrow> time \<Rightarrow> bytes \<Rightarrow> client list \<Rightarrow> ngx_rc \<times> (nat \<times> time) \<times> client list" where
  "a_is_blocked z now k cs =
     (case a_find_touch z now k cs of
        (None, cs1) \<Rightarrow> (NGX_DECLINED, (0, 0), cs1)
      | (Some c, cs1) \<Rightarrow> (let (rc, out, c') = client_is_blocked z now c in (rc, out, c' # cs1)))"

definition a_peek :: "zone \<Rightarrow> time \<Rightarrow> bytes \<Rightarrow> client list \<Rightarrow> nat \<times> time \<times> bool" where
  "a_peek z now k cs = client_peek z now (case a_find k cs of None \<Rightarrow> new_client k now | Some c \<Rightarrow> c)"

section \<open>Refinement: nodes\<close>

definition clock_ok :: "time \<Rightarrow> bool" where
  "clock_ok now \<longleftrightarrow> 0 \<le> now \<and> now < TIME_MAX"

lemma clock_okD: "clock_ok now \<Longrightarrow> 0 \<le> now \<and> now < 2 ^ 63 \<and> now < TIME_MAX"
  by (simp add: clock_ok_def TIME_MAX_eq)

lemma ring_of_0 [simp]: "ring_of es head 0 = []"
  by (simp add: ring_of_def)

lemma ring_of_Suc:
  assumes "0 < length es" "head < length es"
  shows "ring_of es head (Suc cnt) = es ! head # ring_of es ((head + 1) mod length es) cnt"
proof -
  have "(head + Suc i) mod length es = ((head + 1) mod length es + i) mod length es" for i
    by (simp add: mod_add_left_eq)
  then show ?thesis
    using assms by (simp add: ring_of_def upt_conv_Cons map_Suc_upt [symmetric] del: upt_Suc)
qed

text \<open>Writing the slot after the newest event appends it, as long as the ring is not full.\<close>

lemma ring_of_append:
  assumes "cnt < length es"
  shows "ring_of (es[(head + cnt) mod length es := t]) head (Suc cnt) = ring_of es head cnt @ [t]"
proof -
  have ne: "(head + i) mod length es \<noteq> (head + cnt) mod length es" if "i < cnt" for i
  proof
    assume "(head + i) mod length es = (head + cnt) mod length es"
    then have "length es dvd (head + cnt) - (head + i)" by (metis mod_eq_dvd_iff_nat nat_add_left_cancel_le that less_imp_le_nat)
    then have "length es dvd cnt - i" by simp
    then have "length es \<le> cnt - i" using that by (simp add: dvd_imp_le)
    then show False using assms that by linarith
  qed
  have "es[(head + cnt) mod length es := t] ! ((head + i) mod length es) = es ! ((head + i) mod length es)"
    if "i < cnt" for i using ne[OF that] by simp
  moreover have "(head + cnt) mod length es < length es" using assms by (cases es) auto
  ultimately show ?thesis by (simp add: ring_of_def)
qed

lemma prune_loop_ring:
  assumes "length (n_events n) = z_threshold z" "0 < z_threshold z" "head < z_threshold z"
  shows "\<exists>head' cnt'. prune_loop z cutoff n head cnt = Some (head', cnt') \<and> head' < z_threshold z
     \<and> cnt' \<le> cnt \<and> ring_of (n_events n) head' cnt' = dropWhile (\<lambda>e. e \<le> cutoff) (ring_of (n_events n) head cnt)"
  using assms
proof (induction cnt arbitrary: head)
  case 0
  then show ?case by simp
next
  case (Suc cnt)
  have g: "ev_get n head = Some (n_events n ! head)" using Suc.prems by (simp add: ev_get_def)
  have r: "ring_of (n_events n) head (Suc cnt)
      = n_events n ! head # ring_of (n_events n) ((head + 1) mod z_threshold z) cnt"
    using ring_of_Suc[of "n_events n" head cnt] Suc.prems by simp
  show ?case
  proof (cases "n_events n ! head \<le> cutoff")
    case True
    obtain h' c' where "prune_loop z cutoff n ((head + 1) mod z_threshold z) cnt = Some (h', c')"
      "h' < z_threshold z" "c' \<le> cnt"
      "ring_of (n_events n) h' c' = dropWhile (\<lambda>e. e \<le> cutoff) (ring_of (n_events n) ((head + 1) mod z_threshold z) cnt)"
      using Suc.IH[of "(head + 1) mod z_threshold z"] Suc.prems by (metis mod_less_divisor)
    then show ?thesis using True g r Suc.prems(2) by (simp add: mod_thr_def le_Suc_eq)
  next
    case False
    then show ?thesis using g r Suc.prems by simp
  qed
qed

lemma wf_zoneD: "wf_zone z \<Longrightarrow> 0 < z_threshold z \<and> z_interval z < 2 ^ 62 \<and> 0 < z_interval z \<and> 0 < z_block z"
  by (simp add: wf_zone_def MAX_SECONDS_def)

lemma cutoff_ok: "wf_zone z \<Longrightarrow> clock_ok now \<Longrightarrow> t_sub now (z_interval z) = Some (now - z_interval z)"
  by (auto simp: t_sub_def time_rep_def dest!: wf_zoneD clock_okD)

lemma prune_ok:
  assumes "wf_zone z" "clock_ok now" "wf_node E z n"
  shows "\<exists>n'. ea_prune_events z n now = Some n' \<and> wf_node E z n' \<and> n_data n' = n_data n
     \<and> n_blocked_until n' = n_blocked_until n \<and> n_events n' = n_events n \<and> n_last_seen n' = n_last_seen n
     \<and> ring n' = in_window z now (ring n)"
proof -
  have n: "length (n_events n) = z_threshold z" "0 < z_threshold z" "n_event_head n < z_threshold z"
    using assms(3) by (auto simp: wf_node_def)
  obtain h c where "prune_loop z (now - z_interval z) n (n_event_head n) (n_event_count n) = Some (h, c)"
    "h < z_threshold z" "c \<le> n_event_count n"
    "ring_of (n_events n) h c = dropWhile (\<lambda>e. e \<le> now - z_interval z) (ring n)"
    using prune_loop_ring[OF n, of "now - z_interval z" "n_event_count n"] by (auto simp: ring_def)
  then show ?thesis
    using assms(3) by (auto simp: ea_prune_events_def cutoff_ok[OF assms(1,2)] wf_node_def in_window_def ring_def)
qed

lemma clear_ok:
  assumes "wf_zone z" "wf_node E z n"
  shows "wf_node E z (clear_node n)" "n_data (clear_node n) = n_data n" "ring (clear_node n) = []"
    "n_blocked_until (clear_node n) = 0" "n_last_seen (clear_node n) = n_last_seen n"
  using assms by (auto simp: clear_node_def wf_node_def wf_zone_def ring_def)

lemma sat_block:
  assumes "wf_zone z" "clock_ok now"
  shows "ea_time_add_saturate now (z_block z) = Some (sat_add now (z_block z))"
    "now < sat_add now (z_block z)" "0 \<le> sat_add now (z_block z)" "sat_add now (z_block z) < 2 ^ 63"
  using clock_okD[OF assms(2)] wf_zoneD[OF assms(1)] sat_add_range[of now "z_block z"] sat_add_gt
  by auto

lemma ring_append:
  assumes "wf_node E z n" "n_event_count n < z_threshold z"
    and "ev_set n ((n_event_head n + n_event_count n) mod z_threshold z) t = Some n'"
  shows "ring (n' \<lparr> n_event_count := n_event_count n' + 1 \<rparr>) = ring n @ [t]"
  using assms ring_of_append[of "n_event_count n" "n_events n" "n_event_head n" t]
  by (auto simp: wf_node_def ring_def ev_set_def split: if_splits)

lemma record_node_ok:
  assumes z: "wf_zone z" and now: "clock_ok now" and n: "wf_node E z n"
  shows "\<exists>rc out n'. record_node z n now = Some (rc, out, n') \<and> wf_node E z n' \<and> n_data n' = n_data n
     \<and> (rc, out, absn n') = client_record z now (absn n)"
proof (cases "n_blocked_until n > now")
  case True
  then show ?thesis using n by (simp add: record_node_def client_record_def)
next
  case False
  define n1 where "n1 = (if n_blocked_until n \<noteq> 0 then clear_node n else n)"
  have n1: "wf_node E z n1" "n_data n1 = n_data n" "n_blocked_until n1 = 0" "n_last_seen n1 = n_last_seen n"
    "ring n1 = (if n_blocked_until n \<noteq> 0 then [] else ring n)"
    using clear_ok[OF z n] n by (auto simp: n1_def)
  obtain n2 where n2: "ea_prune_events z n1 now = Some n2" "wf_node E z n2" "n_data n2 = n_data n1"
    "n_blocked_until n2 = 0" "n_last_seen n2 = n_last_seen n1" "ring n2 = in_window z now (ring n1)"
    using prune_ok[OF z now n1(1)] n1(3) by auto
  define es where "es = (if n_blocked_until n \<noteq> 0 then [] else in_window z now (ring n))"
  have es: "ring n2 = es" using n2(6) n1(5) by (simp add: es_def in_window_def)
  define i where "i = (n_event_head n2 + n_event_count n2) mod z_threshold z"
  define n3 where "n3 = n2 \<lparr> n_events := (n_events n2)[i := now] \<rparr>"
  have thr: "0 < z_threshold z" using wf_zoneD[OF z] by simp
  have i: "ev_set n2 i now = Some n3" "mod_thr z (n_event_head n2 + n_event_count n2) = Some i"
    using n2(2) thr by (simp_all add: ev_set_def i_def n3_def mod_thr_def wf_node_def)
  have rep: "time_rep now" using clock_okD[OF now] by (simp add: time_rep_def)
  have wf3: "wf_node E z n3"
    using n2(2) rep by (auto simp: wf_node_def n3_def dest: set_update_subset_insert[THEN subsetD])
  have cnt: "n_event_count n3 = length es" using es by (auto simp: n3_def dest: arg_cong[of _ _ length])
  have run: "record_node z n now = do {
       n4 \<leftarrow> (if Suc (length es) \<ge> z_threshold z
              then Some (n3 \<lparr> n_blocked_until := sat_add now (z_block z), n_event_head := 0, n_event_count := 0 \<rparr>)
              else Some (n3 \<lparr> n_event_count := length es + 1 \<rparr>));
       let bu = n_blocked_until n4;
       Some (if bu > now then NGX_BUSY else NGX_OK,
          (if bu > now then z_threshold z else n_event_count n4, bu), n4) }"
    using False n2(1) i cnt sat_block[OF z now]
    by (simp add: record_node_def n1_def [symmetric] Let_def)
  have spec: "client_record z now (absn n) =
     (if Suc (length es) \<ge> z_threshold z
      then (NGX_BUSY, (z_threshold z, sat_add now (z_block z)),
            (absn n) \<lparr> c_ban := sat_add now (z_block z), c_events := [] \<rparr>)
      else (NGX_OK, (Suc (length es), 0), (absn n) \<lparr> c_ban := 0, c_events := es @ [now] \<rparr>))"
    using False by (simp add: client_record_def Let_def es_def)
  show ?thesis
  proof (cases "Suc (length es) \<ge> z_threshold z")
    case True
    define n4 where "n4 = n3 \<lparr> n_blocked_until := sat_add now (z_block z), n_event_head := 0, n_event_count := 0 \<rparr>"
    have "wf_node E z n4" using wf3 sat_block[OF z now] thr by (simp add: n4_def wf_node_def)
    moreover have "absn n4 = (absn n) \<lparr> c_ban := sat_add now (z_block z), c_events := [] \<rparr>"
      using n1 n2 by (simp add: absn_def n4_def n3_def ring_def)
    moreover have "n_data n4 = n_data n" using n1 n2 by (simp add: n4_def n3_def)
    ultimately show ?thesis using True sat_block[OF z now]
      by (simp add: run spec Let_def n4_def [symmetric]) (simp add: n4_def)
  next
    case lt: False
    define n4 where "n4 = n3 \<lparr> n_event_count := length es + 1 \<rparr>"
    have "n_event_count n2 = length es" using es by (auto dest: arg_cong[of _ _ length])
    then have "ring n4 = es @ [now]"
      using ring_append[OF n2(2) _ i(1)[unfolded i_def]] lt es cnt by (simp add: n4_def)
    then have "absn n4 = (absn n) \<lparr> c_ban := 0, c_events := es @ [now] \<rparr>"
      using n1 n2 by (simp add: absn_def n4_def n3_def)
    moreover have "wf_node E z n4" using wf3 lt by (simp add: n4_def wf_node_def)
    moreover have "n_data n4 = n_data n" "n_blocked_until n4 = 0" using n1 n2 by (simp_all add: n4_def n3_def)
    ultimately show ?thesis using lt clock_okD[OF now]
      by (simp add: run spec Let_def n4_def [symmetric]) (simp add: n4_def)
  qed
qed

lemma is_blocked_node_ok:
  assumes z: "wf_zone z" and now: "clock_ok now" and n: "wf_node E z n"
  shows "\<exists>rc out n'. is_blocked_node z n now = Some (rc, out, n') \<and> wf_node E z n' \<and> n_data n' = n_data n
     \<and> (rc, out, absn n') = client_is_blocked z now (absn n)"
proof -
  obtain n2 where "ea_prune_events z n now = Some n2" "wf_node E z n2" "n_data n2 = n_data n"
    "n_blocked_until n2 = n_blocked_until n" "n_last_seen n2 = n_last_seen n"
    "ring n2 = in_window z now (ring n)"
    using prune_ok[OF z now n] by auto
  then show ?thesis using clear_ok[OF z n] n length_ring[of n2]
    by (auto simp: is_blocked_node_def client_is_blocked_def Let_def absn_def clear_node_def)
qed

section \<open>Refinement: zones\<close>

lemma a_find_set: "a_find k cs = Some c \<Longrightarrow> c \<in> set cs \<and> c_key c = k"
  by (auto simp: a_find_def find_Some_iff)

lemma a_find_None: "a_find k cs = None \<longleftrightarrow> (\<forall>c \<in> set cs. c_key c \<noteq> k)"
  by (auto simp: a_find_def find_None_iff)

text \<open>Looking a key up by its hash and bytes finds the client with that key.\<close>

lemma lookup_refines:
  assumes doc: "memn2cmp_doc E" and wf: "wf_sh E z sh"
  shows "\<exists>r. ea_lookup E sh (ngx_crc32_short E key) key = Some r
     \<and> (case r of None \<Rightarrow> a_find key (zabs sh) = None \<and> (\<forall>b m. sh_heap sh b = Some m \<longrightarrow> n_data m \<noteq> key)
        | Some a \<Rightarrow> \<exists>n. sh_heap sh a = Some n \<and> n_data n = key \<and> a_find key (zabs sh) = Some (absn n))"
proof -
  have hash: "n_hash m = ngx_crc32_short E (n_data m)" if "sh_heap sh b = Some m" for b m
    using wf_shD(6)[OF wf that] by (simp add: wf_node_def)
  obtain r where r: "ea_lookup E sh (ngx_crc32_short E key) key = Some r"
    using lookup_find[OF doc wf] by blast
  show ?thesis
  proof (cases r)
    case None
    then have new: "\<forall>b m. sh_heap sh b = Some m \<longrightarrow> n_data m \<noteq> key"
      using r lookup_None_iff[OF doc wf] hash by metis
    then have "a_find key (zabs sh) \<noteq> Some c" for c
      using zabs_find[OF wf, of key] by (auto simp: a_find_def)
    then show ?thesis using r None new by (auto simp: option.case_eq_if)
  next
    case (Some a)
    then obtain n where n: "sh_heap sh a = Some n" "n_data n = key"
      using r lookup_Some_iff[OF doc wf] by blast
    then have "a_find key (zabs sh) = Some (absn n)" using zabs_find[OF wf] by (auto simp: a_find_def)
    then show ?thesis using r Some n by auto
  qed
qed

lemma a_drop_map: "c_key d = k \<Longrightarrow> a_drop k (map (\<lambda>c. if c_key c = k then d else c) cs) = a_drop k cs"
  unfolding a_drop_def by (induction cs) auto

lemma find_touch_refines:
  assumes doc: "store_doc E" and wf: "wf_sh E z sh" and now: "clock_ok now"
  shows "\<exists>r sh'. ea_find_touch_locked E z sh (ngx_crc32_short E key) key now = Some (r, sh')
     \<and> wf_sh E z sh' \<and> sh_fault_nth sh' = sh_fault_nth sh
     \<and> (case r of
          None \<Rightarrow> a_find_touch z now key (zabs sh) = (None, zabs sh') \<and> (\<forall>b m. sh_heap sh' b = Some m \<longrightarrow> n_data m \<noteq> key)
        | Some a \<Rightarrow> \<exists>n q. sh_heap sh' a = Some n \<and> n_data n = key \<and> sh_queue sh' = a # q
            \<and> a_find_touch z now key (zabs sh) = (Some (absn n), tl (zabs sh')))"
proof -
  obtain sh1 where e: "ea_expire E z sh now 2 = Some sh1" "wf_sh E z sh1"
    "zabs sh1 = a_expire z now 2 (zabs sh)" "shrinks sh sh1"
    using expire_refines[OF doc wf] by blast
  have f: "sh_fault_nth sh1 = sh_fault_nth sh" using e(4) by (simp add: shrinks_def)
  obtain r where r: "ea_lookup E sh1 (ngx_crc32_short E key) key = Some r"
    "case r of None \<Rightarrow> a_find key (zabs sh1) = None \<and> (\<forall>b m. sh_heap sh1 b = Some m \<longrightarrow> n_data m \<noteq> key)
        | Some a \<Rightarrow> \<exists>n. sh_heap sh1 a = Some n \<and> n_data n = key \<and> a_find key (zabs sh1) = Some (absn n)"
    using lookup_refines[OF _ e(2)] store_docD[OF doc] by blast
  show ?thesis
  proof (cases r)
    case None
    then show ?thesis using e f r
      by (auto simp: ea_find_touch_locked_def a_find_touch_def Let_def)
  next
    case (Some a)
    then obtain n where n: "sh_heap sh1 a = Some n" "n_data n = key" "a_find key (zabs sh1) = Some (absn n)"
      using r(2) by auto
    define n' where "n' = n \<lparr> n_last_seen := now \<rparr>"
    have wn: "wf_node E z n" using wf_shD(6)[OF e(2) n(1)] .
    then have n': "wf_node E z n'" "n_data n' = n_data n" "absn n' = (absn n) \<lparr> c_seen := now \<rparr>"
      using clock_okD[OF now] by (auto simp: n'_def wf_node_def absn_def ring_def)
    define sh2 where "sh2 = set_node sh1 a n'"
    have wf2: "wf_sh E z sh2" unfolding sh2_def by (rule set_node_wf[OF e(2) n(1) n'(1,2)])
    have h2: "sh_heap sh2 a = Some n'" by (simp add: sh2_def)
    obtain sh3 where t: "ea_touch sh2 a = Some sh3" "wf_sh E z sh3" "sh_heap sh3 = sh_heap sh2"
      "sh_queue sh3 = a # remove1 a (sh_queue sh2)" "sh_fault_nth sh3 = sh_fault_nth sh2"
      using touch_ok[OF wf2 h2] by blast
    have "a_drop key (zabs sh2) = a_drop key (zabs sh1)"
      unfolding sh2_def set_node_zabs[OF e(2) n(1)] using n(2) n'(2) by (simp add: a_drop_map)
    then have "tl (zabs sh3) = a_drop key (zabs sh1)"
      using zabs_touch[OF wf2 h2 t(4,3)] n(2) n'(2) by simp
    then show ?thesis
      using e f r(1) Some n n' t h2
      by (auto simp: ea_find_touch_locked_def a_find_touch_def Let_def sh2_def [symmetric] n'_def [symmetric])
         (simp_all add: sh2_def)
  qed
qed

text \<open>
  A count of an error response, as a relation on client lists: a tracked client (still there after
  ageing) is updated in place and comes to the front; an untracked one is created, or refused.
\<close>

definition a_record ::
  "zone \<Rightarrow> time \<Rightarrow> bytes \<Rightarrow> client list \<Rightarrow> nat \<times> time \<Rightarrow> ngx_rc \<times> (nat \<times> time) \<times> client list \<Rightarrow> bool" where
  "a_record z now k cs out res \<longleftrightarrow>
     (case a_find_touch z now k cs of
        (Some c, rest) \<Rightarrow> res = (let (rc, out', c') = client_record z now c in (rc, out', c' # rest))
      | (None, _) \<Rightarrow>
          (\<exists>cs'. res = (NGX_ERROR, out, cs') \<and> sheds now cs cs'
             \<and> (\<forall>c \<in> set (take EVICT_SCAN_LIMIT cs'). now < c_ban c))
        \<or> (\<exists>rest. sheds now cs rest \<and>
             res = (let (rc, out', c') = client_record z now (new_client k now) in (rc, out', c' # rest))))"

lemma sheds_find_touch_None:
  "a_find_touch z now k cs = (None, cs1) \<Longrightarrow> sheds now cs cs1"
  using sheds_expire by (auto simp: a_find_touch_def Let_def split: option.splits)

lemma record_refines:
  assumes doc: "store_doc E" and z: "wf_zone z" and wf: "wf_sh E z sh" and now: "clock_ok now"
    and key: "length key = DIGEST_LEN"
  shows "\<exists>rc out' sh'. ea_record E z sh key now out = Some (rc, out', sh') \<and> wf_sh E z sh'
     \<and> sh_fault_nth sh' = sh_fault_nth sh
     \<and> a_record z now key (zabs sh) out (rc, out', zabs sh')"
proof -
  obtain r1 sh1 where ft: "ea_find_touch_locked E z sh (ngx_crc32_short E key) key now = Some (r1, sh1)"
    "wf_sh E z sh1" "sh_fault_nth sh1 = sh_fault_nth sh"
    "case r1 of
          None \<Rightarrow> a_find_touch z now key (zabs sh) = (None, zabs sh1) \<and> (\<forall>b m. sh_heap sh1 b = Some m \<longrightarrow> n_data m \<noteq> key)
        | Some a \<Rightarrow> \<exists>n q. sh_heap sh1 a = Some n \<and> n_data n = key \<and> sh_queue sh1 = a # q
            \<and> a_find_touch z now key (zabs sh) = (Some (absn n), tl (zabs sh1))"
    using find_touch_refines[OF doc wf now] by blast
  have finish: "\<exists>rc out' sh'. (do { n \<leftarrow> sh_heap sh2 a; (rc, out, n) \<leftarrow> record_node z n now;
         Some (rc, out, set_node sh2 a n) }) = Some (rc, out', sh') \<and> wf_sh E z sh'
     \<and> sh_fault_nth sh' = sh_fault_nth sh2
     \<and> (rc, out', zabs sh') = (let (rc, out', c') = client_record z now (absn n) in (rc, out', c' # tl (zabs sh2)))"
    if n: "wf_sh E z sh2" "sh_heap sh2 a = Some n" "sh_queue sh2 = a # q" for sh2 a n q
  proof -
    obtain rc out' n' where rn: "record_node z n now = Some (rc, out', n')" "wf_node E z n'"
      "n_data n' = n_data n" "(rc, out', absn n') = client_record z now (absn n)"
      using record_node_ok[OF z now wf_shD(6)[OF n(1,2)]] by blast
    then show ?thesis
      using n set_node_wf[OF n(1,2) rn(2,3)] set_node_head(2)[OF n, of n']
      by (auto simp: Let_def rn(4) [symmetric])
  qed
  show ?thesis
  proof (cases r1)
    case (Some a)
    then obtain n q where n: "sh_heap sh1 a = Some n" "sh_queue sh1 = a # q"
      "a_find_touch z now key (zabs sh) = (Some (absn n), tl (zabs sh1))" using ft(4) by auto
    show ?thesis using finish[OF ft(2) n(1,2)] ft(1,3) Some n(3)
      by (auto simp: ea_record_def a_record_def Let_def)
  next
    case None
    then have none: "a_find_touch z now key (zabs sh) = (None, zabs sh1)"
      "\<forall>b m. sh_heap sh1 b = Some m \<longrightarrow> n_data m \<noteq> key" using ft(4) by auto
    have shed: "sheds now (zabs sh) (zabs sh1)" using none(1) by (rule sheds_find_touch_None)
    obtain r2 sh2 where cr: "ea_create_node E z sh1 (ngx_crc32_short E key) key now = Some (r2, sh2)"
      "wf_sh E z sh2" "sh_fault_nth sh2 = sh_fault_nth sh1"
      "case r2 of
          None \<Rightarrow> sheds now (zabs sh1) (zabs sh2) \<and> (\<forall>c \<in> set (take EVICT_SCAN_LIMIT (zabs sh2)). now < c_ban c)
            \<and> fst (ea_slab_alloc_locked E sh1 (ea_node_size DIGEST_LEN (z_threshold z))) = None
        | Some a \<Rightarrow> (\<exists>n cs. sh_heap sh2 a = Some n \<and> absn n = new_client key now \<and> n_data n = key
            \<and> zabs sh2 = new_client key now # cs \<and> sheds now (zabs sh1) cs
            \<and> (fst (ea_slab_alloc_locked E sh1 (ea_node_size DIGEST_LEN (z_threshold z))) \<noteq> None \<longrightarrow> cs = zabs sh1))"
      using create_node_ok[OF doc z ft(2) key _ _ none(2), of now] clock_okD[OF now] by blast
    show ?thesis
    proof (cases r2)
      case None2: None
      have "ea_record E z sh key now out = Some (NGX_ERROR, out, sh2)"
        using ft(1) None cr(1) None2 by (simp add: ea_record_def Let_def)
      then show ?thesis using cr None2 ft(3) none(1) sheds_trans[OF shed]
        by (auto simp: a_record_def)
    next
      case (Some a)
      then obtain n cs where n: "sh_heap sh2 a = Some n" "absn n = new_client key now" "n_data n = key"
        "zabs sh2 = new_client key now # cs" "sheds now (zabs sh1) cs" using cr(4) by auto
      obtain b q where q: "sh_queue sh2 = b # q" using n(4) by (cases "sh_queue sh2") (auto simp: zabs_def)
      then have "n_data (the (sh_heap sh2 b)) = n_data (the (sh_heap sh2 a))"
        using n by (auto simp: zabs_def new_client_def absn_def)
      then have "b = a" using wf_inj_queue[OF cr(2)] q n(1) wf_in_queue[OF cr(2)] by (metis list.set_intros(1))
      then have q: "sh_queue sh2 = a # q" using q by simp
      show ?thesis using finish[OF cr(2) n(1) q] ft(1,3) None cr(1,3) Some none(1) n(2,4) sheds_trans[OF shed n(5)]
        by (auto simp: ea_record_def a_record_def Let_def)
    qed
  qed
qed

lemma is_blocked_refines:
  assumes doc: "store_doc E" and z: "wf_zone z" and wf: "wf_sh E z sh" and now: "clock_ok now"
  shows "\<exists>rc out sh'. ea_is_blocked E z sh key now = Some (rc, out, sh') \<and> wf_sh E z sh'
     \<and> sh_fault_nth sh' = sh_fault_nth sh \<and> (rc, out, zabs sh') = a_is_blocked z now key (zabs sh)"
proof -
  obtain r1 sh1 where ft: "ea_find_touch_locked E z sh (ngx_crc32_short E key) key now = Some (r1, sh1)"
    "wf_sh E z sh1" "sh_fault_nth sh1 = sh_fault_nth sh"
    "case r1 of
          None \<Rightarrow> a_find_touch z now key (zabs sh) = (None, zabs sh1) \<and> (\<forall>b m. sh_heap sh1 b = Some m \<longrightarrow> n_data m \<noteq> key)
        | Some a \<Rightarrow> \<exists>n q. sh_heap sh1 a = Some n \<and> n_data n = key \<and> sh_queue sh1 = a # q
            \<and> a_find_touch z now key (zabs sh) = (Some (absn n), tl (zabs sh1))"
    using find_touch_refines[OF doc wf now] by blast
  show ?thesis
  proof (cases r1)
    case None
    then show ?thesis using ft by (auto simp: ea_is_blocked_def a_is_blocked_def Let_def)
  next
    case (Some a)
    then obtain n q where n: "sh_heap sh1 a = Some n" "sh_queue sh1 = a # q"
      "a_find_touch z now key (zabs sh) = (Some (absn n), tl (zabs sh1))" using ft(4) by auto
    obtain rc out' n' where rn: "is_blocked_node z n now = Some (rc, out', n')" "wf_node E z n'"
      "n_data n' = n_data n" "(rc, out', absn n') = client_is_blocked z now (absn n)"
      using is_blocked_node_ok[OF z now wf_shD(6)[OF ft(2) n(1)]] by blast
    then show ?thesis
      using ft(1,3) Some n set_node_wf[OF ft(2) n(1) rn(2,3)] set_node_head(2)[OF ft(2) n(1,2), of n']
      by (auto simp: ea_is_blocked_def a_is_blocked_def Let_def rn(4) [symmetric])
  qed
qed

lemma peek_loop_eq:
  assumes "length (n_events n) = z_threshold z" "0 < z_threshold z"
  shows "peek_loop z cutoff n is v =
     Some (v + length (filter (\<lambda>i. n_events n ! ((n_event_head n + i) mod z_threshold z) > cutoff) is))"
  using assms by (induction "is" arbitrary: v) (auto simp: mod_thr_def ev_get_def)

lemma peek_refines:
  assumes doc: "memn2cmp_doc E" and z: "wf_zone z" and wf: "wf_sh E z sh" and now: "clock_ok now"
  shows "ea_peek E z sh key now = Some (a_peek z now key (zabs sh))"
proof -
  obtain r where r: "ea_lookup E sh (ngx_crc32_short E key) key = Some r"
    "case r of None \<Rightarrow> a_find key (zabs sh) = None \<and> (\<forall>b m. sh_heap sh b = Some m \<longrightarrow> n_data m \<noteq> key)
        | Some a \<Rightarrow> \<exists>n. sh_heap sh a = Some n \<and> n_data n = key \<and> a_find key (zabs sh) = Some (absn n)"
    using lookup_refines[OF doc wf] by blast
  note sat = sat_block[OF z now]
  have thr: "0 < z_threshold z" using wf_zoneD[OF z] by simp
  show ?thesis
  proof (cases r)
    case None
    then show ?thesis using r sat clock_okD[OF now] thr
      by (auto simp: ea_peek_def a_peek_def client_peek_def new_client_def Let_def)
  next
    case (Some a)
    then obtain n where n: "sh_heap sh a = Some n" "a_find key (zabs sh) = Some (absn n)" using r by auto
    have "length (n_events n) = z_threshold z" using wf_shD(6)[OF wf n(1)] by (simp add: wf_node_def)
    then have "peek_loop z cutoff n [0..<n_event_count n] 0 = Some (length (filter (\<lambda>e. e > cutoff) (ring n)))"
      for cutoff using peek_loop_eq[of n z] thr by (simp add: ring_def ring_of_def filter_map comp_def)
    then show ?thesis using r Some n sat
      by (auto simp: ea_peek_def a_peek_def client_peek_def Let_def cutoff_ok[OF z now])
  qed
qed

end
