(* ===== verification/EA_Example.thy ===== *)
theory EA_Example
  imports EA_Decide
begin

text \<open>
  One concrete zone with the environment \<open>ref_ngx\<close>: a threshold of two responses in sixty seconds,
  a ban of ten minutes.  Three stores follow each other: empty, after the first error response of a
  client at time 1000, and after its second at time 1010, which bans it.  The calls that lead from
  one to the next are evaluated here; the theorems of the later theories are applied to them.
\<close>

definition ex_zone :: zone where
  "ex_zone = \<lparr> z_name = [97], z_key = [107], z_statuses = replicate 75 255, z_interval = 60, z_block = 600,
     z_inactive = 3600, z_threshold = 2, z_persist = [], z_persist_secret = [], z_persist_interval = 0,
     z_redis = False, z_on_full_reject = False, z_shm_size = 65536 \<rparr>"

definition ex_key :: bytes where
  "ex_key = replicate 32 7"

definition ex_sh0 :: "(nat \<times> addr list) shctx" where
  "ex_sh0 = \<lparr> sh_rbtree = Leaf, sh_queue = [], sh_heap = Map.empty, sh_slab = (1, []),
     sh_fault_nth = -1, sh_fault_seen = 0 \<rparr>"

definition ex_node :: "time \<Rightarrow> time \<Rightarrow> nat \<Rightarrow> time list \<Rightarrow> node" where
  "ex_node ban seen cnt es = \<lparr> n_hash = ref_crc32 ex_key, n_blocked_until = ban, n_last_seen = seen,
     n_event_head = 0, n_event_count = cnt, n_key_len = 32, n_data = ex_key, n_events = es \<rparr>"

definition ex_sh :: "node \<Rightarrow> (nat \<times> addr list) shctx" where
  "ex_sh n = \<lparr> sh_rbtree = Node Leaf (1, False) Leaf, sh_queue = [1], sh_heap = [1 \<mapsto> n],
     sh_slab = (1, [1]), sh_fault_nth = -1, sh_fault_seen = 0 \<rparr>"

definition ex_sh1 :: "(nat \<times> addr list) shctx" where
  "ex_sh1 = ex_sh (ex_node 0 1000 1 [1000, 0])"

definition ex_sh2 :: "(nat \<times> addr list) shctx" where
  "ex_sh2 = ex_sh (ex_node 1610 1010 0 [1000, 1010])"

lemma ex_key_props [simp]: "length ex_key = DIGEST_LEN" "slice ex_key 0 32 = Some ex_key"
  by (simp_all add: ex_key_def slice_def scan_consts)

lemma ex_zone_wf [simp]: "wf_zone ex_zone"
  by (simp add: wf_zone_def ex_zone_def MAX_THRESHOLD_def MAX_SECONDS_def)

lemma ex_zone_sel [simp]:
  "z_threshold ex_zone = 2" "z_interval ex_zone = 60" "z_block ex_zone = 600" "z_inactive ex_zone = 3600"
  "z_on_full_reject ex_zone = False" "z_redis ex_zone = False" "z_statuses ex_zone = replicate 75 255"
  "z_persist_secret ex_zone = []" "z_shm_size ex_zone = 65536"
  by (simp_all add: ex_zone_def)

lemma ex_sat_add [simp]:
  "sat_add 1010 600 = 1610" "sat_add 1000 3600 = 4600" "sat_add 1010 3600 = 4610" "sat_add 1000 600 = 1600"
  by (simp_all add: sat_add_def ea_time_max_def)

lemma ex_clock [simp]: "clock_ok 1000" "clock_ok 1010" "clock_ok 1020"
  by (simp_all add: clock_ok_def ea_time_max_def)

lemma ex_sh0_wf [simp]: "wf_sh ref_ngx ex_zone ex_sh0"
  by (simp add: wf_sh_def ex_sh0_def)

lemma ex_docs [simp]: "store_doc ref_ngx" "memn2cmp_doc ref_ngx"
  by (rule ref_store_doc, rule ref_memn2cmp_doc)

lemma ex_sh_sel [simp]:
  "sh_queue (ex_sh n) = [1]" "sh_heap (ex_sh n) = [1 \<mapsto> n]" "set_node (ex_sh n) (Suc 0) m = ex_sh m"
  by (simp_all add: ex_sh_def set_node_def)

lemma ex_node_sel [simp]:
  "n_hash (ex_node b s c es) = ref_crc32 ex_key" "n_blocked_until (ex_node b s c es) = b"
  "n_last_seen (ex_node b s c es) = s" "n_event_head (ex_node b s c es) = 0"
  "n_event_count (ex_node b s c es) = c" "n_key_len (ex_node b s c es) = 32"
  "n_data (ex_node b s c es) = ex_key" "n_events (ex_node b s c es) = es"
  "(ex_node b s c es) \<lparr> n_last_seen := s' \<rparr> = ex_node b s' c es"
  by (simp_all add: ex_node_def)

text \<open>Ageing leaves a client that was seen recently; an empty queue has nothing to age.\<close>

lemma expire_empty: "sh_queue sh = [] \<Longrightarrow> ea_expire E z sh now k = Some sh"
  by (cases k) auto

lemma ex_expire:
  "0 \<le> s \<Longrightarrow> s < 2 ^ 63 \<Longrightarrow> now < sat_add s 3600 \<Longrightarrow>
   ea_expire E ex_zone (ex_sh (ex_node b s c es)) now k = Some (ex_sh (ex_node b s c es))"
  by (cases k) (auto simp: Let_def)

lemma ex_lookup: "ea_lookup ref_ngx (ex_sh (ex_node b s c es)) (ref_crc32 ex_key) ex_key = Some (Some 1)"
  by (simp add: ea_lookup_def ex_sh_def Let_def ref_memn2cmp_def)

lemma ex_touch: "ea_touch (ex_sh n) (Suc 0) = Some (ex_sh n)"
  by (simp add: ea_touch_def queue_remove_def ex_sh_def)

lemma ex_find_touch0: "ea_find_touch_locked ref_ngx ex_zone ex_sh0 h ex_key now = Some (None, ex_sh0)"
  by (simp add: ea_find_touch_locked_def expire_empty ex_sh0_def ea_lookup_def)

lemma ex_find_touch:
  "0 \<le> s \<Longrightarrow> s < 2 ^ 63 \<Longrightarrow> now < sat_add s 3600 \<Longrightarrow>
   ea_find_touch_locked ref_ngx ex_zone (ex_sh (ex_node b s c es)) (ref_crc32 ex_key) ex_key now
     = Some (Some 1, ex_sh (ex_node b now c es))"
  by (simp add: ea_find_touch_locked_def ex_expire ex_lookup ex_touch Let_def)

lemma ex_create: "ea_create_node ref_ngx ex_zone ex_sh0 (ref_crc32 ex_key) ex_key 1000
   = Some (Some 1, ex_sh (ex_node 0 1000 0 [0, 0]))"
  by (simp add: ea_create_node_def ea_slab_alloc_locked_def ref_slab_alloc_def Let_def ex_sh0_def
      scan_consts ex_sh_def ex_node_def numeral_2_eq_2)

lemma ex_record_node1: "record_node ex_zone (ex_node 0 1000 0 [0, 0]) 1000
   = Some (NGX_OK, (1, 0), ex_node 0 1000 1 [1000, 0])"
  by (simp add: record_node_def ea_prune_events_def t_sub_def time_rep_def mod_thr_def ev_set_def Let_def
      ex_node_def)

lemma ex_record_node2: "record_node ex_zone (ex_node 0 1010 (Suc 0) [1000, 0]) 1010
   = Some (NGX_BUSY, (2, 1610), ex_node 1610 1010 0 [1000, 1010])"
  by (simp add: record_node_def ea_prune_events_def t_sub_def time_rep_def mod_thr_def ev_set_def ev_get_def Let_def
      ex_node_def)

lemma ex_record1: "ea_record ref_ngx ex_zone ex_sh0 ex_key 1000 out = Some (NGX_OK, (1, 0), ex_sh1)"
  by (simp add: ea_record_def ex_find_touch0 ex_create ex_record_node1 Let_def ex_sh1_def)

lemma ex_record2: "ea_record ref_ngx ex_zone ex_sh1 ex_key 1010 out = Some (NGX_BUSY, (2, 1610), ex_sh2)"
  by (simp add: ea_record_def ex_find_touch ex_record_node2 Let_def ex_sh1_def ex_sh2_def)

lemma ex_blocked2: "ea_is_blocked ref_ngx ex_zone ex_sh2 ex_key 1020
   = Some (NGX_OK, (2, 1610), ex_sh (ex_node 1610 1020 0 [1000, 1010]))"
  by (simp add: ea_is_blocked_def ex_find_touch is_blocked_node_def Let_def ex_sh2_def)

text \<open>The stores after the first and the second response are well formed, and so is what they hold.\<close>

lemma ex_sh1_wf [simp]: "wf_sh ref_ngx ex_zone ex_sh1"
  using record_refines[of ref_ngx ex_zone ex_sh0 1000 ex_key "(0, 0)"] by (auto simp: ex_record1 scan_consts)

lemma ex_sh2_wf [simp]: "wf_sh ref_ngx ex_zone ex_sh2"
  using record_refines[of ref_ngx ex_zone ex_sh1 1010 ex_key "(0, 0)"] by (auto simp: ex_record2 scan_consts)

lemma ex_zabs [simp]:
  "zabs ex_sh0 = []"
  "zabs ex_sh1 = [\<lparr> c_key = ex_key, c_ban = 0, c_seen = 1000, c_events = [1000] \<rparr>]"
  "zabs ex_sh2 = [\<lparr> c_key = ex_key, c_ban = 1610, c_seen = 1010, c_events = [] \<rparr>]"
  by (simp_all add: zabs_def ex_sh0_def ex_sh1_def ex_sh2_def absn_def ring_def ring_of_def)

end
