(* ===== verification/EA_Trace.thy ===== *)
theory EA_Trace
  imports EA_Example
begin

text \<open>
  Runs of a zone: any interleaving of the locked operations of any number of workers on any
  clients, with a clock that does not go back.  On runs the theory proves the two promises of the
  module: a ban stays in force until it ends, and nobody is banned without having earned it.
\<close>

section \<open>Runs of a step relation\<close>

inductive run :: "('st \<Rightarrow> 'l \<Rightarrow> 'st \<Rightarrow> bool) \<Rightarrow> 'st \<Rightarrow> 'l list \<Rightarrow> 'st \<Rightarrow> bool"
  for step where
  run_Nil: "run step s [] s"
| run_snoc: "run step s tr s' \<Longrightarrow> step s' l s'' \<Longrightarrow> run step s (tr @ [l]) s''"

inductive_cases run_NilE: "run step s [] s'"
inductive_cases run_snocE: "run step s (tr @ [l]) s'"

text \<open>A system with an invariant that every step keeps.\<close>

locale invariant_system =
  fixes step :: "'st \<Rightarrow> 'l \<Rightarrow> 'st \<Rightarrow> bool"
    and inv :: "'st \<Rightarrow> bool"
  assumes step_inv: "inv s \<Longrightarrow> step s l s' \<Longrightarrow> inv s'"
begin

lemma run_inv: "run step s tr s' \<Longrightarrow> inv s \<Longrightarrow> inv s'"
  by (induction rule: run.induct) (auto intro: step_inv)

end

text \<open>
  One that also has a clock that does not go back, and a duty that a state carries
  towards a deadline: if each step before the deadline keeps the duty, so does each run.
\<close>

locale timed_system = invariant_system +
  fixes clock :: "'a \<Rightarrow> time"
    and duty :: "time \<Rightarrow> 'a \<Rightarrow> bool"
  assumes step_clock: "inv s \<Longrightarrow> step s l s' \<Longrightarrow> clock s \<le> clock s'"
    and step_duty: "inv s \<Longrightarrow> duty u s \<Longrightarrow> step s l s' \<Longrightarrow> clock s' < u \<Longrightarrow> duty u s'"
begin

lemma run_clock: "run step s tr s' \<Longrightarrow> inv s \<Longrightarrow> clock s \<le> clock s'"
  by (induction rule: run.induct) (auto dest: run_inv step_clock intro: order_trans)

lemma run_duty: "run step s tr s' \<Longrightarrow> inv s \<Longrightarrow> duty u s \<Longrightarrow> clock s' < u \<Longrightarrow> duty u s'"
proof (induction rule: run.induct)
  case (run_snoc s tr s' l s'')
  have "inv s'" using run_inv run_snoc by blast
  moreover have "clock s' < u" using step_clock[OF \<open>inv s'\<close>] run_snoc by fastforce
  ultimately show ?case using run_snoc step_duty by blast
qed simp

end

section \<open>The zone as a step relation\<close>

datatype zlabel =
    L_record bytes time ngx_rc "nat \<times> time"
  | L_is_blocked bytes time ngx_rc "nat \<times> time"
  | L_peek bytes time "nat \<times> time \<times> bool"

text \<open>A state is the time of the last operation and the store.\<close>

inductive zone_step ::
  "'s ngx \<Rightarrow> zone \<Rightarrow> time \<times> 's shctx \<Rightarrow> zlabel \<Rightarrow> time \<times> 's shctx \<Rightarrow> bool" for E z where
  step_record: "t \<le> now \<Longrightarrow> clock_ok now \<Longrightarrow> length key = DIGEST_LEN \<Longrightarrow>
     ea_record E z sh key now out = Some (rc, out', sh') \<Longrightarrow>
     zone_step E z (t, sh) (L_record key now rc out') (now, sh')"
| step_is_blocked: "t \<le> now \<Longrightarrow> clock_ok now \<Longrightarrow> length key = DIGEST_LEN \<Longrightarrow>
     ea_is_blocked E z sh key now = Some (rc, out', sh') \<Longrightarrow>
     zone_step E z (t, sh) (L_is_blocked key now rc out') (now, sh')"
| step_peek: "t \<le> now \<Longrightarrow> clock_ok now \<Longrightarrow> length key = DIGEST_LEN \<Longrightarrow>
     ea_peek E z sh key now = Some res \<Longrightarrow>
     zone_step E z (t, sh) (L_peek key now res) (now, sh)"

inductive_cases zone_stepE: "zone_step E z s l s'"
inductive_simps zone_step_record_iff: "zone_step E z (t, sh) (L_record key now rc out) (t', sh')"
inductive_simps zone_step_blocked_iff: "zone_step E z (t, sh) (L_is_blocked key now rc out) (t', sh')"

abbreviation zone_run where "zone_run E z \<equiv> run (zone_step E z)"

definition zone_inv :: "'s ngx \<Rightarrow> zone \<Rightarrow> time \<times> 's shctx \<Rightarrow> bool" where
  "zone_inv E z s \<longleftrightarrow> store_doc E \<and> wf_zone z \<and> wf_sh E z (snd s)"

text \<open>The client list after a step, from the refinements.\<close>

lemma zone_step_abs:
  assumes "zone_inv E z s" "zone_step E z s l s'"
  shows "zone_inv E z s' \<and> fst s \<le> fst s' \<and> clock_ok (fst s')
     \<and> (case l of
          L_record k now rc out' \<Rightarrow> now = fst s' \<and> length k = DIGEST_LEN
            \<and> (\<exists>out. a_record z now k (zabs (snd s)) out (rc, out', zabs (snd s')))
        | L_is_blocked k now rc out' \<Rightarrow> now = fst s' \<and> (rc, out', zabs (snd s')) = a_is_blocked z now k (zabs (snd s))
        | L_peek k now res \<Rightarrow> now = fst s' \<and> snd s' = snd s \<and> res = a_peek z now k (zabs (snd s)))"
  using assms(2)
proof cases
  case (step_record t now key sh out rc out' sh')
  then have "store_doc E" "wf_zone z" "wf_sh E z sh" using assms(1) by (auto simp: zone_inv_def)
  with record_refines[OF this step_record(5,6), of out] step_record show ?thesis
    by (cases out) (auto simp: zone_inv_def)
next
  case (step_is_blocked t now key sh rc out' sh')
  then have "store_doc E" "wf_zone z" "wf_sh E z sh" using assms(1) by (auto simp: zone_inv_def)
  with is_blocked_refines[OF this step_is_blocked(5), of key] step_is_blocked show ?thesis
    by (auto simp: zone_inv_def)
next
  case (step_peek t now key sh res)
  then have "memn2cmp_doc E" "wf_zone z" "wf_sh E z sh" using assms(1) by (auto simp: zone_inv_def)
  with peek_refines[OF this step_peek(5), of key] step_peek assms(1) show ?thesis
    by (auto simp: zone_inv_def)
qed

section \<open>A ban stays in force\<close>

definition banned :: "bytes \<Rightarrow> time \<Rightarrow> client list \<Rightarrow> bool" where
  "banned k u cs \<longleftrightarrow> (\<exists>c \<in> set cs. c_key c = k \<and> c_ban c = u)"

lemma sheds_banned: "sheds now cs cs' \<Longrightarrow> now < u \<Longrightarrow> banned k u cs \<Longrightarrow> banned k u cs'"
  unfolding sheds_def banned_def by (metis DiffI not_less)

lemma expire_prefix: "\<exists>m. a_expire z now limit cs = take m cs"
proof (induction limit arbitrary: cs)
  case 0
  show ?case by (rule exI[of _ "length cs"]) simp
next
  case (Suc limit)
  obtain m where "a_expire z now limit (butlast cs) = take m (butlast cs)" using Suc by blast
  then have "a_expire z now (Suc limit) cs = take (min m (length cs - 1)) cs
      \<or> a_expire z now (Suc limit) cs = take (length cs) cs"
    by (simp add: butlast_conv_take)
  then show ?case by blast
qed

lemma find_touch_cases:
  obtains (untracked) "a_find_touch z now k cs = (None, a_expire z now 2 cs)" "a_find k (a_expire z now 2 cs) = None"
    | (tracked) c where "a_find_touch z now k cs = (Some (c \<lparr> c_seen := now \<rparr>), a_drop k (a_expire z now 2 cs))"
        "c \<in> set (a_expire z now 2 cs)" "c \<in> set cs" "c_key c = k"
proof (cases "a_find k (a_expire z now 2 cs)")
  case None
  then show ?thesis by (intro untracked) (simp_all add: a_find_touch_def Let_def)
next
  case (Some c)
  moreover have "c \<in> set cs" "c_key c = k"
    using a_find_set[OF Some] expire_prefix[of z now 2 cs] by (auto dest: in_set_takeD)
  ultimately show ?thesis using a_find_set[OF Some]
    by (intro tracked[of c]) (auto simp: a_find_touch_def Let_def)
qed

lemma distinct_keys_eq:
  "distinct (map c_key cs) \<Longrightarrow> c \<in> set cs \<Longrightarrow> d \<in> set cs \<Longrightarrow> c_key c = c_key d \<Longrightarrow> c = d"
  by (auto simp: distinct_map inj_on_def)

text \<open>Putting the touched client back, with its ban unchanged while it lasts, keeps every ban.\<close>

lemma find_touch_banned:
  assumes "distinct (map c_key cs)" "banned k u cs" "now < u"
    and "a_find_touch z now k' cs = (r, rest)"
    and "\<And>c. r = Some c \<Longrightarrow> now < c_ban c \<Longrightarrow> c_ban (f c) = c_ban c"
    and "\<And>c. r = Some c \<Longrightarrow> c_key (f c) = c_key c"
  shows "case r of None \<Rightarrow> banned k u rest \<and> k \<noteq> k' | Some c \<Rightarrow> banned k u (f c # rest) \<and> (k = k' \<longrightarrow> c_ban c = u)"
proof -
  have b: "banned k u (a_expire z now 2 cs)" using sheds_banned[OF sheds_expire] assms by blast
  show ?thesis
  proof (cases rule: find_touch_cases[of z now k' cs])
    case untracked
    then show ?thesis using assms(4) b by (auto simp: banned_def a_find_None)
  next
    case (tracked c)
    have r: "r = Some (c \<lparr> c_seen := now \<rparr>)" "rest = a_drop k' (a_expire z now 2 cs)"
      using assms(4) tracked(1) by simp_all
    obtain d where d: "d \<in> set (a_expire z now 2 cs)" "c_key d = k" "c_ban d = u"
      using b by (auto simp: banned_def)
    then have "d \<in> set cs" using expire_prefix[of z now 2 cs] by (auto dest: in_set_takeD)
    show ?thesis
    proof (cases "k = k'")
      case True
      then have "d = c" using distinct_keys_eq[OF assms(1) \<open>d \<in> set cs\<close> tracked(3)] d tracked(4) by simp
      then show ?thesis using assms(3,5,6) r d True by (auto simp: banned_def)
    next
      case False
      then show ?thesis using d r by (auto simp: banned_def a_drop_def)
    qed
  qed
qed

lemma client_record_ban:
  assumes "client_record z now c = (rc, out', c')"
  shows "c_key c' = c_key c" "c_seen c' = c_seen c"
    "now < c_ban c \<Longrightarrow> c' = c \<and> rc = NGX_BUSY \<and> out' = (z_threshold z, c_ban c)"
  using assms by (auto simp: client_record_def Let_def split: if_splits)

lemma client_is_blocked_ban:
  assumes "client_is_blocked z now c = (rc, out', c')"
  shows "c_key c' = c_key c" "c_seen c' = c_seen c"
    "now < c_ban c \<Longrightarrow> c' = c \<and> rc = NGX_OK \<and> out' = (z_threshold z, c_ban c)"
  using assms by (auto simp: client_is_blocked_def Let_def split: if_splits)

lemma is_blocked_banned:
  assumes "distinct (map c_key cs)" "banned k u cs" "now < u" "a_is_blocked z now k' cs = (rc, out, cs')"
  shows "banned k u cs'" "k = k' \<Longrightarrow> rc = NGX_OK \<and> out = (z_threshold z, u)"
proof -
  obtain r rest where ft: "a_find_touch z now k' cs = (r, rest)" by fastforce
  let ?f = "\<lambda>c. snd (snd (client_is_blocked z now c))"
  have "case r of None \<Rightarrow> banned k u rest \<and> k \<noteq> k' | Some c \<Rightarrow> banned k u (?f c # rest) \<and> (k = k' \<longrightarrow> c_ban c = u)"
    by (rule find_touch_banned[OF assms(1-3) ft])
       (auto simp: client_is_blocked_def Let_def)
  then show "banned k u cs'" "k = k' \<Longrightarrow> rc = NGX_OK \<and> out = (z_threshold z, u)"
    using assms(3,4) ft
    by (auto simp: a_is_blocked_def Let_def client_is_blocked_def split: option.splits prod.splits if_splits)
qed

lemma record_banned:
  assumes "distinct (map c_key cs)" "banned k u cs" "now < u" "a_record z now k' cs out (rc, out', cs')"
  shows "banned k u cs'" "k = k' \<Longrightarrow> rc = NGX_BUSY \<and> out' = (z_threshold z, u)"
proof -
  obtain r rest where ft: "a_find_touch z now k' cs = (r, rest)" by fastforce
  let ?f = "\<lambda>c. snd (snd (client_record z now c))"
  have *: "case r of None \<Rightarrow> banned k u rest \<and> k \<noteq> k' | Some c \<Rightarrow> banned k u (?f c # rest) \<and> (k = k' \<longrightarrow> c_ban c = u)"
    by (rule find_touch_banned[OF assms(1-3) ft])
       (auto simp: client_record_def Let_def)
  have shed: "banned k u cs1" if "sheds now cs cs1" for cs1
    using sheds_banned[OF that assms(3,2)] .
  then have "\<forall>c cs1. sheds now cs cs1 \<longrightarrow> banned k u (c # cs1)" by (auto simp: banned_def)
  with * shed assms(3,4) ft show "banned k u cs'" "k = k' \<Longrightarrow> rc = NGX_BUSY \<and> out' = (z_threshold z, u)"
    by (auto simp: a_record_def Let_def client_record_def split: option.splits prod.splits if_splits)
qed

definition zone_duty :: "bytes \<Rightarrow> time \<Rightarrow> time \<times> 's shctx \<Rightarrow> bool" where
  "zone_duty k u s \<longleftrightarrow> banned k u (zabs (snd s))"

lemma zone_step_duty:
  assumes inv: "zone_inv E z s" and duty: "zone_duty k u s" and step: "zone_step E z s l s'" and u: "fst s' < u"
  shows "zone_duty k u s'"
proof -
  have keys: "distinct (map c_key (zabs (snd s)))"
    using inv wf_zabs_keys by (auto simp: zone_inv_def)
  note abs = zone_step_abs[OF inv step]
  show ?thesis
  proof (cases l)
    case (L_record k' now rc out')
    then obtain out where "a_record z (fst s') k' (zabs (snd s)) out (rc, out', zabs (snd s'))" using abs by auto
    from record_banned(1)[OF keys _ u this] duty show ?thesis by (simp add: zone_duty_def)
  next
    case (L_is_blocked k' now rc out')
    then have "a_is_blocked z (fst s') k' (zabs (snd s)) = (rc, out', zabs (snd s'))" using abs by auto
    from is_blocked_banned(1)[OF keys _ u this] duty show ?thesis by (simp add: zone_duty_def)
  next
    case (L_peek k' now res)
    then show ?thesis using abs duty by (simp add: zone_duty_def)
  qed
qed

interpretation zn: timed_system "zone_step E z" "zone_inv E z" fst "zone_duty k"
  for E :: "'s ngx" and z k
  by unfold_locales (auto dest: zone_step_abs intro: zone_step_duty)

text \<open>After any run, a client with a ban that lasts is found banned.\<close>

lemma banned_run:
  assumes "zone_inv E z s" "banned k u (zabs (snd s))" "zone_run E z s tr s'" "fst s' \<le> t" "clock_ok t" "t < u"
  shows "\<exists>sh. ea_is_blocked E z (snd s') k t = Some (NGX_OK, (z_threshold z, u), sh) \<and> banned k u (zabs sh)"
proof -
  have inv: "zone_inv E z s'" using zn.run_inv assms by blast
  have b: "banned k u (zabs (snd s'))" using zn.run_duty[OF assms(3,1), of k u] assms(2,4,6) by (simp add: zone_duty_def)
  obtain rc out sh where r: "ea_is_blocked E z (snd s') k t = Some (rc, out, sh)"
    "(rc, out, zabs sh) = a_is_blocked z t k (zabs (snd s'))"
    using is_blocked_refines assms(5) inv unfolding zone_inv_def by blast
  have "distinct (map c_key (zabs (snd s')))" using inv wf_zabs_keys by (auto simp: zone_inv_def)
  from is_blocked_banned[OF this b assms(6) r(2)[symmetric]] r(1) show ?thesis by simp
qed

section \<open>Nobody is banned without having earned it\<close>

text \<open>The times at which responses of a client were counted in a trace.\<close>

fun rec_time :: "bytes \<Rightarrow> zlabel \<Rightarrow> time list" where
  "rec_time k (L_record k' now rc out) = (if k' = k \<and> rc \<noteq> NGX_ERROR then [now] else [])"
| "rec_time k _ = []"

definition rec_times :: "bytes \<Rightarrow> zlabel list \<Rightarrow> time list" where
  "rec_times k tr = concat (map (rec_time k) tr)"

lemma rec_times_simps [simp]:
  "rec_times k [] = []" "rec_times k (tr @ [l]) = rec_times k tr @ rec_time k l"
  by (simp_all add: rec_times_def)

text \<open>A ban is earned at \<open>t\<close> by at least the threshold of counted responses in the window that
  ends there.\<close>

definition earned :: "zone \<Rightarrow> zlabel list \<Rightarrow> bytes \<Rightarrow> time \<Rightarrow> bool" where
  "earned z tr k u \<longleftrightarrow> (\<exists>t. u = sat_add t (z_block z)
     \<and> z_threshold z \<le> length (filter (\<lambda>e. t - z_interval z < e \<and> e \<le> t) (rec_times k tr)))"

text \<open>What the engine keeps true of each client: a sorted ring of counted responses.\<close>

definition client_ok :: "zone \<Rightarrow> time \<Rightarrow> client \<Rightarrow> bool" where
  "client_ok z now c \<longleftrightarrow>
     sorted (c_events c) \<and> (\<forall>e \<in> set (c_events c). e \<le> c_seen c) \<and> c_seen c \<le> now
   \<and> length (c_events c) < z_threshold z \<and> (c_ban c \<noteq> 0 \<longrightarrow> c_events c = [])"

definition hist_ok :: "zone \<Rightarrow> zlabel list \<Rightarrow> time \<Rightarrow> client \<Rightarrow> bool" where
  "hist_ok z tr now c \<longleftrightarrow> client_ok z now c \<and> mset (c_events c) \<subseteq># mset (rec_times (c_key c) tr)
     \<and> (c_ban c \<noteq> 0 \<longrightarrow> earned z tr (c_key c) (c_ban c))"

lemma earned_mono: "earned z tr k u \<Longrightarrow> earned z (tr @ [l]) k u"
  by (auto simp: earned_def intro: le_trans)

lemma hist_ok_mono:
  "hist_ok z tr now c \<Longrightarrow> now \<le> now' \<Longrightarrow> hist_ok z (tr @ [l]) now' c"
  by (auto simp: hist_ok_def client_ok_def earned_mono intro: subset_mset.order_trans)

lemma mset_in_window: "mset (in_window z now es) \<subseteq># mset es"
  unfolding in_window_def
  by (metis mset_append mset_subset_eq_add_right takeWhile_dropWhile_id)

lemma set_in_window: "set (in_window z now es) \<subseteq> set es"
  unfolding in_window_def by (auto dest: set_dropWhileD)

lemma length_in_window: "length (in_window z now es) \<le> length es"
  by (simp add: in_window_def length_dropWhile_le)

lemma sorted_in_window:
  assumes "sorted es"
  shows "sorted (in_window z now es)" "\<forall>e \<in> set (in_window z now es). now - z_interval z < e"
    "in_window z now es = filter (\<lambda>e. e > now - z_interval z) es"
proof -
  show f: "in_window z now es = filter (\<lambda>e. e > now - z_interval z) es"
    using assms unfolding in_window_def by (induction es) (force intro!: sym [OF iffD2 [OF filter_id_conv]])+
  show "sorted (in_window z now es)" "\<forall>e \<in> set (in_window z now es). now - z_interval z < e"
    using assms unfolding f by (auto intro: sorted_wrt_filter)
qed

lemma filter_mset_length: "mset xs \<subseteq># mset ys \<Longrightarrow> \<forall>x \<in> set xs. P x \<Longrightarrow> length xs \<le> length (filter P ys)"
proof -
  assume "mset xs \<subseteq># mset ys" and P: "\<forall>x \<in> set xs. P x"
  then have "filter_mset P (mset xs) \<subseteq># filter_mset P (mset ys)" by (intro multiset_filter_mono)
  moreover have "filter P xs = xs" using P by (simp add: filter_id_conv)
  ultimately have "mset xs \<subseteq># mset (filter P ys)" using mset_filter[of P xs] mset_filter[of P ys] by simp
  then have "size (mset xs) \<le> size (mset (filter P ys))" by (rule size_mset_mono)
  then show ?thesis by (simp only: size_mset)
qed

text \<open>Counting a response and asking for the state keep the history invariant of the client.\<close>

lemma client_record_hist:
  assumes z: "wf_zone z" and now: "clock_ok now" and c: "hist_ok z tr t c" "t \<le> now" "c_seen c \<le> now"
    and r: "client_record z now (c \<lparr> c_seen := now \<rparr>) = (rc, out, c')"
  shows "hist_ok z (tr @ [L_record (c_key c) now rc out]) now c' \<and> rc \<noteq> NGX_ERROR"
proof (cases "now < c_ban c")
  case True
  then have r': "rc = NGX_BUSY" "c' = c \<lparr> c_seen := now \<rparr>" using r by (auto simp: client_record_def)
  have "\<forall>e \<in> set (c_events c). e \<le> now" using c by (auto simp: hist_ok_def client_ok_def)
  moreover have "mset (c_events c) \<subseteq># mset (rec_times (c_key c) tr @ [now])"
    using c(1) by (auto simp: hist_ok_def intro: subset_mset.order_trans)
  ultimately show ?thesis using c(1) by (simp add: r' hist_ok_def client_ok_def earned_mono)
next
  case False
  define es where "es = (if c_ban c \<noteq> 0 then [] else in_window z now (c_events c))"
  have srt: "sorted (c_events c)" "\<forall>e \<in> set (c_events c). e \<le> now"
    using c by (auto simp: hist_ok_def client_ok_def)
  have es: "sorted (es @ [now])" "\<forall>e \<in> set (es @ [now]). now - z_interval z < e \<and> e \<le> now"
    "mset (es @ [now]) \<subseteq># mset (rec_times (c_key c) tr @ [now])"
  proof -
    have w: "sorted es" "\<forall>e \<in> set es. now - z_interval z < e" "\<forall>e \<in> set es. e \<le> now"
      using sorted_in_window(1,2)[OF srt(1), of z now] set_in_window[of z now "c_events c"] srt(2)
      by (auto simp: es_def)
    show "sorted (es @ [now])" using w by (simp add: sorted_append)
    show "\<forall>e \<in> set (es @ [now]). now - z_interval z < e \<and> e \<le> now"
      using w wf_zoneD[OF z] by auto
    have "mset es \<subseteq># mset (c_events c)" using mset_in_window by (simp add: es_def)
    also have "\<dots> \<subseteq># mset (rec_times (c_key c) tr)" using c by (simp add: hist_ok_def)
    finally show "mset (es @ [now]) \<subseteq># mset (rec_times (c_key c) tr @ [now])" by simp
  qed
  have rc: "(rc, out, c') = (if Suc (length es) \<ge> z_threshold z
      then (NGX_BUSY, (z_threshold z, sat_add now (z_block z)),
            c \<lparr> c_seen := now, c_ban := sat_add now (z_block z), c_events := [] \<rparr>)
      else (NGX_OK, (Suc (length es), 0), c \<lparr> c_seen := now, c_ban := 0, c_events := es @ [now] \<rparr>))"
    using False r by (auto simp: client_record_def Let_def es_def split: if_splits)
  show ?thesis
  proof (cases "Suc (length es) \<ge> z_threshold z")
    case True
    have "length (es @ [now]) \<le> length (filter (\<lambda>e. now - z_interval z < e \<and> e \<le> now) (rec_times (c_key c) tr @ [now]))"
      by (rule filter_mset_length[OF es(3,2)])
    then have "earned z (tr @ [L_record (c_key c) now rc out]) (c_key c) (sat_add now (z_block z))"
      unfolding earned_def using True rc by (intro exI[of _ now]) auto
    then show ?thesis using rc True wf_zoneD[OF z] by (auto simp: hist_ok_def client_ok_def)
  next
    case False
    then show ?thesis using rc es by (auto simp: hist_ok_def client_ok_def)
  qed
qed

lemma client_is_blocked_hist:
  assumes c: "hist_ok z tr t c" "t \<le> now"
    and r: "client_is_blocked z now (c \<lparr> c_seen := now \<rparr>) = (rc, out, c')"
  shows "hist_ok z (tr @ [l]) now c'"
proof -
  define es where "es = in_window z now (c_events c)"
  have le: "\<forall>e \<in> set (c_events c). e \<le> now" "sorted (c_events c)"
    using c by (auto simp: hist_ok_def client_ok_def)
  then have "sorted es" "\<forall>e \<in> set es. e \<le> now" "\<forall>e \<in> set (c_events c). e \<le> now" "length es \<le> length (c_events c)"
    using sorted_in_window(1)[of "c_events c" z now] set_in_window[of z now "c_events c"]
      length_in_window[of z now "c_events c"]
    by (auto simp: es_def)
  moreover have "mset es \<subseteq># mset (rec_times (c_key c) tr)" "mset (c_events c) \<subseteq># mset (rec_times (c_key c) tr)"
    using c mset_in_window[of z now "c_events c"] by (auto simp: hist_ok_def es_def intro: subset_mset.order_trans)
  ultimately show ?thesis using c r
    by (auto simp: client_is_blocked_def Let_def hist_ok_def client_ok_def earned_mono es_def [symmetric]
        intro: subset_mset.order_trans split: if_splits)
qed

lemma a_record_untracked:
  assumes "a_find_touch z now k cs = (None, cs1)" "a_record z now k cs out (rc, out', cs')"
  obtains (refused) "rc = NGX_ERROR" "out' = out" "sheds now cs cs'"
      "\<forall>c \<in> set (take EVICT_SCAN_LIMIT cs'). now < c_ban c"
    | (created) c' rest where "sheds now cs rest" "cs' = c' # rest"
      "client_record z now (new_client k now) = (rc, out', c')"
  using assms(2) by (cases "client_record z now (new_client k now)") (auto simp: a_record_def assms(1))

lemma a_record_tracked:
  assumes "a_find_touch z now k cs = (Some c, rest)" "a_record z now k cs out (rc, out', cs')"
  obtains c' where "client_record z now c = (rc, out', c')" "cs' = c' # rest"
  using assms(2) by (cases "client_record z now c") (auto simp: a_record_def assms(1))

lemma find_touch_all:
  assumes "a_find_touch z now k cs = (r, rest)" "\<forall>c \<in> set cs. P c"
  shows "\<forall>c \<in> set rest. P c" "r = Some c \<Longrightarrow> \<exists>d. P d \<and> c_key d = k \<and> c = d \<lparr> c_seen := now \<rparr>"
  using assms by (cases rule: find_touch_cases[of z now k cs];
    auto simp: a_drop_def dest: sheds_all[OF sheds_expire])+

lemma hist_ok_new: "wf_zone z \<Longrightarrow> hist_ok z tr now (new_client k now)"
  by (auto simp: hist_ok_def client_ok_def new_client_def dest: wf_zoneD)

lemma zone_step_hist:
  assumes inv: "zone_inv E z s" and step: "zone_step E z s l s'"
    and h: "\<forall>c \<in> set (zabs (snd s)). hist_ok z tr (fst s) c"
  shows "\<forall>c \<in> set (zabs (snd s')). hist_ok z (tr @ [l]) (fst s') c"
proof -
  note abs = zone_step_abs[OF inv step]
  have z: "wf_zone z" using inv by (simp add: zone_inv_def)
  have now: "clock_ok (fst s')" "fst s \<le> fst s'" using abs by simp_all
  have mono: "\<forall>c \<in> set (zabs (snd s)). hist_ok z (tr @ [l']) (fst s') c" for l'
    using h hist_ok_mono now(2) by blast
  show ?thesis
  proof (cases l)
    case (L_record k t rc out')
    then obtain out where rec: "a_record z (fst s') k (zabs (snd s)) out (rc, out', zabs (snd s'))"
      and t: "t = fst s'" using abs by auto
    obtain r rest where ft: "a_find_touch z (fst s') k (zabs (snd s)) = (r, rest)" by fastforce
    note rest = find_touch_all(1)[OF ft mono]
    show ?thesis
    proof (cases r)
      case (Some c)
      obtain d where d: "hist_ok z tr (fst s) d" "c_key d = k" "c = d \<lparr> c_seen := fst s' \<rparr>"
        using find_touch_all(2)[OF ft h Some] by blast
      have "c_seen d \<le> fst s'" using d(1) now by (simp add: hist_ok_def client_ok_def)
      obtain c' where c': "client_record z (fst s') c = (rc, out', c')" "zabs (snd s') = c' # rest"
        using a_record_tracked[OF ft[unfolded Some] rec] by blast
      then have "hist_ok z (tr @ [l]) (fst s') c'"
        using client_record_hist[OF z now(1) d(1) now(2) \<open>c_seen d \<le> fst s'\<close>] d L_record t by auto
      then show ?thesis using rest c'(2) by simp
    next
      case None
      show ?thesis
      proof (rule a_record_untracked [OF ft [unfolded None] rec], goal_cases refused created)
        case refused
        then show ?thesis using sheds_all mono by blast
      next
        case (created c' cs')
        have "hist_ok z tr (fst s') (new_client k (fst s'))" using hist_ok_new[OF z] .
        from client_record_hist[OF z now(1) this, of rc out' c'] created(3)
        have "hist_ok z (tr @ [l]) (fst s') c'" using L_record t by (simp add: new_client_def)
        then show ?thesis using created sheds_all[OF created(1) mono] by simp
      qed
    qed
  next
    case (L_is_blocked k t rc out')
    then have blk: "(rc, out', zabs (snd s')) = a_is_blocked z (fst s') k (zabs (snd s))" using abs by auto
    obtain r rest where ft: "a_find_touch z (fst s') k (zabs (snd s)) = (r, rest)" by fastforce
    note rest = find_touch_all(1)[OF ft mono]
    show ?thesis
    proof (cases r)
      case None
      then show ?thesis using blk ft rest by (simp add: a_is_blocked_def)
    next
      case (Some c)
      obtain d where d: "hist_ok z tr (fst s) d" "c = d \<lparr> c_seen := fst s' \<rparr>"
        using find_touch_all(2)[OF ft h Some] by blast
      obtain c' where "client_is_blocked z (fst s') c = (rc, out', c')" "zabs (snd s') = c' # rest"
        using blk ft Some by (auto simp: a_is_blocked_def Let_def split: prod.splits)
      then show ?thesis using client_is_blocked_hist[OF d(1) now(2)] d rest by auto
    qed
  next
    case (L_peek k t res)
    then show ?thesis using abs mono by simp
  qed
qed

lemma zone_run_hist:
  assumes "zone_run E z s tr s'" "zone_inv E z s" "zabs (snd s) = []"
  shows "zone_inv E z s' \<and> (\<forall>c \<in> set (zabs (snd s')). hist_ok z tr (fst s') c)"
  using assms
proof (induction rule: run.induct)
  case (run_snoc s tr s' l s'')
  then have "zone_inv E z s'" "\<forall>c \<in> set (zabs (snd s')). hist_ok z tr (fst s') c" by simp_all
  with zone_step_hist[OF this(1) run_snoc(2) this(2)] zone_step_abs[OF this(1) run_snoc(2)]
  show ?case by simp
qed simp

section \<open>Ageing and forecasts\<close>

lemma window_empty:
  assumes "\<forall>e \<in> set es. e \<le> now - z_interval z"
  shows "in_window z now es = []" "filter (\<lambda>e. e > now - z_interval z) es = []"
  using assms by (auto simp: in_window_def filter_empty_conv)

text \<open>
  A client that may be aged out has nothing left to say: no ban, and no event in the window.  This
  rests on \<open>z_interval z \<le> z_inactive z\<close>, which the configuration enforces.
\<close>

lemma expired_silent:
  assumes "wf_zone z" "clock_ok now" "client_ok z t c" "a_expired z now c"
  shows "c_ban c \<le> now" "\<forall>e \<in> set (c_events c). e \<le> now - z_interval z"
proof -
  show "c_ban c \<le> now" using assms(4) by (simp add: a_expired_def)
  have "sat_add (c_seen c) (z_inactive z) \<le> now" using assms(4) by (simp add: a_expired_def)
  then have "c_seen c + z_inactive z \<le> now"
    using clock_okD[OF assms(2)] assms(1) by (auto simp: sat_add_def wf_zone_def min_def split: if_splits)
  then have "c_seen c \<le> now - z_interval z" using assms(1) by (simp add: wf_zone_def)
  then show "\<forall>e \<in> set (c_events c). e \<le> now - z_interval z"
    using assms(3) by (auto simp: client_ok_def)
qed

lemma expired_as_new:
  assumes "wf_zone z" "clock_ok now" "client_ok z t c" "a_expired z now c"
  shows "client_record z now (new_client (c_key c) now)
       = (let (rc, out, c') = client_record z now c in (rc, out, c' \<lparr> c_seen := now \<rparr>))"
    and "client_peek z now (new_client k now) = client_peek z now c"
proof -
  note q = expired_silent[OF assms]
  have ban: "\<not> now < c_ban c" using q(1) by simp
  have "in_window z now (c_events c) = []" "in_window z now [] = []"
    using window_empty(1)[OF q(2)] by (simp_all add: in_window_def)
  then have "client_record z now c = (if z_threshold z \<le> 1
      then (NGX_BUSY, (z_threshold z, sat_add now (z_block z)),
            c \<lparr> c_ban := sat_add now (z_block z), c_events := [] \<rparr>)
      else (NGX_OK, (1, 0), c \<lparr> c_ban := 0, c_events := [now] \<rparr>))"
    using ban by (simp add: client_record_def Let_def)
  moreover have "client_record z now (new_client (c_key c) now) = (if z_threshold z \<le> 1
      then (NGX_BUSY, (z_threshold z, sat_add now (z_block z)),
            (new_client (c_key c) now) \<lparr> c_ban := sat_add now (z_block z), c_events := [] \<rparr>)
      else (NGX_OK, (1, 0), (new_client (c_key c) now) \<lparr> c_ban := 0, c_events := [now] \<rparr>))"
    using clock_okD[OF assms(2)] by (simp add: client_record_def Let_def new_client_def in_window_def)
  ultimately show "client_record z now (new_client (c_key c) now)
       = (let (rc, out, c') = client_record z now c in (rc, out, c' \<lparr> c_seen := now \<rparr>))"
    by (simp add: new_client_def)
  show "client_peek z now (new_client k now) = client_peek z now c"
    using window_empty(2)[OF q(2)] ban clock_okD[OF assms(2)]
    by (simp add: client_peek_def new_client_def Let_def)
qed

text \<open>The forecast is what counting the response would report.\<close>

lemma client_peek_record:
  assumes c: "client_ok z t c" and r: "client_record z now c = (rc, (cnt, bu), c')"
  shows "client_peek z now c = (cnt, bu, rc = NGX_BUSY)"
proof (cases "now < c_ban c")
  case True
  then show ?thesis using r by (auto simp: client_record_def client_peek_def)
next
  case False
  have s: "sorted (c_events c)" "length (c_events c) < z_threshold z" "c_ban c \<noteq> 0 \<Longrightarrow> c_events c = []"
    using c by (auto simp: client_ok_def)
  define es where "es = filter (\<lambda>e. e > now - z_interval z) (c_events c)"
  have es: "(if c_ban c \<noteq> 0 then [] else in_window z now (c_events c)) = es"
    using sorted_in_window(3)[OF s(1)] s(3) by (auto simp: es_def)
  have "length es \<le> length (c_events c)" by (simp add: es_def)
  then have "Suc (length es) \<ge> z_threshold z \<Longrightarrow> Suc (length es) = z_threshold z" using s(2) by linarith
  then show ?thesis
    using False r by (auto simp: client_record_def client_peek_def Let_def es es_def [symmetric] split: if_splits)
qed

lemma client_record_seen: "client_record z now (c \<lparr> c_seen := x \<rparr>) =
   (let (rc, out, c') = client_record z now c in (rc, out, c' \<lparr> c_seen := x \<rparr>))"
  by (auto simp: client_record_def Let_def)

lemma expire_dropped:
  assumes "c \<in> set cs" "c \<notin> set (a_expire z now limit cs)"
  shows "a_expired z now c"
  using assms
proof (induction limit arbitrary: cs)
  case (Suc limit)
  show ?case
  proof (cases "cs \<noteq> [] \<and> a_expired z now (List.last cs)")
    case True
    then obtain ds d where cs: "cs = ds @ [d]" by (metis snoc_cases)
    then show ?thesis using True Suc by auto
  next
    case False
    then show ?thesis using Suc.prems by auto
  qed
qed simp

lemma record_forecast:
  assumes z: "wf_zone z" and now: "clock_ok now" and keys: "distinct (map c_key cs)"
    and ok: "\<forall>c \<in> set cs. client_ok z t c"
    and r: "a_record z now k cs out (rc, (cnt, bu), cs')" "rc \<noteq> NGX_ERROR"
  shows "a_peek z now k cs = (cnt, bu, rc = NGX_BUSY)"
proof (cases rule: find_touch_cases[of z now k cs])
  case (tracked c)
  then have "a_find k cs = Some c" using find_distinct[OF keys] by (simp add: a_find_def)
  moreover obtain c1 where "client_record z now (c \<lparr> c_seen := now \<rparr>) = (rc, (cnt, bu), c1)"
    using a_record_tracked[OF tracked(1) r(1)] by blast
  then obtain c2 where "client_record z now c = (rc, (cnt, bu), c2)"
    by (cases "client_record z now c") (auto simp: client_record_seen)
  ultimately show ?thesis using client_peek_record[of z t c now rc cnt bu c2] ok tracked(3)
    by (simp add: a_peek_def)
next
  case untracked
  obtain c1 where new: "client_record z now (new_client k now) = (rc, (cnt, bu), c1)"
    using a_record_untracked[OF untracked(1) r(1)] r(2) by blast
  have "client_ok z now (new_client k now)" using wf_zoneD[OF z] by (simp add: client_ok_def new_client_def)
  from client_peek_record[OF this new]
  have pk: "client_peek z now (new_client k now) = (cnt, bu, rc = NGX_BUSY)" .
  show ?thesis
  proof (cases "a_find k cs")
    case None
    then show ?thesis using pk by (simp add: a_peek_def)
  next
    case (Some c)
    then have c: "c \<in> set cs" "c_key c = k" using a_find_set by blast+
    then have "c \<notin> set (a_expire z now 2 cs)" using untracked(2) by (auto simp: a_find_None)
    then have "a_expired z now c" using expire_dropped c(1) by blast
    then show ?thesis using expired_as_new(2)[OF z now, of t c k] ok c(1) pk Some by (simp add: a_peek_def)
  qed
qed

section \<open>A burst reaches the threshold\<close>

fun record_all :: "'s ngx \<Rightarrow> zone \<Rightarrow> 's shctx \<Rightarrow> bytes \<Rightarrow> time list \<Rightarrow> ((ngx_rc \<times> nat \<times> time) list \<times> 's shctx) option" where
  "record_all E z sh key [] = Some ([], sh)"
| "record_all E z sh key (t # ts) = do {
     (rc, out, sh) \<leftarrow> ea_record E z sh key t (0, 0);
     (rs, sh) \<leftarrow> record_all E z sh key ts;
     Some ((rc, out) # rs, sh)
   }"

text \<open>The answers to a burst after \<open>n\<close> counted responses: pass with a rising count, then ban.\<close>

fun burst_results :: "zone \<Rightarrow> nat \<Rightarrow> time list \<Rightarrow> (ngx_rc \<times> nat \<times> time) list" where
  "burst_results z n [] = []"
| "burst_results z n (t # ts) =
     (if Suc n \<ge> z_threshold z then (NGX_BUSY, z_threshold z, sat_add t (z_block z)) else (NGX_OK, Suc n, 0))
     # burst_results z (Suc n) ts"

lemma expire_head: "\<not> a_expired z now c \<Longrightarrow> \<exists>cs'. a_expire z now limit (c # cs) = c # cs'"
proof (induction limit arbitrary: cs)
  case (Suc limit)
  then show ?case by (cases "cs = []") auto
qed simp

lemma record_head:
  assumes doc: "store_doc E" and z: "wf_zone z" and wf: "wf_sh E z sh" and now: "clock_ok now"
    and key: "length key = DIGEST_LEN"
    and head: "zabs sh = c # cs" "c_key c = key" "\<not> a_expired z now c"
  shows "\<exists>rc out' c' cs' sh'. ea_record E z sh key now out = Some (rc, out', sh') \<and> wf_sh E z sh'
     \<and> client_record z now (c \<lparr> c_seen := now \<rparr>) = (rc, out', c') \<and> zabs sh' = c' # cs'"
proof -
  obtain rc out' sh' where r: "ea_record E z sh key now out = Some (rc, out', sh')" "wf_sh E z sh'"
    "a_record z now key (zabs sh) out (rc, out', zabs sh')"
    using record_refines[OF doc z wf now key] by blast
  obtain cs1 where "a_expire z now 2 (c # cs) = c # cs1" using expire_head[OF head(3)] by blast
  then have "a_find_touch z now key (zabs sh) = (Some (c \<lparr> c_seen := now \<rparr>), a_drop key (c # cs1))"
    using head by (simp add: a_find_touch_def a_find_def)
  then show ?thesis using a_record_tracked[OF _ r(3)] r(1,2) by metis
qed

lemma burst_tail:
  assumes doc: "store_doc E" and z: "wf_zone z" and key: "length key = DIGEST_LEN"
    and "wf_sh E z sh" "zabs sh = c # cs" "c_key c = key" "c_ban c = 0"
    and "length (c_events c) + length ts = z_threshold z"
    and "sorted (c_seen c # ts)" "\<forall>t \<in> set ts. clock_ok t" "0 \<le> c_seen c"
    and "\<forall>t \<in> set ts. \<forall>e \<in> set (c_seen c # c_events c). t < e + z_interval z"
    and "\<forall>t \<in> set ts. \<forall>t' \<in> set ts. t < t' + z_interval z"
  shows "\<exists>sh'. record_all E z sh key ts = Some (burst_results z (length (c_events c)) ts, sh')"
  using assms(4-)
proof (induction ts arbitrary: sh c cs)
  case Nil
  then show ?case by simp
next
  case (Cons t ts)
  have t: "clock_ok t" "c_seen c \<le> t" "t < c_seen c + z_interval z" using Cons.prems by auto
  have "z_interval z \<le> z_inactive z" using z by (simp add: wf_zone_def)
  then have ne: "\<not> a_expired z t c" using t Cons.prems(8) clock_okD[OF t(1)] wf_zoneD[OF z]
    by (auto simp: a_expired_def sat_add_def min_def)
  obtain rc out' c' cs' sh1 where r: "ea_record E z sh key t (0, 0) = Some (rc, out', sh1)" "wf_sh E z sh1"
    "client_record z t (c \<lparr> c_seen := t \<rparr>) = (rc, out', c')" "zabs sh1 = c' # cs'"
    using record_head[OF doc z Cons.prems(1) t(1) key Cons.prems(2,3) ne] by blast
  have "in_window z t (c_events c) = c_events c"
    unfolding in_window_def using Cons.prems(9)
    by (cases "c_events c") (auto simp: algebra_simps)
  then have cr: "(rc, out', c') = (if Suc (length (c_events c)) \<ge> z_threshold z
      then (NGX_BUSY, (z_threshold z, sat_add t (z_block z)),
            c \<lparr> c_seen := t, c_ban := sat_add t (z_block z), c_events := [] \<rparr>)
      else (NGX_OK, (Suc (length (c_events c)), 0), c \<lparr> c_seen := t, c_ban := 0, c_events := c_events c @ [t] \<rparr>))"
    using r(3) Cons.prems(4) clock_okD[OF t(1)] by (auto simp: client_record_def Let_def split: if_splits)
  show ?case
  proof (cases "Suc (length (c_events c)) \<ge> z_threshold z")
    case True
    then have "ts = []" using Cons.prems(5) by (cases ts) auto
    then show ?thesis using r(1) cr True by simp
  next
    case False
    then have c': "c' = c \<lparr> c_seen := t, c_ban := 0, c_events := c_events c @ [t] \<rparr>"
      "rc = NGX_OK" "out' = (Suc (length (c_events c)), 0)" using cr by simp_all
    have "\<exists>sh'. record_all E z sh1 key ts = Some (burst_results z (length (c_events c')) ts, sh')"
      by (rule Cons.IH[OF r(2,4)]) (use Cons.prems c' clock_okD[OF t(1)] in auto)
    then show ?thesis using r(1) c' False by auto
  qed
qed

end
