(* ===== verification/EA_Memory.thy ===== *)
theory EA_Memory
  imports EA_Trace
begin

text \<open>
  A zone that never forgets: one entry for every possible key, never aged out, never evicted.  The real
  zone, which drops clients that may be aged out, is followed beside it.
\<close>

section \<open>The engine without ageing\<close>

text \<open>One operation: what the engine remembers then, and whether it would have given the same answer.\<close>

fun recall :: "zone \<Rightarrow> (bytes \<Rightarrow> client) \<Rightarrow> zlabel \<Rightarrow> (bytes \<Rightarrow> client) \<times> bool" where
  "recall z M (L_record k now rc out) =
     (let (rc', out', c) = client_record z now (M k) in (M(k := c), rc = rc' \<and> out = out'))"
| "recall z M (L_is_blocked k now rc out) =
     (let (rc', out', c) = client_is_blocked z now (M k) in (M(k := c), rc = rc' \<and> out = out'))"
| "recall z M (L_peek k now res) = (M, res = client_peek z now (M k))"

text \<open>Whether all answers of a trace are those of the engine without ageing.\<close>

fun remembers :: "zone \<Rightarrow> (bytes \<Rightarrow> client) \<Rightarrow> zlabel list \<Rightarrow> bool" where
  "remembers z M [] = True"
| "remembers z M (l # tr) = (let (M', same) = recall z M l in same \<and> remembers z M' tr)"

definition memory :: "zone \<Rightarrow> (bytes \<Rightarrow> client) \<Rightarrow> zlabel list \<Rightarrow> bytes \<Rightarrow> client" where
  "memory z M tr = foldl (\<lambda>M l. fst (recall z M l)) M tr"

lemma memory_simps [simp]:
  "memory z M [] = M" "memory z M (tr @ [l]) = fst (recall z (memory z M tr) l)"
  by (simp_all add: memory_def)

lemma remembers_snoc: "remembers z M (tr @ [l]) \<longleftrightarrow> remembers z M tr \<and> snd (recall z (memory z M tr) l)"
  by (induction tr arbitrary: M) (auto simp: memory_def split: prod.split)

text \<open>The zone has room: a client that is not there is given a node at the first attempt.  Only where this
  fails does \<^verbatim>\<open>create_node\<close> look for clients to evict.\<close>

definition roomy :: "'s ngx \<Rightarrow> zone \<Rightarrow> 's shctx \<Rightarrow> zlabel \<Rightarrow> bool" where
  "roomy E z sh l \<longleftrightarrow> (case l of
      L_record k now _ _ \<Rightarrow>
        (case ea_find_touch_locked E z sh (ngx_crc32_short E k) k now of
           Some (None, sh1) \<Rightarrow> fst (ea_slab_alloc_locked E sh1 (ea_node_size (length k) (z_threshold z))) \<noteq> None
         | _ \<Rightarrow> True)
    | _ \<Rightarrow> True)"

text \<open>Then the new client joins what the ageing left, and nobody else goes.\<close>

lemma record_new:
  assumes doc: "store_doc E" and z: "wf_zone z" and wf: "wf_sh E z sh" and now: "clock_ok now" and key: "length key = DIGEST_LEN"
    and ft: "ea_find_touch_locked E z sh (ngx_crc32_short E key) key now = Some (None, sh1)"
    and room: "fst (ea_slab_alloc_locked E sh1 (ea_node_size (length key) (z_threshold z))) \<noteq> None"
    and r: "ea_record E z sh key now out = Some (rc, out', sh')"
  shows "\<exists>c'. a_find_touch z now key (zabs sh) = (None, zabs sh1) \<and> zabs sh' = c' # zabs sh1
     \<and> client_record z now (new_client key now) = (rc, out', c')"
proof -
  have w1: "wf_sh E z sh1" "a_find_touch z now key (zabs sh) = (None, zabs sh1)" "\<forall>b m. sh_heap sh1 b = Some m \<longrightarrow> n_data m \<noteq> key"
    using find_touch_refines[OF doc wf now, of key] ft by auto
  obtain r2 sh2 where cr: "ea_create_node E z sh1 (ngx_crc32_short E key) key now = Some (r2, sh2)" "wf_sh E z sh2"
    "case r2 of
        None \<Rightarrow> sheds now (zabs sh1) (zabs sh2) \<and> (\<forall>c \<in> set (take EVICT_SCAN_LIMIT (zabs sh2)). now < c_ban c)
          \<and> fst (ea_slab_alloc_locked E sh1 (ea_node_size DIGEST_LEN (z_threshold z))) = None
      | Some a \<Rightarrow> (\<exists>n cs. sh_heap sh2 a = Some n \<and> absn n = new_client key now \<and> n_data n = key
          \<and> zabs sh2 = new_client key now # cs \<and> sheds now (zabs sh1) cs
          \<and> (fst (ea_slab_alloc_locked E sh1 (ea_node_size DIGEST_LEN (z_threshold z))) \<noteq> None \<longrightarrow> cs = zabs sh1))"
    using create_node_ok[OF doc z w1(1) key _ _ w1(3), of now] clock_okD[OF now] by blast
  obtain a where a: "r2 = Some a" using cr(3) room key by (cases r2) auto
  then obtain n where n: "sh_heap sh2 a = Some n" "absn n = new_client key now" "n_data n = key" "zabs sh2 = new_client key now # zabs sh1"
    using cr(3) room key by auto
  obtain b q where q: "sh_queue sh2 = b # q" using n(4) by (cases "sh_queue sh2") (auto simp: zabs_def)
  then have "n_data (the (sh_heap sh2 b)) = n_data (the (sh_heap sh2 a))" using n by (auto simp: zabs_def new_client_def absn_def)
  then have "b = a" using wf_inj_queue[OF cr(2)] q n(1) wf_in_queue[OF cr(2)] by (metis list.set_intros(1))
  then have q: "sh_queue sh2 = a # q" using q by simp
  obtain rc2 out2 n' where rn: "record_node z n now = Some (rc2, out2, n')" "(rc2, out2, absn n') = client_record z now (absn n)"
    using record_node_ok[OF z now wf_shD(6)[OF cr(2) n(1)]] by blast
  have "ea_record E z sh key now out = Some (rc2, out2, set_node sh2 a n')"
    using ft cr(1) a n(1) rn(1) by (simp add: ea_record_def Let_def)
  then have "rc2 = rc" "out2 = out'" "sh' = set_node sh2 a n'" using r by simp_all
  then show ?thesis using rn(2) n(2,4) set_node_head(2)[OF cr(2) n(1) q, of n'] w1(2) by simp
qed

section \<open>Nothing left to say\<close>

text \<open>From \<open>t\<close> on the client is as good as new: its ban has ended and no event will be in a window.\<close>

definition silent :: "zone \<Rightarrow> time \<Rightarrow> client \<Rightarrow> bool" where
  "silent z t d \<longleftrightarrow> (\<forall>now. t \<le> now \<and> clock_ok now \<longrightarrow> c_ban d \<le> now \<and> (\<forall>e \<in> set (c_events d). e \<le> now - z_interval z))"

lemma silentD: "silent z t d \<Longrightarrow> t \<le> now \<Longrightarrow> clock_ok now \<Longrightarrow> c_ban d \<le> now \<and> (\<forall>e \<in> set (c_events d). e \<le> now - z_interval z)"
  by (simp add: silent_def)

lemma silent_mono: "silent z t d \<Longrightarrow> t \<le> now \<Longrightarrow> silent z now d"
  by (auto simp: silent_def)

lemma silent_new: "silent z t (new_client k u)"
  by (auto simp: silent_def new_client_def dest: clock_okD)

text \<open>The same ban and the same events: what a decision depends on.\<close>

definition alike :: "client \<Rightarrow> client \<Rightarrow> bool" where
  "alike c d \<longleftrightarrow> c_ban c = c_ban d \<and> c_events c = c_events d"

lemma expired_silent_on:
  assumes "wf_zone z" "clock_ok now" "client_ok z t c" "a_expired z now c" "alike c d"
  shows "silent z now d"
  using expired_silent[OF assms(1-4)] assms(5) by (fastforce simp: silent_def alike_def)

lemma record_alike:
  assumes "alike c d" "client_record z now c = (rc, out, c')"
  obtains d' where "client_record z now d = (rc, out, d')" "alike c' d'"
  using assms by (auto simp: client_record_def alike_def Let_def split: if_splits)

lemma is_blocked_alike:
  assumes "alike c d" "client_is_blocked z now c = (rc, out, c')"
  obtains d' where "client_is_blocked z now d = (rc, out, d')" "alike c' d'"
  using assms by (auto simp: client_is_blocked_def alike_def Let_def split: if_splits)

lemma peek_alike: "alike c d \<Longrightarrow> client_peek z now c = client_peek z now d"
  by (simp add: client_peek_def alike_def)

text \<open>A client that is silent and one that is new are answered alike.\<close>

lemma silent_record:
  assumes "silent z t d" "t \<le> now" "clock_ok now" "client_record z now (new_client k u) = (rc, out, c')"
  obtains d' where "client_record z now d = (rc, out, d')" "alike c' d'"
proof -
  note q = silentD[OF assms(1-3)]
  have "in_window z now (c_events d) = []" using q window_empty(1) by blast
  then have w: "(if c_ban d \<noteq> 0 then [] else in_window z now (c_events d)) = []" by simp
  have "in_window z now [] = []" by (simp add: in_window_def)
  moreover have "\<not> now < c_ban d" using q by simp
  ultimately show ?thesis using that assms(4) clock_okD[OF assms(3)]
    by (cases "z_threshold z \<le> 1") (auto simp: client_record_def w new_client_def alike_def Let_def)
qed

lemma silent_is_blocked:
  assumes "silent z t d" "t \<le> now" "clock_ok now"
  obtains d' where "client_is_blocked z now d = (NGX_DECLINED, (0, 0), d')" "silent z now d'"
proof -
  note q = silentD[OF assms]
  have w: "in_window z now (c_events d) = []" using q window_empty(1) by blast
  have "client_is_blocked z now d = (NGX_DECLINED, (0, 0), d \<lparr> c_ban := 0, c_events := [] \<rparr>)"
    using q w by (simp add: client_is_blocked_def Let_def)
  moreover have "silent z now (d \<lparr> c_ban := 0, c_events := [] \<rparr>)" by (auto simp: silent_def dest: clock_okD)
  ultimately show ?thesis using that by blast
qed

lemma silent_peek:
  assumes "silent z t d" "t \<le> now" "clock_ok now"
  shows "client_peek z now (new_client k u) = client_peek z now d"
proof -
  note q = silentD[OF assms]
  have "filter (\<lambda>e. e > now - z_interval z) (c_events d) = []" using q window_empty(2) by blast
  then show ?thesis using q clock_okD[OF assms(3)] by (simp add: client_peek_def new_client_def Let_def)
qed

section \<open>The two engines side by side\<close>

text \<open>A client the zone holds is remembered as it is; one it does not hold is silent.\<close>

definition agrees :: "zone \<Rightarrow> time \<Rightarrow> client list \<Rightarrow> (bytes \<Rightarrow> client) \<Rightarrow> bool" where
  "agrees z t cs M \<longleftrightarrow> (\<forall>c \<in> set cs. alike c (M (c_key c))) \<and> (\<forall>k. k \<notin> c_key ` set cs \<longrightarrow> silent z t (M k))"

text \<open>After an operation on \<open>k\<close>: the others are as they were, or silent.\<close>

lemma agrees_others:
  assumes z: "wf_zone z" and now: "t \<le> now" "clock_ok now" and ok: "\<forall>c \<in> set cs. client_ok z t c"
    and a: "agrees z t cs M" and lost: "\<forall>c \<in> set cs. c_key c \<notin> c_key ` set cs' \<longrightarrow> a_expired z now c"
    and sub: "\<And>c. c \<in> set cs' \<Longrightarrow> c_key c \<noteq> k \<Longrightarrow> c \<in> set cs"
    and own: "\<And>c. c \<in> set cs' \<Longrightarrow> c_key c = k \<Longrightarrow> alike c d" "k \<notin> c_key ` set cs' \<Longrightarrow> silent z now d"
  shows "agrees z now cs' (M(k := d))"
proof -
  have "silent z now (M j)" if j: "j \<notin> c_key ` set cs'" for j
  proof (cases "j \<in> c_key ` set cs")
    case True
    then obtain c where c: "c \<in> set cs" "c_key c = j" by blast
    then have "a_expired z now c" using lost j by blast
    then show ?thesis using expired_silent_on[OF z now(2)] ok a c by (auto simp: agrees_def)
  next
    case False
    then show ?thesis using a silent_mono now(1) by (auto simp: agrees_def)
  qed
  then show ?thesis using a sub own by (auto simp: agrees_def)
qed

text \<open>Whoever is gone, apart from the client at hand, was dropped by the ageing.\<close>

lemma lost_expired:
  assumes "c_key ` set (a_expire z now 2 cs) \<subseteq> c_key ` set cs'"
  shows "\<forall>c \<in> set cs. c_key c \<notin> c_key ` set cs' \<longrightarrow> a_expired z now c"
  using assms expire_dropped[of _ cs z now 2] by blast

lemma drop_keys: "c_key ` set cs \<subseteq> insert k (c_key ` set (a_drop k cs))"
  by (auto simp: a_drop_def)

lemma find_mem: "a_find k cs = Some c \<Longrightarrow> c \<in> set cs \<and> c_key c = k"
  by (rule a_find_set)

lemma record_agrees:
  assumes z: "wf_zone z" and now: "t \<le> now" "clock_ok now" and ok: "\<forall>c \<in> set cs. client_ok z t c"
    and a: "agrees z t cs M" and keys: "distinct (map c_key cs')"
    and r: "a_record z now k cs out (rc, out', cs')"
    and new: "a_find_touch z now k cs = (None, a_expire z now 2 cs) \<Longrightarrow>
      \<exists>c'. cs' = c' # a_expire z now 2 cs \<and> client_record z now (new_client k now) = (rc, out', c')"
  shows "snd (recall z M (L_record k now rc out')) \<and> agrees z now cs' (fst (recall z M (L_record k now rc out')))"
proof -
  have sub: "set (a_expire z now 2 cs) \<subseteq> set cs" "set (a_drop k (a_expire z now 2 cs)) \<subseteq> {c \<in> set cs. c_key c \<noteq> k}"
    using expire_prefix[of z now 2 cs] by (auto simp: a_drop_def dest: in_set_takeD)
  have side: ?thesis if c': "cs' = c' # rest" "c_key c' = k" "client_record z now (M k) = (rc, out', d)" "alike c' d"
    and rest: "set rest \<subseteq> set cs" "c_key ` set (a_expire z now 2 cs) \<subseteq> insert k (c_key ` set rest)" for c' rest d
  proof -
    have lost: "\<forall>c \<in> set cs. c_key c \<notin> c_key ` set cs' \<longrightarrow> a_expired z now c"
      using rest(2) c'(1,2) by (intro lost_expired) auto
    have "agrees z now cs' (M(k := d))"
      by (rule agrees_others[OF z now ok a lost]) (use c' rest(1) keys in auto)
    then show ?thesis using c'(3) by simp
  qed
  show ?thesis
  proof (cases rule: find_touch_cases[of z now k cs])
    case (tracked c)
    obtain c' where c': "client_record z now (c \<lparr> c_seen := now \<rparr>) = (rc, out', c')" "cs' = c' # a_drop k (a_expire z now 2 cs)"
      using a_record_tracked[OF tracked(1) r] .
    have "alike (c \<lparr> c_seen := now \<rparr>) (M k)" using a tracked(3,4) by (auto simp: agrees_def alike_def)
    from record_alike[OF this c'(1)] obtain d where d: "client_record z now (M k) = (rc, out', d)" "alike c' d" .
    have "c_key c' = k" using client_record_ban(1)[OF c'(1)] tracked(4) by simp
    then show ?thesis using side[OF c'(2) _ d] sub(2) drop_keys by blast
  next
    case untracked
    obtain c' where c': "cs' = c' # a_expire z now 2 cs" "client_record z now (new_client k now) = (rc, out', c')"
      using new untracked(1) by blast
    have "silent z now (M k)"
    proof (cases "k \<in> c_key ` set cs")
      case True
      then obtain c where c: "c \<in> set cs" "c_key c = k" by blast
      then have "c \<notin> set (a_expire z now 2 cs)" using untracked(2) by (auto simp: a_find_None)
      then have "a_expired z now c" using expire_dropped c(1) by blast
      then show ?thesis using expired_silent_on[OF z now(2)] ok a c by (auto simp: agrees_def)
    next
      case False
      then show ?thesis using a silent_mono now(1) by (auto simp: agrees_def)
    qed
    from silent_record[OF this order_refl now(2) c'(2)] obtain d where d: "client_record z now (M k) = (rc, out', d)" "alike c' d" .
    have "c_key c' = k" using client_record_ban(1)[OF c'(2)] by (simp add: new_client_def)
    then show ?thesis using side[OF c'(1) _ d] sub(1) by blast
  qed
qed

lemma is_blocked_agrees:
  assumes z: "wf_zone z" and now: "t \<le> now" "clock_ok now" and ok: "\<forall>c \<in> set cs. client_ok z t c"
    and a: "agrees z t cs M" and keys: "distinct (map c_key cs')" and r: "(rc, out, cs') = a_is_blocked z now k cs"
  shows "snd (recall z M (L_is_blocked k now rc out)) \<and> agrees z now cs' (fst (recall z M (L_is_blocked k now rc out)))"
proof -
  have sub: "set (a_expire z now 2 cs) \<subseteq> set cs" "set (a_drop k (a_expire z now 2 cs)) \<subseteq> {c \<in> set cs. c_key c \<noteq> k}"
    using expire_prefix[of z now 2 cs] by (auto simp: a_drop_def dest: in_set_takeD)
  show ?thesis
  proof (cases rule: find_touch_cases[of z now k cs])
    case (tracked c)
    obtain c' where c': "client_is_blocked z now (c \<lparr> c_seen := now \<rparr>) = (rc, out, c')" "cs' = c' # a_drop k (a_expire z now 2 cs)"
      using r tracked(1) by (auto simp: a_is_blocked_def split: prod.splits)
    have "alike (c \<lparr> c_seen := now \<rparr>) (M k)" using a tracked(3,4) by (auto simp: agrees_def alike_def)
    from is_blocked_alike[OF this c'(1)] obtain d where d: "client_is_blocked z now (M k) = (rc, out, d)" "alike c' d" .
    have "c_key c' = k" using client_is_blocked_ban(1)[OF c'(1)] tracked(4) by simp
    moreover from this have lost: "\<forall>c \<in> set cs. c_key c \<notin> c_key ` set cs' \<longrightarrow> a_expired z now c"
      using drop_keys[of "a_expire z now 2 cs" k] c'(2) by (intro lost_expired) auto
    ultimately have "agrees z now cs' (M(k := d))"
      by (intro agrees_others[OF z now ok a lost]) (use c' d(2) sub(2) keys in auto)
    then show ?thesis using d(1) by simp
  next
    case untracked
    then have c': "rc = NGX_DECLINED" "out = (0, 0)" "cs' = a_expire z now 2 cs" using r by (auto simp: a_is_blocked_def)
    have k: "k \<notin> c_key ` set cs'" using untracked(2) c'(3) by (auto simp: a_find_None)
    have lost: "\<forall>c \<in> set cs. c_key c \<notin> c_key ` set cs' \<longrightarrow> a_expired z now c" unfolding c'(3) by (rule lost_expired) simp
    have "silent z now (M k)"
    proof (cases "k \<in> c_key ` set cs")
      case True
      then obtain c where c: "c \<in> set cs" "c_key c = k" by blast
      then have "a_expired z now c" using lost k by blast
      then show ?thesis using expired_silent_on[OF z now(2)] ok a c by (auto simp: agrees_def)
    next
      case False
      then show ?thesis using a silent_mono now(1) by (auto simp: agrees_def)
    qed
    from silent_is_blocked[OF this order_refl now(2)] obtain d where
      d: "client_is_blocked z now (M k) = (NGX_DECLINED, (0, 0), d)" "silent z now d" .
    have "agrees z now cs' (M(k := d))"
      by (intro agrees_others[OF z now ok a lost]) (use c' d(2) sub(1) k in auto)
    then show ?thesis using d(1) c' by simp
  qed
qed

lemma peek_agrees:
  assumes z: "wf_zone z" and now: "t \<le> now" "clock_ok now" and a: "agrees z t cs M"
    and r: "res = a_peek z now k cs"
  shows "snd (recall z M (L_peek k now res)) \<and> agrees z now cs M"
proof -
  have "agrees z now cs M" using a silent_mono now(1) by (auto simp: agrees_def)
  moreover have "res = client_peek z now (M k)"
  proof (cases "a_find k cs")
    case None
    then have "k \<notin> c_key ` set cs" by (auto simp: a_find_None)
    then have "silent z t (M k)" using a by (simp add: agrees_def)
    from silent_peek[OF this now] show ?thesis using r None by (simp add: a_peek_def)
  next
    case (Some c)
    then have "alike c (M k)" using a find_mem[OF Some] by (auto simp: agrees_def)
    from peek_alike[OF this] show ?thesis using r Some by (simp add: a_peek_def)
  qed
  ultimately show ?thesis by simp
qed

lemma step_agrees:
  assumes step: "zone_step E z s l s'" "roomy E z (snd s) l" and inv: "zone_inv E z s"
    and ok: "\<forall>c \<in> set (zabs (snd s)). client_ok z (fst s) c" and a: "agrees z (fst s) (zabs (snd s)) M"
  shows "snd (recall z M l) \<and> agrees z (fst s') (zabs (snd s')) (fst (recall z M l))"
proof -
  note abs = zone_step_abs[OF inv step(1)]
  have z: "wf_zone z" using inv by (simp add: zone_inv_def)
  have now: "fst s \<le> fst s'" "clock_ok (fst s')" using abs by simp_all
  have keys: "distinct (map c_key (zabs (snd s')))" using abs wf_zabs_keys by (auto simp: zone_inv_def)
  show ?thesis
  proof (cases l)
    case (L_record k t rc out)
    then obtain out0 where r: "t = fst s'" "length k = DIGEST_LEN"
      "a_record z (fst s') k (zabs (snd s)) out0 (rc, out, zabs (snd s'))" using abs by auto
    obtain out1 where real: "ea_record E z (snd s) k (fst s') out1 = Some (rc, out, snd s')"
    proof -
      obtain t0 sh t1 sh' where s: "s = (t0, sh)" "s' = (t1, sh')" by (metis prod.collapse)
      have "zone_step E z (t0, sh) (L_record k t rc out) (t1, sh')" using step(1) by (simp only: L_record s)
      then obtain out1 where "ea_record E z sh k t1 out1 = Some (rc, out, sh')" unfolding zone_step_record_iff by blast
      then show ?thesis using that s by simp
    qed
    have doc: "store_doc E" "wf_sh E z (snd s)" using inv by (simp_all add: zone_inv_def)
    have new: "\<exists>c'. zabs (snd s') = c' # a_expire z (fst s') 2 (zabs (snd s)) \<and> client_record z (fst s') (new_client k (fst s')) = (rc, out, c')"
      if un: "a_find_touch z (fst s') k (zabs (snd s)) = (None, a_expire z (fst s') 2 (zabs (snd s)))"
    proof -
      obtain sh1 where ft: "ea_find_touch_locked E z (snd s) (ngx_crc32_short E k) k (fst s') = Some (None, sh1)"
      proof -
        obtain r sh1 where f: "ea_find_touch_locked E z (snd s) (ngx_crc32_short E k) k (fst s') = Some (r, sh1)"
          and c: "case r of
              None \<Rightarrow> a_find_touch z (fst s') k (zabs (snd s)) = (None, zabs sh1) \<and> (\<forall>b m. sh_heap sh1 b = Some m \<longrightarrow> n_data m \<noteq> k)
            | Some a \<Rightarrow> \<exists>n q. sh_heap sh1 a = Some n \<and> n_data n = k \<and> sh_queue sh1 = a # q
                \<and> a_find_touch z (fst s') k (zabs (snd s)) = (Some (absn n), tl (zabs sh1))"
          using find_touch_refines[OF doc now(2), of k] by blast
        have "r = None" using c un by (cases r) auto
        then show ?thesis using that f by simp
      qed
      then have "fst (ea_slab_alloc_locked E sh1 (ea_node_size (length k) (z_threshold z))) \<noteq> None"
        using step(2) unfolding L_record roomy_def r(1) by simp
      from record_new[OF doc(1) z doc(2) now(2) r(2) ft this real] un show ?thesis by auto
    qed
    from record_agrees[OF z now ok a keys r(3) new] show ?thesis using L_record r(1) by simp
  next
    case (L_is_blocked k t rc out)
    then have "t = fst s'" "(rc, out, zabs (snd s')) = a_is_blocked z (fst s') k (zabs (snd s))" using abs by auto
    with is_blocked_agrees[OF z now ok a keys this(2)] show ?thesis using L_is_blocked by simp
  next
    case (L_peek k t res)
    then have "t = fst s'" "snd s' = snd s" "res = a_peek z (fst s') k (zabs (snd s))" using abs by auto
    with peek_agrees[OF z now a this(3)] show ?thesis using L_peek by simp
  qed
qed

text \<open>A run of such steps.\<close>

definition roomy_step :: "'s ngx \<Rightarrow> zone \<Rightarrow> time \<times> 's shctx \<Rightarrow> zlabel \<Rightarrow> time \<times> 's shctx \<Rightarrow> bool" where
  "roomy_step E z s l s' \<longleftrightarrow> zone_step E z s l s' \<and> roomy E z (snd s) l"

lemma roomy_run_zone: "run (roomy_step E z) s tr s' \<Longrightarrow> zone_run E z s tr s'"
  by (induction rule: run.induct) (auto simp: roomy_step_def intro: run_Nil run_snoc)

lemma roomy_run_agrees:
  assumes "run (roomy_step E z) s tr s'" "zone_inv E z s" "zabs (snd s) = []"
  shows "remembers z (\<lambda>k. new_client k 0) tr
     \<and> agrees z (fst s') (zabs (snd s')) (memory z (\<lambda>k. new_client k 0) tr)"
  using assms
proof (induction rule: run.induct)
  case (run_Nil s)
  then show ?case by (auto simp: agrees_def silent_new)
next
  case (run_snoc s tr s' l s'')
  have h: "zone_inv E z s'" "\<forall>c \<in> set (zabs (snd s')). client_ok z (fst s') c"
    using zone_run_hist[OF roomy_run_zone[OF run_snoc(1)] run_snoc(4,5)] by (auto simp: hist_ok_def)
  have "zone_step E z s' l s''" "roomy E z (snd s') l" using run_snoc(2) by (simp_all add: roomy_step_def)
  from step_agrees[OF this h] run_snoc show ?case by (simp add: remembers_snoc)
qed

end
