(* ===== verification/EA_Zone.thy ===== *)
theory EA_Zone
  imports EA_Memory
begin

text \<open>
  The properties of a zone: its store (lookup, ageing, eviction, creation) and its decision engine
  (record, is_blocked, peek).  The lemmas are those of the theories before; the witnesses are on
  the example zone.
\<close>

section \<open>The promises of the decision engine\<close>

text \<open>C3. A ban is enforced until it ends.  Take any well-formed zone in which a client is banned
  until \<open>u\<close>, and any run of locked operations on any clients by any workers (counting, checking,
  forecasting, with the ageing and the evictions they cause).  As long as the clock is before \<open>u\<close>,
  asking for this client is defined and answers that it is banned until \<open>u\<close>.\<close>

theorem ban_enforced:
  assumes "zone_inv E z s" "banned k u (zabs (snd s))" "length k = DIGEST_LEN"
    and "zone_run E z s tr s'" "fst s' \<le> now" "clock_ok now" "now < u"
  shows "\<exists>sh. ea_is_blocked E z (snd s') k now = Some (NGX_OK, (z_threshold z, u), sh)
     \<and> banned k u (zabs sh)"
  by (rule banned_run[OF assms(1,2,4-7)])

lemma ex_step2: "zone_step ref_ngx ex_zone (1000, ex_sh1) (L_record ex_key 1010 NGX_BUSY (2, 1610)) (1010, ex_sh2)"
  by (rule step_record[OF _ _ _ ex_record2[of "(0, 0)"]]) simp_all

lemma ex_step1: "zone_step ref_ngx ex_zone (1000, ex_sh0) (L_record ex_key 1000 NGX_OK (1, 0)) (1000, ex_sh1)"
  by (rule step_record[OF _ _ _ ex_record1[of "(0, 0)"]]) simp_all

definition ex_trace :: "zlabel list" where
  "ex_trace = [L_record ex_key 1000 NGX_OK (1, 0), L_record ex_key 1010 NGX_BUSY (2, 1610)]"

lemma ex_run: "zone_run ref_ngx ex_zone (1000, ex_sh0) ex_trace (1010, ex_sh2)"
proof -
  have "zone_run ref_ngx ex_zone (1000, ex_sh0) ([] @ [L_record ex_key 1000 NGX_OK (1, 0)]) (1000, ex_sh1)"
    by (rule run_snoc, rule run_Nil, rule ex_step1)
  from run_snoc[OF this ex_step2] show ?thesis by (simp add: ex_trace_def)
qed

lemma ex_inv [simp]: "zone_inv ref_ngx ex_zone (t, ex_sh0)" "zone_inv ref_ngx ex_zone (t, ex_sh2)"
  by (simp_all add: zone_inv_def)

text \<open>The example: the client banned at 1010 is still refused at 1020, and what was asked is what
  the evaluation of the call gives.\<close>

theorem ban_enforced_witness:
  "\<exists>sh. ea_is_blocked ref_ngx ex_zone ex_sh2 ex_key 1020 = Some (NGX_OK, (2, 1610), sh)
     \<and> banned ex_key 1610 (zabs sh)"
  using ban_enforced[of ref_ngx ex_zone "(1010, ex_sh2)" ex_key 1610 "[]" "(1010, ex_sh2)" 1020]
  by (simp add: banned_def run_Nil)

text \<open>C4. Nobody is banned without having earned it.  Start from an empty zone and take any run.
  If the answer to a check is that a client is banned until \<open>u\<close>, then \<open>u\<close> is the block time after
  some moment, and in the window that ends at that moment at least the threshold of the client's
  responses were counted in the run.\<close>

theorem ban_earned:
  assumes "zone_inv E z s" "zabs (snd s) = []" "zone_run E z s tr s'"
    and "fst s' \<le> now" "clock_ok now" "length k = DIGEST_LEN"
    and "ea_is_blocked E z (snd s') k now = Some (NGX_OK, (cnt, u), sh)"
  shows "cnt = z_threshold z \<and> now < u \<and> earned z tr k u"
proof -
  note inv = zone_run_hist[OF assms(3,1,2)]
  have b: "a_is_blocked z now k (zabs (snd s')) = (NGX_OK, (cnt, u), zabs sh)"
    using is_blocked_refines[of E z "snd s'" now k] inv assms(5,7) by (auto simp: zone_inv_def)
  obtain c rest where ft: "a_find_touch z now k (zabs (snd s')) = (Some c, rest)"
    using b by (auto simp: a_is_blocked_def split: prod.splits option.splits)
  have c: "cnt = z_threshold z" "u = c_ban c" "now < c_ban c"
    using b ft by (auto simp: a_is_blocked_def client_is_blocked_def Let_def split: if_splits)
  obtain d where "hist_ok z tr (fst s') d" "c_key d = k" "c = d \<lparr> c_seen := now \<rparr>"
    using find_touch_all(2)[OF ft, of "hist_ok z tr (fst s')"] inv by blast
  then show ?thesis using c clock_okD[OF assms(5)] by (auto simp: hist_ok_def)
qed

theorem ban_earned_witness: "1020 < (1610 :: int) \<and> earned ex_zone ex_trace ex_key 1610"
  using ban_earned[OF _ _ ex_run, of 1020 ex_key 2 1610] ex_blocked2 by simp

text \<open>C18. The threshold is reached exactly.  When a first response of an untracked client has been
  counted, and the rest of a threshold's worth of its responses follow within one window, they are
  answered with the counts two, three and so on, and the last one with a ban of the block time.\<close>

theorem burst_reaches_threshold:
  assumes "store_doc E" "wf_zone z" "wf_sh E z sh" "length k = DIGEST_LEN"
    and "a_find k (zabs sh) = None"
    and "ea_record E z sh k t out = Some (rc, out1, sh1)" "rc \<noteq> NGX_ERROR"
    and "2 \<le> z_threshold z" "Suc (length ts) = z_threshold z"
    and "sorted (t # ts)" "\<forall>t' \<in> set (t # ts). clock_ok t'" "List.last (t # ts) < t + z_interval z"
  shows "rc = NGX_OK \<and> out1 = (1, 0)
     \<and> (\<exists>sh2. record_all E z sh1 k ts = Some (burst_results z 1 ts, sh2))"
proof -
  have t: "clock_ok t" using assms(11) by simp
  have r: "wf_sh E z sh1" "a_record z t k (zabs sh) out (rc, out1, zabs sh1)"
    using record_refines[OF assms(1-3) t assms(4), of out] assms(6) by auto
  have "a_find k (a_expire z t 2 (zabs sh)) = None"
    using assms(5) sheds_expire[of t "zabs sh" z 2] by (auto simp: a_find_None sheds_def)
  then have ft: "a_find_touch z t k (zabs sh) = (None, a_expire z t 2 (zabs sh))"
    by (simp add: a_find_touch_def Let_def)
  obtain c rest where c: "zabs sh1 = c # rest" "client_record z t (new_client k t) = (rc, out1, c)"
    using a_record_untracked[OF ft r(2)] assms(7) by metis
  have new: "rc = NGX_OK" "out1 = (1, 0)" "c = \<lparr> c_key = k, c_ban = 0, c_seen = t, c_events = [t] \<rparr>"
    using c(2) assms(8) clock_okD[OF t]
    by (auto simp: client_record_def new_client_def in_window_def Let_def split: if_splits)
  have srt: "sorted ts" "\<forall>t' \<in> set ts. t \<le> t'" using assms(10) by auto
  then have win: "\<forall>t' \<in> set ts. t' < t + z_interval z"
  proof (cases ts rule: rev_cases)
    case (snoc ys y)
    then show ?thesis using srt(1) assms(12) by (auto simp: sorted_append intro: le_less_trans)
  qed simp
  have "\<exists>sh2. record_all E z sh1 k ts = Some (burst_results z (length (c_events c)) ts, sh2)"
    by (rule burst_tail[OF assms(1,2,4) r(1) c(1)])
       (use new assms(9-11) clock_okD[OF t] srt win in \<open>force+\<close>)
  then show ?thesis using new by simp
qed

theorem burst_reaches_threshold_witness:
  "\<exists>sh2. record_all ref_ngx ex_zone ex_sh1 ex_key [1010] = Some ([(NGX_BUSY, 2, 1610)], sh2)"
  using burst_reaches_threshold[OF _ _ _ _ _ ex_record1[of "(0, 0)"], of "[1010]"]
  by (simp add: a_find_def)

text \<open>C13. Counting a response refines the abstract engine on every branch.  On a well-formed zone
  \<^verbatim>\<open>record\<close> is defined (no access outside a node or the ring, no overflow), keeps the zone
  well formed, and its answer and the clients it leaves are those of \<open>a_record\<close>: a tracked client
  is updated and comes to the front; an untracked one is created or refused, and then no ban was
  dropped, and it is refused only if the whole scanned front of the queue is banned.\<close>

theorem record_correct:
  assumes "store_doc E" "wf_zone z" "wf_sh E z sh" "clock_ok now" "length k = DIGEST_LEN"
  shows "\<exists>rc out' sh'. ea_record E z sh k now out = Some (rc, out', sh') \<and> wf_sh E z sh'
     \<and> a_record z now k (zabs sh) out (rc, out', zabs sh')"
  using record_refines[OF assms] by blast

theorem record_correct_witness:
  "\<exists>rc out' sh'. ea_record ref_ngx ex_zone ex_sh1 ex_key 1010 (0, 0) = Some (rc, out', sh')
     \<and> rc = NGX_BUSY \<and> out' = (2, 1610) \<and> wf_sh ref_ngx ex_zone sh'"
  using record_correct[of ref_ngx ex_zone ex_sh1 1010 ex_key "(0, 0)"] by (auto simp: ex_record2)

text \<open>Checking a client refines the abstract engine: \<^verbatim>\<open>is_blocked\<close> is defined, keeps the zone
  well formed, and answers and leaves what \<open>a_is_blocked\<close> does: two clients are aged at most, the one
  asked for comes to the front, an ended ban is cleared, old events are pruned.\<close>

theorem is_blocked_correct:
  assumes "store_doc E" "wf_zone z" "wf_sh E z sh" "clock_ok now"
  shows "\<exists>rc out sh'. ea_is_blocked E z sh k now = Some (rc, out, sh') \<and> wf_sh E z sh'
     \<and> (rc, out, zabs sh') = a_is_blocked z now k (zabs sh)"
  using is_blocked_refines[OF assms] by blast

theorem is_blocked_correct_witness:
  "\<exists>sh'. ea_is_blocked ref_ngx ex_zone ex_sh2 ex_key 1020 = Some (NGX_OK, (2, 1610), sh')
     \<and> (NGX_OK, (2, 1610), zabs sh') = a_is_blocked ex_zone 1020 ex_key (zabs ex_sh2)"
  using is_blocked_correct[of ref_ngx ex_zone ex_sh2 1020 ex_key] by (auto simp: ex_blocked2)

text \<open>C20. The dry-run forecast is exact.  In any state a run reaches from an empty zone,
  \<^verbatim>\<open>peek\<close> foretells the count, the deadline and the verdict that \<^verbatim>\<open>record\<close> would
  report for the same client at the same time, unless the record is refused for lack of memory.\<close>

theorem peek_forecasts_record:
  assumes "zone_inv E z s" "zabs (snd s) = []" "zone_run E z s tr s'"
    and "clock_ok now" "length k = DIGEST_LEN"
    and "ea_record E z (snd s') k now out = Some (rc, (cnt, u), sh)" "rc \<noteq> NGX_ERROR"
  shows "ea_peek E z (snd s') k now = Some (cnt, u, rc = NGX_BUSY)"
proof -
  note inv = zone_run_hist[OF assms(3,1,2)]
  then have i: "store_doc E" "wf_zone z" "wf_sh E z (snd s')" by (simp_all add: zone_inv_def)
  have "a_record z now k (zabs (snd s')) out (rc, (cnt, u), zabs sh)"
    using record_refines[OF i assms(4,5), of out] assms(6) by auto
  moreover have "\<forall>c \<in> set (zabs (snd s')). client_ok z (fst s') c" using inv by (auto simp: hist_ok_def)
  ultimately have "a_peek z now k (zabs (snd s')) = (cnt, u, rc = NGX_BUSY)"
    using record_forecast[OF i(2) assms(4) wf_zabs_keys[OF i(3)]] assms(7) by blast
  then show ?thesis using peek_refines[OF _ i(2,3) assms(4)] i(1) by auto
qed

theorem peek_forecasts_record_witness: "ea_peek ref_ngx ex_zone ex_sh1 ex_key 1010 = Some (2, 1610, True)"
proof -
  have "zone_run ref_ngx ex_zone (1000, ex_sh0) ([] @ [L_record ex_key 1000 NGX_OK (1, 0)]) (1000, ex_sh1)"
    by (rule run_snoc, rule run_Nil, rule ex_step1)
  from peek_forecasts_record[OF _ _ this _ _, of 1010 ex_key "(0, 0)" NGX_BUSY 2 1610 ex_sh2]
  show ?thesis by (simp add: ex_record2)
qed

text \<open>C34. Ageing out a client never changes a later decision.  Take any run of locked operations of any
  workers on any clients, from an empty zone, with all the ageing they cause, in which the zone always has
  room for a new client at the first attempt, so that nobody is evicted.  Every answer in the run, whether
  the client was banned, until when, and how many of its responses are in the window, is the answer of an engine that never drops any client at all.  This rests on the configured
  \<^verbatim>\<open>inactive\<close> not being shorter than the window.\<close>

theorem ageing_is_lossless:
  assumes "zone_inv E z s" "zabs (snd s) = []" "run (roomy_step E z) s tr s'"
  shows "remembers z (\<lambda>k. new_client k 0) tr"
  using roomy_run_agrees[OF assms(3,1,2)] by simp

text \<open>In the example the client is counted once, and aged out when it is asked for an hour later.\<close>

lemma ex_expire_all: "ea_expire ref_ngx ex_zone ex_sh1 5000 2 = Some (ex_sh0 \<lparr> sh_slab := (1, []) \<rparr>)"
  by (simp add: ex_sh1_def ex_sh_def ex_node_def Let_def ea_delete_def queue_remove_def ref_slab_free_def
      ex_sh0_def eval_nat_numeral)

lemma ex_room: "fst (ea_slab_alloc_locked ref_ngx ex_sh0 n) \<noteq> None"
  by (simp add: ea_slab_alloc_locked_def ref_slab_alloc_def ex_sh0_def Let_def)

theorem ageing_is_lossless_witness:
  "\<exists>s'. run (roomy_step ref_ngx ex_zone) (1000, ex_sh0)
       [L_record ex_key 1000 NGX_OK (1, 0), L_is_blocked ex_key 5000 NGX_DECLINED (0, 0)] s'
     \<and> zabs (snd s') = []
     \<and> remembers ex_zone (\<lambda>k. new_client k 0) [L_record ex_key 1000 NGX_OK (1, 0), L_is_blocked ex_key 5000 NGX_DECLINED (0, 0)]"
proof -
  let ?sh = "ex_sh0 \<lparr> sh_slab := (1, []) \<rparr>"
  have b: "ea_is_blocked ref_ngx ex_zone ex_sh1 ex_key 5000 = Some (NGX_DECLINED, (0, 0), ?sh)"
    by (simp add: ea_is_blocked_def ea_find_touch_locked_def ex_expire_all del: One_nat_def) (simp add: ea_lookup_def ex_sh0_def)
  have "run (roomy_step ref_ngx ex_zone) (1000, ex_sh0) [] (1000, ex_sh0)" by (rule run_Nil)
  moreover have "roomy_step ref_ngx ex_zone (1000, ex_sh0) (L_record ex_key 1000 NGX_OK (1, 0)) (1000, ex_sh1)"
    using ex_step1 ex_room by (simp add: roomy_step_def roomy_def ex_find_touch0)
  ultimately have r1: "run (roomy_step ref_ngx ex_zone) (1000, ex_sh0) ([] @ [L_record ex_key 1000 NGX_OK (1, 0)]) (1000, ex_sh1)"
    by (rule run_snoc)
  have e: "zabs ?sh = []" using ex_zabs(1) by (simp add: zabs_def)
  have "zone_step ref_ngx ex_zone (1000, ex_sh1) (L_is_blocked ex_key 5000 NGX_DECLINED (0, 0)) (5000, ?sh)"
    by (rule step_is_blocked[OF _ _ _ b]) (simp_all add: clock_ok_def TIME_MAX_eq)
  then have "roomy_step ref_ngx ex_zone (1000, ex_sh1) (L_is_blocked ex_key 5000 NGX_DECLINED (0, 0)) (5000, ?sh)"
    by (simp add: roomy_step_def roomy_def)
  from run_snoc[OF r1 this]
  have r2: "run (roomy_step ref_ngx ex_zone) (1000, ex_sh0)
      [L_record ex_key 1000 NGX_OK (1, 0), L_is_blocked ex_key 5000 NGX_DECLINED (0, 0)] (5000, ?sh)" by simp
  from ageing_is_lossless[OF _ _ this] have
    "remembers ex_zone (\<lambda>k. new_client k 0) [L_record ex_key 1000 NGX_OK (1, 0), L_is_blocked ex_key 5000 NGX_DECLINED (0, 0)]"
    by simp
  with r2 e show ?thesis by auto
qed

section \<open>The store\<close>

text \<open>Lookup is exact.  In a well-formed store, \<^verbatim>\<open>lookup\<close> with a key and its hash is
  defined; it finds a node if and only if the node is in use and holds this key, and it finds
  nothing if and only if no node holds it, whatever other keys share the hash.\<close>

theorem lookup_exact:
  assumes "memn2cmp_doc E" "wf_sh E z sh"
  shows "(\<exists>r. ea_lookup E sh (ngx_crc32_short E k) k = Some r)
     \<and> (\<forall>a. ea_lookup E sh (ngx_crc32_short E k) k = Some (Some a)
            \<longleftrightarrow> (\<exists>n. sh_heap sh a = Some n \<and> n_data n = k))
     \<and> (ea_lookup E sh (ngx_crc32_short E k) k = Some None
            \<longleftrightarrow> (\<forall>n \<in> ran (sh_heap sh). n_data n \<noteq> k))"
proof -
  have h: "sh_heap sh a = Some n \<Longrightarrow> n_data n = k \<Longrightarrow> n_hash n = ngx_crc32_short E k" for a n
    using wf_shD(6)[OF assms(2)] by (auto simp: wf_node_def)
  have "\<exists>r. ea_lookup E sh (ngx_crc32_short E k) k = Some r" using lookup_find[OF assms] by blast
  moreover have "\<forall>a. ea_lookup E sh (ngx_crc32_short E k) k = Some (Some a)
      \<longleftrightarrow> (\<exists>n. sh_heap sh a = Some n \<and> n_data n = k)"
    unfolding lookup_Some_iff[OF assms] using h by blast
  moreover have "ea_lookup E sh (ngx_crc32_short E k) k = Some None \<longleftrightarrow> (\<forall>n \<in> ran (sh_heap sh). n_data n \<noteq> k)"
    unfolding lookup_None_iff[OF assms] using h by (auto simp: ran_def)
  ultimately show ?thesis by blast
qed

theorem lookup_exact_witness:
  "ea_lookup ref_ngx ex_sh1 (ref_crc32 ex_key) ex_key = Some (Some 1)
   \<and> ea_lookup ref_ngx ex_sh1 (ref_crc32 [1]) [1] = Some None"
proof -
  have "length [1 :: byte] \<noteq> length ex_key" by (simp add: scan_consts)
  then have n: "[1] \<noteq> ex_key" by metis
  show ?thesis
    using lookup_exact[of ref_ngx, OF _ ex_sh1_wf, of ex_key] lookup_exact[of ref_ngx, OF _ ex_sh1_wf, of "[1]"] n
    by (simp add: ex_sh1_def ran_def)
qed

text \<open>Bounded ageing.  \<^verbatim>\<open>expire\<close> with a limit removes clients from the tail of the queue
  only, at most \<open>limit\<close> of them, each without a ban and idle for the configured time, and stops at
  the first that is not; the rest stays as it was, in its order.\<close>

theorem expire_correct:
  assumes "store_doc E" "wf_sh E z sh"
  shows "\<exists>sh' m. ea_expire E z sh now limit = Some sh' \<and> wf_sh E z sh'
     \<and> zabs sh' = take m (zabs sh) \<and> length (zabs sh) - m \<le> limit
     \<and> (\<forall>c \<in> set (drop m (zabs sh)). a_expired z now c)"
proof -
  have "\<exists>m. a_expire z now limit cs = take m cs \<and> length cs - m \<le> limit
     \<and> (\<forall>c \<in> set (drop m cs). a_expired z now c)" for cs
  proof (induction limit arbitrary: cs)
    case 0
    show ?case by (rule exI[of _ "length cs"]) simp
  next
    case (Suc limit)
    show ?case
    proof (cases "cs \<noteq> [] \<and> a_expired z now (List.last cs)")
      case True
      then obtain ds d where cs: "cs = ds @ [d]" by (metis snoc_cases)
      obtain m where m: "a_expire z now limit ds = take m ds" "length ds - m \<le> limit"
        "\<forall>c \<in> set (drop m ds). a_expired z now c" using Suc by blast
      show ?thesis
        by (rule exI[of _ "min m (length ds)"]) (use True m in \<open>auto simp: cs min_def split: if_splits\<close>)
    next
      case False
      show ?thesis by (rule exI[of _ "length cs"]) (use False in auto)
    qed
  qed
  then show ?thesis using expire_refines[OF assms, of now limit] by metis
qed

theorem expire_correct_witness:
  "\<exists>sh' m. ea_expire ref_ngx ex_zone ex_sh1 5000 1 = Some sh' \<and> zabs sh' = take m (zabs ex_sh1)"
  using expire_correct[of ref_ngx ex_zone ex_sh1 5000 1] by auto

text \<open>Forced eviction is the bounded rotating scan it is meant to be.  From the tail, over at
  most 64 clients, the banned ones are passed and moved to the head in their order; the first that
  is not banned is removed.  An active ban is never removed.\<close>

theorem evict_correct:
  assumes "store_doc E" "wf_sh E z sh"
  shows "\<exists>b sh'. ea_evict_one_unblocked E sh now = Some (b, sh') \<and> wf_sh E z sh'
     \<and> (b, zabs sh') = a_evict now 64 (zabs sh)
     \<and> (\<forall>c \<in> set (zabs sh). now < c_ban c \<longrightarrow> c \<in> set (zabs sh'))"
proof -
  obtain b sh' where r: "ea_evict_one_unblocked E sh now = Some (b, sh')" "wf_sh E z sh'"
    "(b, zabs sh') = a_evict now 64 (zabs sh)"
    using evict_refines[OF assms, of now] by (auto simp: EVICT_SCAN_LIMIT_def)
  have "\<forall>c \<in> set (zabs sh). now < c_ban c \<longrightarrow> c \<in> set (zabs sh')"
    using sheds_evict[OF r(3)[symmetric]] unfolding sheds_def by (metis DiffI not_less)
  with r show ?thesis by blast
qed

theorem evict_correct_witness:
  "\<exists>sh'. ea_evict_one_unblocked ref_ngx ex_sh2 1020 = Some (False, sh') \<and> zabs sh' = zabs ex_sh2
     \<and> (\<exists>sh''. ea_evict_one_unblocked ref_ngx ex_sh2 2000 = Some (True, sh'') \<and> zabs sh'' = [])"
  using evict_correct[of ref_ngx ex_zone ex_sh2 1020] evict_correct[of ref_ngx ex_zone ex_sh2 2000]
  by (auto simp: a_evict_def numeral_eq_Suc)

text \<open>The scans of successive calls cover the queue: one that finds nobody hands the next the part
  it has not seen.\<close>

fun evict_calls :: "'s ngx \<Rightarrow> 's shctx \<Rightarrow> time \<Rightarrow> nat \<Rightarrow> (bool \<times> 's shctx) option" where
  "evict_calls E sh now 0 = Some (False, sh)"
| "evict_calls E sh now (Suc n) = do {
     (b, sh) \<leftarrow> ea_evict_one_unblocked E sh now;
     if b then Some (True, sh) else evict_calls E sh now n
   }"

lemma evict_False_split:
  assumes "a_evict now lim cs = (False, cs')"
  shows "\<exists>pre seg. cs = pre @ seg \<and> (\<forall>c \<in> set seg. now < c_ban c) \<and> length seg = min lim (length cs)
     \<and> cs' = seg @ pre"
proof (cases rule: evict_cases[of cs now lim])
  case (refused pre seg)
  then show ?thesis using assms by (intro exI[of _ pre] exI[of _ seg]) simp
qed (use assms in simp)

lemma evict_progress:
  assumes doc: "store_doc E" and "wf_sh E z sh" "zabs sh = front @ rest"
    and "\<forall>c \<in> set front. now < c_ban c" "c \<in> set rest" "c_ban c \<le> now" "length rest \<le> 64 * n"
  shows "\<exists>sh'. evict_calls E sh now n = Some (True, sh')"
  using assms(2-)
proof (induction n arbitrary: sh front rest)
  case 0
  then show ?case by simp
next
  case (Suc n)
  obtain b sh1 where r: "ea_evict_one_unblocked E sh now = Some (b, sh1)" "wf_sh E z sh1"
    "(b, zabs sh1) = a_evict now 64 (zabs sh)"
    using evict_refines[OF doc Suc.prems(1), of now] by (auto simp: EVICT_SCAN_LIMIT_def)
  show ?case
  proof (cases b)
    case True
    then show ?thesis using r by simp
  next
    case False
    have "a_evict now 64 (zabs sh) = (False, zabs sh1)" using r(3) False by simp
    from evict_False_split[OF this] obtain pre seg where s: "zabs sh = pre @ seg" "\<forall>c \<in> set seg. now < c_ban c"
      "length seg = min 64 (length (zabs sh))" "zabs sh1 = seg @ pre"
      by blast
    have "\<exists>rest'. rest = rest' @ seg \<and> pre = front @ rest'"
    proof -
      have n: "c \<notin> set seg" using s(2) Suc.prems(5) by auto
      have "front @ rest = pre @ seg" using s(1) Suc.prems(2) by simp
      then obtain us where "front = pre @ us \<and> us @ rest = seg \<or> front @ us = pre \<and> rest = us @ seg"
        unfolding append_eq_append_conv2 by blast
      then show ?thesis using n Suc.prems(4) by auto
    qed
    then obtain rest' where rest': "rest = rest' @ seg" "pre = front @ rest'" by blast
    have c: "c \<in> set rest'" using Suc.prems(4,5) s(2) rest'(1) by auto
    then have "0 < length rest'" by (cases rest') auto
    moreover have "length (zabs sh) = length front + length rest' + length seg" using s(1) rest'(2) by simp
    ultimately have "length seg = 64" using s(3) by linarith
    then have "length rest' \<le> 64 * n" using Suc.prems(6) rest'(1) by simp
    then have "\<exists>sh'. evict_calls E sh1 now n = Some (True, sh')"
      using Suc.IH[OF r(2), of "seg @ front" rest'] s(2,4) rest'(2) Suc.prems(3,5) c by auto
    then show ?thesis using r(1) False by simp
  qed
qed

text \<open>Eviction is not starved by a tail of banned clients.  If any client of the zone is not
  banned, then of any \<open>n\<close> successive calls with \<open>64 * n\<close> at least the number of clients, one removes a
  client.\<close>

theorem evict_not_starved:
  assumes "store_doc E" "wf_sh E z sh" "c \<in> set (zabs sh)" "c_ban c \<le> now" "length (zabs sh) \<le> 64 * n"
  shows "\<exists>sh'. evict_calls E sh now n = Some (True, sh')"
  using evict_progress[OF assms(1,2), of "[]" "zabs sh" now c n] assms(3-5) by simp

theorem evict_not_starved_witness: "\<exists>sh'. evict_calls ref_ngx ex_sh2 2000 1 = Some (True, sh')"
  using evict_not_starved[of ref_ngx ex_zone ex_sh2 "\<lparr> c_key = ex_key, c_ban = 1610, c_seen = 1010, c_events = [] \<rparr>" 2000 1]
  by simp

text \<open>C29. Creation of a node keeps every ban and fails only under a wall of bans.  For a key that is
  not tracked, \<^verbatim>\<open>create_node\<close> is defined and keeps the store well formed.  If the first
  allocation succeeds, the new client is put in front and nothing is dropped.  Otherwise clients
  may be dropped, but none with an active ban; and if the call gives up, every client in the first
  64 places of the queue is banned.\<close>

theorem create_node_correct:
  assumes "store_doc E" "wf_zone z" "wf_sh E z sh" "length k = DIGEST_LEN" "clock_ok now"
    and "a_find k (zabs sh) = None"
  shows "\<exists>r sh'. ea_create_node E z sh (ngx_crc32_short E k) k now = Some (r, sh') \<and> wf_sh E z sh'
     \<and> (\<forall>c \<in> set (zabs sh). now < c_ban c \<longrightarrow> c \<in> set (zabs sh'))
     \<and> (case r of
          None \<Rightarrow> \<forall>c \<in> set (take 64 (zabs sh')). now < c_ban c
        | Some a \<Rightarrow> a_find k (zabs sh') = Some (new_client k now))
     \<and> (fst (ea_slab_alloc_locked E sh (ea_node_size (length k) (z_threshold z))) \<noteq> None
          \<longrightarrow> zabs sh' = new_client k now # zabs sh)"
proof -
  have new: "\<forall>b m. sh_heap sh b = Some m \<longrightarrow> n_data m \<noteq> k"
    using assms(6) zabs_find[OF assms(3), of k] unfolding a_find_def by (metis option.distinct(1))
  obtain r sh' where r: "ea_create_node E z sh (ngx_crc32_short E k) k now = Some (r, sh')" "wf_sh E z sh'"
    and c: "case r of
          None \<Rightarrow> sheds now (zabs sh) (zabs sh') \<and> (\<forall>c \<in> set (take EVICT_SCAN_LIMIT (zabs sh')). now < c_ban c)
            \<and> fst (ea_slab_alloc_locked E sh (ea_node_size DIGEST_LEN (z_threshold z))) = None
        | Some a \<Rightarrow> (\<exists>n cs. sh_heap sh' a = Some n \<and> absn n = new_client k now \<and> n_data n = k
            \<and> zabs sh' = new_client k now # cs \<and> sheds now (zabs sh) cs
            \<and> (fst (ea_slab_alloc_locked E sh (ea_node_size DIGEST_LEN (z_threshold z))) \<noteq> None \<longrightarrow> cs = zabs sh))"
    using create_node_ok[OF assms(1-4) _ _ new, of now] clock_okD[OF assms(5)] by blast
  have keep: "\<forall>c \<in> set (zabs sh). now < c_ban c \<longrightarrow> c \<in> set cs'" if "sheds now (zabs sh) cs'" for cs'
    using that unfolding sheds_def by (metis DiffI not_less)
  show ?thesis
  proof (cases r)
    case None
    with c have "sheds now (zabs sh) (zabs sh')" "\<forall>c \<in> set (take 64 (zabs sh')). now < c_ban c"
      "fst (ea_slab_alloc_locked E sh (ea_node_size (length k) (z_threshold z))) = None"
      by (simp_all add: EVICT_SCAN_LIMIT_def assms(4))
    then show ?thesis using r None keep by (intro exI[of _ r] exI[of _ sh']) simp
  next
    case (Some a)
    with c obtain cs where cs: "zabs sh' = new_client k now # cs" "sheds now (zabs sh) cs"
      "fst (ea_slab_alloc_locked E sh (ea_node_size (length k) (z_threshold z))) \<noteq> None \<longrightarrow> cs = zabs sh"
      by (auto simp: assms(4))
    then have "a_find k (zabs sh') = Some (new_client k now)" by (simp add: a_find_def new_client_def)
    then show ?thesis using r Some cs keep[OF cs(2)] by (intro exI[of _ r] exI[of _ sh']) simp
  qed
qed

theorem create_node_correct_witness:
  "\<exists>r sh'. ea_create_node ref_ngx ex_zone ex_sh0 (ref_crc32 ex_key) ex_key 1000 = Some (r, sh')
     \<and> zabs sh' = [new_client ex_key 1000]"
proof -
  have "fst (ea_slab_alloc_locked ref_ngx ex_sh0 (ea_node_size (length ex_key) 2)) = Some 1"
    by (simp add: ea_slab_alloc_locked_def ex_sh0_def ref_slab_alloc_def Let_def)
  then show ?thesis
    using create_node_correct[of ref_ngx ex_zone ex_sh0 ex_key 1000] by (auto simp: a_find_def)
qed

text \<open>The event ring lies inside its node.  For every address the allocator may return, the ring
  that \<^verbatim>\<open>events\<close> finds behind the key is aligned for \<^verbatim>\<open>time_t\<close>, begins after the key and
  ends, with all its slots, inside the \<^verbatim>\<open>node_size\<close> bytes that were allocated.\<close>

theorem events_ring_in_node:
  assumes "align_doc E"
  shows "a + OFFSETOF_DATA + kl \<le> ea_events E a kl
     \<and> ea_events E a kl + threshold * 8 \<le> a + ea_node_size kl threshold \<and> 8 dvd ea_events E a kl"
  using events_in_node[OF assms] by blast

theorem events_ring_in_node_witness: "ea_events ref_ngx 4096 32 = 4224 \<and> 4224 + 2 * 8 \<le> 4096 + ea_node_size 32 2"
  using events_ring_in_node[OF ref_align_doc, of 4096 32 2] by (simp add: ea_events_def ref_align_def OFFSETOF_DATA_def)

text \<open>The probe of the test build counts what the engine sees: in one walk, the number of tracked
  clients and, among them, of those whose ban is active.\<close>

theorem probe_counts:
  assumes "wf_sh E z sh"
  shows "ea_probe_count_nodes (Some sh) now
     = Some (length (zabs sh), length (filter (\<lambda>c. now < c_ban c) (zabs sh)))"
proof -
  have "probe_loop (sh_heap sh) now q i j = Some (i + length q, j + length (filter (\<lambda>c. now < c_ban c)
      (map (\<lambda>a. absn (the (sh_heap sh a))) q)))" if "set q \<subseteq> set (sh_queue sh)" for q i j
    using that
  proof (induction q arbitrary: i j)
    case (Cons a q)
    then obtain n where "sh_heap sh a = Some n" using wf_in_queue[OF assms, of a] by auto
    then show ?case using Cons by auto
  qed simp
  from this[of "sh_queue sh" 0 0] show ?thesis by (simp add: ea_probe_count_nodes_def zabs_def)
qed

theorem probe_counts_witness:
  "ea_probe_count_nodes (Some ex_sh2) 1020 = Some (1, 1) \<and> ea_probe_count_nodes (Some ex_sh2) 2000 = Some (1, 0)"
  using probe_counts[OF ex_sh2_wf] by simp

end
