(* ===== verification/EA_Snapshot.thy ===== *)
theory EA_Snapshot
  imports EA_Example
begin

text \<open>
  Snapshots: \<^verbatim>\<open>ngx_http_error_abuse_serialize\<close> writes the store into the zone's buffer,
  \<^verbatim>\<open>ngx_http_error_abuse_load\<close> restores a store from the bytes of a file.  Both are modelled
  on the buffer, byte for byte.  What the operating system answers (does the file open, its size,
  the bytes read, does an allocation succeed) is an argument.
\<close>

section \<open>Constants\<close>

definition VERSION :: "32 word" where "VERSION = 2"
definition FILE_HDR_LEN :: nat where "FILE_HDR_LEN = 24"
definition MAC_LEN :: nat where "MAC_LEN = 32"

text \<open>\<^verbatim>\<open>"NGEAB01"\<close> with its terminating zero.\<close>

definition FILE_MAGIC :: bytes where "FILE_MAGIC = ascii ''NGEAB01'' @ [0]"

lemmas snap_consts = VERSION_def FILE_HDR_LEN_def MAC_LEN_def

lemma FILE_MAGIC_eq: "FILE_MAGIC = [78, 71, 69, 65, 66, 48, 49, 0]"
  by (simp add: FILE_MAGIC_def ascii_def)

section \<open>Serializing\<close>

fun put_events :: "zone \<Rightarrow> node \<Rightarrow> bytes \<Rightarrow> nat \<Rightarrow> nat list \<Rightarrow> (bytes \<times> nat) option" where
  "put_events z n buf p [] = Some (buf, p)"
| "put_events z n buf p (i # is) = do {
     j \<leftarrow> mod_thr z (n_event_head n + i);
     e \<leftarrow> ev_get n j;
     (buf, p) \<leftarrow> ea_put_u64 buf p (word_of_int e);
     put_events z n buf p is
   }"

definition put_record :: "zone \<Rightarrow> node \<Rightarrow> bytes \<Rightarrow> nat \<Rightarrow> (bytes \<times> nat) option" where
  "put_record z n buf p = do {
     (buf, p) \<leftarrow> ea_put_u16 buf p (n_key_len n);
     (buf, p) \<leftarrow> ea_put_u16 buf p (of_nat (n_event_count n));
     (buf, p) \<leftarrow> ea_put_u64 buf p (word_of_int (n_blocked_until n));
     (buf, p) \<leftarrow> ea_put_u64 buf p (word_of_int (n_last_seen n));
     k \<leftarrow> slice (n_data n) 0 (unat (n_key_len n));
     (buf, p) \<leftarrow> cpymem buf p k;
     put_events z n buf p [0..<n_event_count n]
   }"

text \<open>The walk from the tail of the queue; it stops at the first record that does not fit.\<close>

fun serialize_loop ::
  "zone \<Rightarrow> heap \<Rightarrow> nat \<Rightarrow> bytes \<Rightarrow> nat \<Rightarrow> 32 word \<Rightarrow> addr list \<Rightarrow> (bytes \<times> nat \<times> 32 word) option" where
  "serialize_loop z h e buf p records [] = Some (buf, p, records)"
| "serialize_loop z h e buf p records (a # q) = do {
     n \<leftarrow> h a;
     if ptr_diff e p < ea_serialize_rec_len (unat (n_key_len n)) (n_event_count n)
     then Some (buf, p, records)
     else do {
       (buf, p) \<leftarrow> put_record z n buf p;
       serialize_loop z h e buf p (records + 1) q
     }
   }"

text \<open>The grow-only buffer of the zone; \<open>alloc n\<close> is what \<^verbatim>\<open>ngx_alloc(n)\<close> gives: a block of \<open>n\<close>
  bytes of any content, or nothing.\<close>

definition persist_buffer :: "(nat \<Rightarrow> bytes option) \<Rightarrow> bytes option \<Rightarrow> nat \<Rightarrow> bytes option" where
  "persist_buffer alloc pbuf need =
     (case pbuf of
        None \<Rightarrow> alloc need
      | Some b \<Rightarrow> if length b < need then alloc need else Some b)"

text \<open>The result is \<open>None\<close> for \<^verbatim>\<open>NULL\<close>, or the buffer and the length to write.\<close>

definition ea_serialize ::
  "'s ngx \<Rightarrow> zone \<Rightarrow> 's shctx \<Rightarrow> (nat \<Rightarrow> bytes option) \<Rightarrow> bytes option \<Rightarrow> (bytes \<times> nat) option option" where
  "ea_serialize E z sh alloc pbuf =
     (let capacity = z_shm_size z in
      case persist_buffer alloc pbuf (capacity + MAC_LEN) of
        None \<Rightarrow> Some None
      | Some buf \<Rightarrow> do {
          (buf, p, records) \<leftarrow> serialize_loop z (sh_heap sh) capacity buf FILE_HDR_LEN 0 (rev (sh_queue sh));
          payload \<leftarrow> slice buf FILE_HDR_LEN (p - FILE_HDR_LEN);
          let crc = ngx_crc32_long E payload;
          (buf, h) \<leftarrow> cpymem buf 0 FILE_MAGIC;
          (buf, h) \<leftarrow> ea_put_u32 buf h VERSION;
          (buf, h) \<leftarrow> ea_put_u32 buf h (of_nat (z_threshold z));
          (buf, h) \<leftarrow> ea_put_u32 buf h records;
          (buf, h) \<leftarrow> ea_put_u32 buf h crc;
          if z_persist_secret z \<noteq> [] then do {
            covered \<leftarrow> slice buf 0 p;
            case hmac_sha256 E (z_persist_secret z) covered of
              None \<Rightarrow> Some None
            | Some mac \<Rightarrow>
                if length mac \<noteq> MAC_LEN then Some None
                else do {
                  (buf, p) \<leftarrow> cpymem buf p mac;
                  Some (Some (buf, p))
                }
          } else Some (Some (buf, p))
        })"

section \<open>Loading\<close>

datatype file_io =
    IO_OPEN_FAILED
  | IO_STAT_FAILED
  | IO_FILE nat "bytes option"

text \<open>\<^verbatim>\<open>IO_FILE size r\<close>: \<^verbatim>\<open>fstat\<close> gives \<open>size\<close>, and reading that many bytes gives \<open>r\<close>, or fails.\<close>

fun load_events ::
  "zone \<Rightarrow> time \<Rightarrow> bytes \<Rightarrow> node \<Rightarrow> nat \<Rightarrow> nat \<Rightarrow> (node \<times> nat) option" where
  "load_events z now buf n p 0 = Some (n, p)"
| "load_events z now buf n p (Suc k) = do {
     v \<leftarrow> ea_get_u64 buf p;
     let stored_when = sint v;
     cutoff \<leftarrow> t_sub now (z_interval z);
     n \<leftarrow> (if stored_when > cutoff \<and> stored_when \<le> now then do {
             n \<leftarrow> ev_set n (n_event_count n) stored_when;
             Some (n \<lparr> n_event_count := n_event_count n + 1 \<rparr>)
           } else Some n);
     load_events z now buf n (p + 8) k
   }"

text \<open>The fields of a restored node: the ban is clamped, the times are bounded by \<open>now\<close>.\<close>

definition load_node :: "zone \<Rightarrow> time \<Rightarrow> int \<Rightarrow> int \<Rightarrow> node \<Rightarrow> node option" where
  "load_node z now rec_blocked rec_seen n = do {
     bu \<leftarrow> (if rec_blocked > now then do {
              max_deadline \<leftarrow> ea_time_add_saturate now (z_block z);
              Some (if rec_blocked < max_deadline then rec_blocked else max_deadline)
            } else Some 0);
     Some (n \<lparr> n_blocked_until := bu,
               n_last_seen := (if rec_seen > 0 \<and> rec_seen \<le> now then rec_seen else now),
               n_event_head := 0, n_event_count := 0 \<rparr>)
   }"

fun load_loop ::
  "'s ngx \<Rightarrow> zone \<Rightarrow> time \<Rightarrow> bytes \<Rightarrow> nat \<Rightarrow> 's shctx \<Rightarrow> nat \<Rightarrow> nat \<Rightarrow> nat \<Rightarrow> (nat \<times> nat \<times> 's shctx) option" where
  "load_loop E z now buf e sh p loaded 0 = Some (loaded, 0, sh)"
| "load_loop E z now buf e sh p loaded (Suc todo) =
     (if ptr_diff e p < FILE_REC_LEN then Some (loaded, Suc todo, sh)
      else do {
        rec_key_len \<leftarrow> ea_get_u16 buf p;
        rec_event_count \<leftarrow> ea_get_u16 buf (p + 2);
        b \<leftarrow> ea_get_u64 buf (p + 4);
        s \<leftarrow> ea_get_u64 buf (p + 12);
        let rec_blocked = sint b;
        let rec_seen = sint s;
        let p = p + FILE_REC_LEN;
        if unat rec_key_len \<noteq> DIGEST_LEN \<or> unat rec_event_count > z_threshold z
           \<or> ptr_diff e p < unat rec_key_len + unat rec_event_count * 8
        then Some (loaded, Suc todo, sh)
        else do {
          key \<leftarrow> slice buf p (unat rec_key_len);
          let p = p + unat rec_key_len;
          if rec_blocked \<le> now \<and> unat rec_event_count = 0
          then load_loop E z now buf e sh p loaded todo
          else do {
            let hash = ngx_crc32_short E key;
            r \<leftarrow> ea_lookup E sh hash key;
            (r, sh) \<leftarrow> (if r = None then ea_create_node E z sh hash key now else Some (r, sh));
            case r of
              None \<Rightarrow> Some (loaded, Suc todo, sh)
            | Some a \<Rightarrow> do {
                n \<leftarrow> sh_heap sh a;
                n \<leftarrow> load_node z now rec_blocked rec_seen n;
                (n, p) \<leftarrow> load_events z now buf n p (unat rec_event_count);
                load_loop E z now buf e (set_node sh a n) p (loaded + 1) todo
              }
          }
        }
      })"

text \<open>The outcome names why a file was not used; only a checksum mismatch deletes the file.\<close>

datatype load_outcome =
    LOAD_NO_FILE | LOAD_BAD_SIZE | LOAD_READ_FAILED | LOAD_HMAC_FAILED | LOAD_INCOMPATIBLE
  | LOAD_CORRUPT_DELETED | LOAD_MALFORMED | LOAD_DONE nat nat

definition load_buffer ::
  "'s ngx \<Rightarrow> zone \<Rightarrow> 's shctx \<Rightarrow> time \<Rightarrow> bytes \<Rightarrow> nat \<Rightarrow> (load_outcome \<times> 's shctx) option" where
  "load_buffer E z sh now buffer mac_len = do {
     let payload_size = length buffer - mac_len;
     hmac_ok \<leftarrow> (if mac_len \<noteq> 0 then do {
                   covered \<leftarrow> slice buffer 0 payload_size;
                   stored \<leftarrow> slice buffer payload_size MAC_LEN;
                   Some (case hmac_sha256 E (z_persist_secret z) covered of
                           None \<Rightarrow> False
                         | Some mac \<Rightarrow> length mac = MAC_LEN \<and> mac = stored)
                 } else Some True);
     if \<not> hmac_ok then Some (LOAD_HMAC_FAILED, sh)
     else do {
       magic \<leftarrow> slice buffer 0 8;
       version \<leftarrow> ea_get_u32 buffer 8;
       threshold \<leftarrow> ea_get_u32 buffer 12;
       if magic \<noteq> FILE_MAGIC \<or> version \<noteq> VERSION \<or> unat threshold \<noteq> z_threshold z
       then Some (LOAD_INCOMPATIBLE, sh)
       else do {
         f_records \<leftarrow> ea_get_u32 buffer 16;
         let p = FILE_HDR_LEN;
         let e = payload_size;
         crc \<leftarrow> ea_get_u32 buffer 20;
         payload \<leftarrow> slice buffer p (e - p);
         if crc \<noteq> ngx_crc32_long E payload then Some (LOAD_CORRUPT_DELETED, sh)
         else do {
           valid \<leftarrow> ea_validate_snapshot buffer p e f_records (z_threshold z);
           if valid \<noteq> NGX_OK then Some (LOAD_MALFORMED, sh)
           else do {
             (loaded, dropped, sh) \<leftarrow> load_loop E z now buffer e sh p 0 (unat f_records);
             Some (LOAD_DONE loaded dropped, sh)
           }
         }
       }
     }
   }"

definition ea_load ::
  "'s ngx \<Rightarrow> zone \<Rightarrow> 's shctx \<Rightarrow> time \<Rightarrow> file_io \<Rightarrow> bool \<Rightarrow> (ngx_rc \<times> load_outcome \<times> 's shctx) option" where
  "ea_load E z sh now io alloc_ok =
     (let mac_len = (if z_persist_secret z \<noteq> [] then MAC_LEN else 0) in
      case io of
        IO_OPEN_FAILED \<Rightarrow> Some (NGX_OK, LOAD_NO_FILE, sh)
      | IO_STAT_FAILED \<Rightarrow> Some (NGX_OK, LOAD_NO_FILE, sh)
      | IO_FILE sz r \<Rightarrow>
          if sz < FILE_HDR_LEN + mac_len \<or> sz > z_shm_size z + mac_len
          then Some (NGX_OK, LOAD_BAD_SIZE, sh)
          else if \<not> alloc_ok then Some (NGX_ERROR, LOAD_READ_FAILED, sh)
          else (case r of
              None \<Rightarrow> Some (NGX_OK, LOAD_READ_FAILED, sh)
            | Some buffer \<Rightarrow> do {
                (outcome, sh) \<leftarrow> load_buffer E z sh now buffer mac_len;
                Some (NGX_OK, outcome, sh)
              }))"

section \<open>What a snapshot holds\<close>

definition rec_of :: "client \<Rightarrow> snap_rec" where
  "rec_of c = \<lparr> sr_blocked = word_of_int (c_ban c), sr_seen = word_of_int (c_seen c), sr_key = c_key c,
     sr_events = map word_of_int (c_events c) \<rparr>"

definition enc_hdr :: "'s ngx \<Rightarrow> zone \<Rightarrow> snap_rec list \<Rightarrow> bytes" where
  "enc_hdr E z rs = FILE_MAGIC @ le_bytes 4 VERSION @ le_bytes 4 (of_nat (z_threshold z) :: 32 word)
     @ le_bytes 4 (of_nat (length rs) :: 32 word) @ le_bytes 4 (ngx_crc32_long E (enc_recs rs))"

definition enc_file :: "'s ngx \<Rightarrow> zone \<Rightarrow> snap_rec list \<Rightarrow> bytes" where
  "enc_file E z rs = enc_hdr E z rs @ enc_recs rs"

lemma length_FILE_MAGIC [simp]: "length FILE_MAGIC = 8"
  by (simp add: FILE_MAGIC_eq)

lemma length_enc_hdr [simp]: "length (enc_hdr E z rs) = 24"
  by (simp add: enc_hdr_def)

text \<open>The records, from the tail of the queue, that fit before \<open>e\<close>.\<close>

fun fitting :: "nat \<Rightarrow> snap_rec list \<Rightarrow> snap_rec list" where
  "fitting room [] = []"
| "fitting room (r # rs) =
     (if room < length (enc_rec r) then [] else r # fitting (room - length (enc_rec r)) rs)"

lemma fitting_all: "length (enc_recs rs) \<le> room \<Longrightarrow> fitting room rs = rs"
  by (induction rs arbitrary: room) auto

lemma fitting_room: "length (enc_recs (fitting room rs)) \<le> room"
  by (induction room rs rule: fitting.induct) auto

lemma set_fitting: "set (fitting room rs) \<subseteq> set rs"
  by (induction room rs rule: fitting.induct) auto

section \<open>Serializing writes the file image\<close>

lemma put_events_eq:
  assumes "length (n_events n) = z_threshold z" "0 < z_threshold z" "p + 8 * length is \<le> length buf"
  shows "put_events z n buf p is = Some (overwrite buf p (enc_events (map (\<lambda>i.
      word_of_int (n_events n ! ((n_event_head n + i) mod z_threshold z))) is)), p + 8 * length is)"
  using assms
proof (induction "is" arbitrary: buf p)
  case (Cons i "is")
  then show ?case
    by (simp add: mod_thr_def ev_get_def put_u64_eq overwrite_overwrite add.assoc)
qed simp

lemma put_record_eq:
  assumes "wf_zone z" "wf_node E z n" "p + length (enc_rec (rec_of (absn n))) \<le> length buf"
  shows "put_record z n buf p
     = Some (overwrite buf p (enc_rec (rec_of (absn n))), p + length (enc_rec (rec_of (absn n))))"
proof -
  have n: "length (n_events n) = z_threshold z" "length (n_data n) = 32" "n_key_len n = 32"
    "n_key_len n = of_nat (length (n_data n))"
    using assms(2) by (auto simp: wf_node_def scan_consts)
  have len: "p + (52 + 8 * n_event_count n) \<le> length buf"
    using assms(3) n by (simp add: rec_of_def scan_consts)
  have r: "map word_of_int (ring n)
      = map (\<lambda>i. word_of_int (n_events n ! ((n_event_head n + i) mod z_threshold z)) :: 64 word) [0..<n_event_count n]"
    using n(1) by (simp add: ring_def ring_of_def)
  have pe: "put_events z n b q [0..<n_event_count n]
      = Some (overwrite b q (enc_events (map word_of_int (ring n))), q + 8 * n_event_count n)"
    if "q + 8 * n_event_count n \<le> length b" for b q
    unfolding r using put_events_eq[OF n(1), of q "[0..<n_event_count n]" b] wf_zoneD[OF assms(1)] that by simp
  have k: "slice (n_data n) 0 32 = Some (n_data n)" using n(2) by (simp add: slice_def)
  show ?thesis
    using len n(2,3)
    by (simp add: put_record_def put_u16_eq put_u64_eq overwrite_overwrite k cpymem_def pe enc_rec_def enc_head_def
        rec_of_def scan_consts)
qed

lemma serialize_loop_eq:
  assumes z: "wf_zone z" and e: "e \<le> length buf" "e < 2 ^ 64" "p \<le> e"
    and nodes: "\<forall>a \<in> set q. \<exists>n. h a = Some n \<and> wf_node E z n"
  shows "serialize_loop z h e buf p records q =
     (let rs = fitting (e - p) (map (\<lambda>a. rec_of (absn (the (h a)))) q)
      in Some (overwrite buf p (enc_recs rs), p + length (enc_recs rs), records + of_nat (length rs)))"
  using e nodes
proof (induction q arbitrary: buf p records)
  case Nil
  then show ?case by simp
next
  case (Cons a q)
  obtain n where n: "h a = Some n" "wf_node E z n" using Cons.prems(4) by auto
  define r where "r = rec_of (absn n)"
  have len: "ea_serialize_rec_len (unat (n_key_len n)) (n_event_count n) = length (enc_rec r)"
    using n(2) by (simp add: ea_serialize_rec_len_def r_def rec_of_def wf_node_def scan_consts)
  have pd: "ptr_diff e p = e - p" using Cons.prems(2,3) by (simp add: ptr_diff_le)
  show ?case
  proof (cases "e - p < length (enc_rec r)")
    case True
    then show ?thesis by (simp add: n(1) len pd Let_def r_def)
  next
    case False
    then have fits: "p + length (enc_rec r) \<le> e" using Cons.prems(3) by linarith
    then have pr: "put_record z n buf p = Some (overwrite buf p (enc_rec r), p + length (enc_rec r))"
      using put_record_eq[OF z n(2), of p buf] Cons.prems(1) by (simp add: r_def)
    define rs where "rs = fitting (e - (p + length (enc_rec r))) (map (\<lambda>a. rec_of (absn (the (h a)))) q)"
    have "length (enc_recs rs) \<le> e - (p + length (enc_rec r))" unfolding rs_def by (rule fitting_room)
    then have room: "p + length (enc_rec r) + length (enc_recs rs) \<le> length buf" using fits Cons.prems(1) by linarith
    have ih: "serialize_loop z h e (overwrite buf p (enc_rec r)) (p + length (enc_rec r)) (records + 1) q
        = Some (overwrite (overwrite buf p (enc_rec r)) (p + length (enc_rec r)) (enc_recs rs),
            p + length (enc_rec r) + length (enc_recs rs), records + 1 + of_nat (length rs))"
      using Cons.IH[of "overwrite buf p (enc_rec r)" "p + length (enc_rec r)" "records + 1"] Cons.prems fits
      by (simp add: rs_def Let_def)
    have fit: "fitting (e - p) (map (\<lambda>a. rec_of (absn (the (h a)))) (a # q)) = r # rs"
      using False n(1) by (simp add: r_def rs_def)
    show ?thesis
      unfolding fit using False room
      by (simp add: n(1) len pd pr ih overwrite_overwrite Let_def del: length_enc_rec)
  qed
qed

definition mac_of :: "'s ngx \<Rightarrow> zone \<Rightarrow> bytes \<Rightarrow> bytes option" where
  "mac_of E z msg = (if z_persist_secret z = [] then Some [] else hmac_sha256 E (z_persist_secret z) msg)"

lemma serialize_image:
  assumes z: "wf_zone z" and wf: "wf_sh E z sh" and dig: "digest_doc E"
    and cap: "FILE_HDR_LEN \<le> z_shm_size z" "z_shm_size z < 2 ^ 63"
    and buf: "persist_buffer alloc pbuf (z_shm_size z + MAC_LEN) = Some buf" "z_shm_size z + MAC_LEN \<le> length buf"
  defines "rs \<equiv> fitting (z_shm_size z - FILE_HDR_LEN) (map rec_of (rev (zabs sh)))"
  shows "case mac_of E z (enc_file E z rs) of
      None \<Rightarrow> ea_serialize E z sh alloc pbuf = Some None
    | Some mac \<Rightarrow> \<exists>buf'. ea_serialize E z sh alloc pbuf = Some (Some (buf', length (enc_file E z rs @ mac)))
        \<and> take (length (enc_file E z rs @ mac)) buf' = enc_file E z rs @ mac \<and> length buf' = length buf"
proof -
  have nodes: "\<forall>a \<in> set (rev (sh_queue sh)). \<exists>n. sh_heap sh a = Some n \<and> wf_node E z n"
    using wf_shD(2,6)[OF wf] by auto
  define pay where "pay = enc_recs rs"
  have room: "length pay \<le> z_shm_size z - 24"
    unfolding pay_def rs_def using fitting_room by (simp add: snap_consts)
  have "serialize_loop z (sh_heap sh) (z_shm_size z) buf FILE_HDR_LEN 0 (rev (sh_queue sh))
      = Some (overwrite buf 24 pay, 24 + length pay, of_nat (length rs))"
    using serialize_loop_eq[OF z _ _ _ nodes, of "z_shm_size z" buf FILE_HDR_LEN 0] cap buf(2)
    by (simp add: Let_def snap_consts pay_def rs_def zabs_def rev_map comp_def)
  moreover have sl: "slice (overwrite buf 24 pay) 24 (length pay) = Some pay"
    using room cap buf(2) by (simp add: slice_def overwrite_def snap_consts)
  moreover define buf1 where "buf1 = overwrite (overwrite buf 24 pay) 0 (enc_hdr E z rs)"
  have hdr: "overwrite (overwrite buf 24 pay) 0 (FILE_MAGIC @ le_bytes 4 VERSION @ le_bytes 4 (of_nat (z_threshold z) :: 32 word)
      @ le_bytes 4 (of_nat (length rs) :: 32 word) @ le_bytes 4 (ngx_crc32_long E pay)) = buf1"
    by (simp add: buf1_def enc_hdr_def pay_def)
  have len: "length buf1 = length buf" "24 + length pay + 32 \<le> length buf"
    using room cap buf(2) by (simp_all add: buf1_def snap_consts)
  have tk: "take (24 + length pay) buf1 = enc_file E z rs" "slice buf1 0 (24 + length pay) = Some (enc_file E z rs)"
    "length (enc_file E z rs) = 24 + length pay"
    using len by (simp_all add: buf1_def overwrite_def enc_file_def pay_def slice_def)
  ultimately have run: "ea_serialize E z sh alloc pbuf =
     (if z_persist_secret z \<noteq> [] then
        case hmac_sha256 E (z_persist_secret z) (enc_file E z rs) of
          None \<Rightarrow> Some None
        | Some mac \<Rightarrow> if length mac \<noteq> MAC_LEN then Some None
            else do { (buf, p) \<leftarrow> cpymem buf1 (24 + length pay) mac; Some (Some (buf, p)) }
      else Some (Some (buf1, 24 + length pay)))"
    using buf(1) len
    by (simp add: ea_serialize_def Let_def cpymem_def [of _ 0] put_u32_eq overwrite_overwrite hdr FILE_HDR_LEN_def
        MAC_LEN_def cong: if_cong split: option.split)
  show ?thesis
  proof (cases "z_persist_secret z = []")
    case True
    then show ?thesis using run tk len by (simp add: mac_of_def)
  next
    case False
    show ?thesis
    proof (cases "hmac_sha256 E (z_persist_secret z) (enc_file E z rs)")
      case None
      then show ?thesis using False run by (simp add: mac_of_def)
    next
      case (Some mac)
      then have m: "length mac = 32" using hmac_length[OF dig] by blast
      define buf2 where "buf2 = overwrite buf1 (24 + length pay) mac"
      have b2: "cpymem buf1 (24 + length pay) mac = Some (buf2, 24 + length pay + 32)" "length buf2 = length buf"
        using m len by (simp_all add: cpymem_def buf2_def)
      have "take (24 + length pay + 32) buf2 = take (24 + length pay) buf1 @ mac"
        using m len by (simp add: buf2_def overwrite_def)
      then have "take (length (enc_file E z rs @ mac)) buf2 = enc_file E z rs @ mac" using tk m by simp
      moreover have "ea_serialize E z sh alloc pbuf = Some (Some (buf2, length (enc_file E z rs @ mac)))"
        unfolding run using Some False b2(1) m tk(3) by (simp add: MAC_LEN_def)
      moreover have "mac_of E z (enc_file E z rs) = Some mac" using Some False by (simp add: mac_of_def)
      ultimately show ?thesis using b2(2) by simp
    qed
  qed
qed

section \<open>Loading is defined on every file\<close>

text \<open>The bounds that a restored client satisfies.\<close>

definition restored_ok :: "zone \<Rightarrow> time \<Rightarrow> client \<Rightarrow> bool" where
  "restored_ok z now c \<longleftrightarrow> c_ban c \<le> sat_add now (z_block z) \<and> 0 \<le> c_seen c \<and> c_seen c \<le> now
     \<and> length (c_events c) \<le> z_threshold z
     \<and> (\<forall>e \<in> set (c_events c). now - z_interval z < e \<and> e \<le> now)"

text \<open>The client a record stands for, at the time of the load.\<close>

definition restore :: "zone \<Rightarrow> time \<Rightarrow> snap_rec \<Rightarrow> client" where
  "restore z now r = \<lparr> c_key = sr_key r,
     c_ban = (if sint (sr_blocked r) > now then min (sint (sr_blocked r)) (sat_add now (z_block z)) else 0),
     c_seen = (if sint (sr_seen r) > 0 \<and> sint (sr_seen r) \<le> now then sint (sr_seen r) else now),
     c_events = filter (\<lambda>e. now - z_interval z < e \<and> e \<le> now) (map sint (sr_events r)) \<rparr>"

lemma sint64_range: "- (2 ^ 63) \<le> sint (v :: 64 word)" "sint (v :: 64 word) < 2 ^ 63"
  using sint_ge[of v] sint_lt[of v] by simp_all

lemma load_node_ok:
  assumes z: "wf_zone z" and now: "clock_ok now" and n: "wf_node E z n"
  shows "\<exists>n'. load_node z now (sint (b :: 64 word)) (sint (s :: 64 word)) n = Some n' \<and> wf_node E z n' \<and> n_data n' = n_data n
     \<and> n_event_head n' = 0 \<and> n_event_count n' = 0
     \<and> n_blocked_until n' = (if sint b > now then min (sint b) (sat_add now (z_block z)) else 0)
     \<and> n_last_seen n' = (if sint s > 0 \<and> sint s \<le> now then sint s else now)"
  using n sat_block[OF z now] clock_okD[OF now] sint64_range[of b] sint64_range[of s] wf_zoneD[OF z]
  by (auto simp: load_node_def wf_node_def min_def)

lemma load_events_ok:
  assumes z: "wf_zone z" and now: "clock_ok now"
    and "wf_node E z n" "n_event_head n = 0" "n_event_count n + length vs \<le> z_threshold z"
    and "drop p buf = enc_events vs @ post"
  shows "\<exists>n'. load_events z now buf n p (length vs) = Some (n', p + 8 * length vs) \<and> wf_node E z n' \<and> n_data n' = n_data n
     \<and> n_event_head n' = 0 \<and> n_blocked_until n' = n_blocked_until n \<and> n_last_seen n' = n_last_seen n
     \<and> ring n' = ring n @ filter (\<lambda>e. now - z_interval z < e \<and> e \<le> now) (map sint vs)"
  using assms(3-)
proof (induction vs arbitrary: n p)
  case Nil
  then show ?case by simp
next
  case (Cons v vs)
  have g: "ea_get_u64 buf p = Some v"
    using u64.get_at[of p buf v "enc_events vs @ post"] Cons.prems(4) by simp
  have d: "drop (p + 8) buf = enc_events vs @ post"
    unfolding drop_plus[of p] using Cons.prems(4) by simp
  define n1 where "n1 = (if now - z_interval z < sint v \<and> sint v \<le> now
     then n \<lparr> n_events := (n_events n)[n_event_count n := sint v], n_event_count := n_event_count n + 1 \<rparr> else n)"
  have cnt: "n_event_count n < length (n_events n)" "length (n_events n) = z_threshold z"
    using Cons.prems(1,3) by (simp_all add: wf_node_def)
  have step: "(if sint v > now - z_interval z \<and> sint v \<le> now then do {
             n \<leftarrow> ev_set n (n_event_count n) (sint v);
             Some (n \<lparr> n_event_count := n_event_count n + 1 \<rparr>)
           } else Some n) = Some n1"
    using cnt by (simp add: n1_def ev_set_def)
  have "time_rep (sint v)" using sint64_range[of v] by (simp add: time_rep_def)
  then have wf1: "wf_node E z n1" using Cons.prems(1,3)
    by (auto simp: n1_def wf_node_def dest: set_update_subset_insert[THEN subsetD])
  have h1: "n_event_head n1 = 0" "n_data n1 = n_data n" "n_blocked_until n1 = n_blocked_until n"
    "n_last_seen n1 = n_last_seen n" "n_event_count n1 + length vs \<le> z_threshold z"
    using Cons.prems(2,3) by (simp_all add: n1_def)
  have r1: "ring n1 = ring n @ filter (\<lambda>e. now - z_interval z < e \<and> e \<le> now) [sint v]"
    using ring_of_append[OF cnt(1), of 0 "sint v"] cnt Cons.prems(2) by (auto simp: n1_def ring_def)
  obtain n' where "load_events z now buf n1 (p + 8) (length vs) = Some (n', p + 8 + 8 * length vs)"
    "wf_node E z n'" "n_data n' = n_data n1" "n_event_head n' = 0" "n_blocked_until n' = n_blocked_until n1"
    "n_last_seen n' = n_last_seen n1"
    "ring n' = ring n1 @ filter (\<lambda>e. now - z_interval z < e \<and> e \<le> now) (map sint vs)"
    using Cons.IH[OF wf1 h1(1,5) d] by blast
  then show ?case
    using g step h1 r1 by (simp add: cutoff_ok[OF z now] Let_def)
qed

text \<open>A position that passes the loop's three checks holds an encoded record.\<close>

lemma record_at:
  assumes "e \<le> length buf" "p \<le> e" "20 \<le> e - p"
    and "ea_get_u16 buf p = Some kl" "ea_get_u16 buf (p + 2) = Some cw"
    and "unat kl = 32" "32 + unat cw * 8 \<le> e - (p + 20)"
  shows "\<exists>r post. drop p buf = enc_rec r @ post \<and> length (sr_key r) = 32 \<and> length (sr_events r) = unat cw
     \<and> p + length (enc_rec r) \<le> e"
proof -
  define bs where "bs = drop p buf"
  have len: "52 + 8 * unat cw \<le> e - p" "52 + 8 * unat cw \<le> length bs"
    using assms(1-3,7) by (simp_all add: bs_def)
  have "p + 2 \<le> length buf" "p + 2 + 2 \<le> length buf" using assms(1-3) by linarith+
  then have "kl = le_word (take 2 bs)" "cw = le_word (take 2 (drop 2 bs))"
    using assms(4,5) by (simp_all add: get_u16_eq bs_def add.commute)
  then have "enc_rec (dec_rec (unat cw) bs) = take (52 + 8 * unat cw) bs"
    using enc_dec_rec[OF len(2)] assms(6) by (simp add: word_unat_eq_iff)
  then have "bs = enc_rec (dec_rec (unat cw) bs) @ drop (52 + 8 * unat cw) bs" by simp
  moreover have "length (sr_key (dec_rec (unat cw) bs)) = 32" "length (sr_events (dec_rec (unat cw) bs)) = unat cw"
    using len by (simp_all add: dec_rec_def scan_consts)
  moreover have "p + length (enc_rec (dec_rec (unat cw) bs)) \<le> e"
    using calculation(2,3) len(1) assms(2,3) by (simp add: FILE_REC_LEN_def)
  ultimately show ?thesis unfolding bs_def by blast
qed

definition skipped :: "time \<Rightarrow> snap_rec \<Rightarrow> bool" where
  "skipped now r \<longleftrightarrow> sint (sr_blocked r) \<le> now \<and> sr_events r = []"

text \<open>What one restored record does to the clients; \<open>room\<close> says that the first allocation succeeds.\<close>

definition a_restored :: "zone \<Rightarrow> time \<Rightarrow> snap_rec \<Rightarrow> bool \<Rightarrow> client list \<Rightarrow> client list \<Rightarrow> bool" where
  "a_restored z now r room cs cs' \<longleftrightarrow>
     (if a_find (sr_key r) cs \<noteq> None
      then cs' = map (\<lambda>c. if c_key c = sr_key r then restore z now r else c) cs
      else \<exists>rest. sheds now cs rest \<and> cs' = restore z now r # rest \<and> (room \<longrightarrow> rest = cs))"

lemma fill_node:
  assumes z: "wf_zone z" and now: "clock_ok now" and wf: "wf_sh E z sh" and n: "sh_heap sh a = Some n"
    and key: "n_data n = sr_key r" and ev: "length (sr_events r) \<le> z_threshold z"
    and d: "drop p buf = enc_events (sr_events r) @ post"
  shows "\<exists>n1 n2. load_node z now (sint (sr_blocked r)) (sint (sr_seen r)) n = Some n1
     \<and> load_events z now buf n1 p (length (sr_events r)) = Some (n2, p + 8 * length (sr_events r))
     \<and> wf_sh E z (set_node sh a n2)
     \<and> zabs (set_node sh a n2) = map (\<lambda>c. if c_key c = sr_key r then restore z now r else c) (zabs sh)"
proof -
  have wn: "wf_node E z n" using wf_shD(6)[OF wf n] .
  obtain n1 where n1: "load_node z now (sint (sr_blocked r)) (sint (sr_seen r)) n = Some n1" "wf_node E z n1"
    "n_data n1 = n_data n" "n_event_head n1 = 0" "n_event_count n1 = 0"
    "n_blocked_until n1 = (if sint (sr_blocked r) > now then min (sint (sr_blocked r)) (sat_add now (z_block z)) else 0)"
    "n_last_seen n1 = (if sint (sr_seen r) > 0 \<and> sint (sr_seen r) \<le> now then sint (sr_seen r) else now)"
    using load_node_ok[OF z now wn] by blast
  have "n_event_count n1 + length (sr_events r) \<le> z_threshold z" using n1(5) ev by simp
  from load_events_ok[OF z now n1(2,4) this d] obtain n2 where n2:
    "load_events z now buf n1 p (length (sr_events r)) = Some (n2, p + 8 * length (sr_events r))"
    "wf_node E z n2" "n_data n2 = n_data n1" "n_blocked_until n2 = n_blocked_until n1" "n_last_seen n2 = n_last_seen n1"
    "ring n2 = ring n1 @ filter (\<lambda>e. now - z_interval z < e \<and> e \<le> now) (map sint (sr_events r))" by blast
  have "ring n1 = []" using n1(5) by (simp add: ring_def)
  then have "absn n2 = restore z now r" using n1 n2 key by (simp add: absn_def restore_def)
  moreover have "wf_sh E z (set_node sh a n2)" using set_node_wf[OF wf n n2(2)] n1(3) n2(3) by simp
  moreover have "zabs (set_node sh a n2) = map (\<lambda>c. if c_key c = n_data n then absn n2 else c) (zabs sh)"
    by (rule set_node_zabs[OF wf n])
  ultimately show ?thesis using n1(1) n2(1) key by auto
qed

lemma load_step:
  assumes doc: "store_doc E" and z: "wf_zone z" and now: "clock_ok now" and wf: "wf_sh E z sh"
    and e: "e \<le> length buf" "e < 2 ^ 64"
    and at: "drop p buf = enc_rec r @ post" "length (sr_key r) = 32" "length (sr_events r) \<le> z_threshold z"
      "p + length (enc_rec r) \<le> e"
  defines "q \<equiv> p + length (enc_rec r)"
    and "room \<equiv> fst (ea_slab_alloc_locked E sh (ea_node_size DIGEST_LEN (z_threshold z))) \<noteq> None"
  shows "if skipped now r then load_loop E z now buf e sh p loaded (Suc k) = load_loop E z now buf e sh q loaded k
    else \<exists>sh'. wf_sh E z sh' \<and>
      ((load_loop E z now buf e sh p loaded (Suc k) = load_loop E z now buf e sh' q (loaded + 1) k
          \<and> a_restored z now r room (zabs sh) (zabs sh')
          \<and> (a_find (sr_key r) (zabs sh) = None \<and> room \<longrightarrow> sh_fault_nth sh' = sh_fault_nth sh
               \<and> sh_slab sh' = sh_slab (snd (ea_slab_alloc_locked E sh (ea_node_size DIGEST_LEN (z_threshold z))))))
       \<or> (load_loop E z now buf e sh p loaded (Suc k) = Some (loaded, Suc k, sh')
          \<and> sheds now (zabs sh) (zabs sh') \<and> \<not> room \<and> a_find (sr_key r) (zabs sh) = None))"
proof -
  have thr: "z_threshold z \<le> 1024" using z by (simp add: wf_zone_def MAX_THRESHOLD_def)
  have le: "p + (52 + 8 * length (sr_events r)) \<le> e" using at(2,4) by (simp add: FILE_REC_LEN_def)
  have pd: "ptr_diff e p = e - p" "ptr_diff e (p + 20) = e - (p + 20)" using le e(2) by (simp_all add: ptr_diff_le)
  have gets: "ea_get_u16 buf p = Some 32" "ea_get_u16 buf (p + 2) = Some (of_nat (length (sr_events r)))"
    "ea_get_u64 buf (p + 4) = Some (sr_blocked r)" "ea_get_u64 buf (p + 12) = Some (sr_seen r)"
    using enc_rec_gets[OF at(1)] at(2) by simp_all
  have cu: "unat (of_nat (length (sr_events r)) :: 16 word) = length (sr_events r)"
    using at(3) thr by (simp add: unat_of_nat)
  have d: "drop (p + 20) buf = sr_key r @ enc_events (sr_events r) @ post"
    "drop (p + 52) buf = enc_events (sr_events r) @ post"
    using drop_enc_rec(5,6)[OF at(1)] at(2) by simp_all
  have sl: "slice buf (p + 20) 32 = Some (sr_key r)"
    using d(1) at(2) le e(1) by (simp add: slice_def)
  have chk: "\<not> e - p < 20" "\<not> e - (p + 20) < 32 + length (sr_events r) * 8" using le by linarith+
  have q: "q = p + 52 + 8 * length (sr_events r)" using at(2) by (simp add: q_def FILE_REC_LEN_def)
  define fill where "fill = (\<lambda>a sh1. do {
      n \<leftarrow> sh_heap sh1 a;
      n \<leftarrow> load_node z now (sint (sr_blocked r)) (sint (sr_seen r)) n;
      (n, p) \<leftarrow> load_events z now buf n (p + 52) (unat (of_nat (length (sr_events r)) :: 16 word));
      load_loop E z now buf e (set_node sh1 a n) p (loaded + 1) k })"
  have run: "load_loop E z now buf e sh p loaded (Suc k) =
     (if skipped now r then load_loop E z now buf e sh (p + 52) loaded k
      else do {
        x \<leftarrow> ea_lookup E sh (ngx_crc32_short E (sr_key r)) (sr_key r);
        (x, sh1) \<leftarrow> (if x = None then ea_create_node E z sh (ngx_crc32_short E (sr_key r)) (sr_key r) now else Some (x, sh));
        case x of None \<Rightarrow> Some (loaded, Suc k, sh1) | Some a \<Rightarrow> fill a sh1 })"
    unfolding fill_def using chk at(3)
    by (simp add: pd gets cu sl scan_consts skipped_def Let_def add.assoc cong: option.case_cong)
  have fill: "\<exists>sh2. wf_sh E z sh2 \<and> fill a sh1 = load_loop E z now buf e sh2 q (loaded + 1) k
      \<and> sh_slab sh2 = sh_slab sh1 \<and> sh_fault_nth sh2 = sh_fault_nth sh1
      \<and> zabs sh2 = map (\<lambda>c. if c_key c = sr_key r then restore z now r else c) (zabs sh1)"
    if f: "wf_sh E z sh1" "sh_heap sh1 a = Some n" "n_data n = sr_key r" for a n sh1
    using fill_node[OF z now f at(3) d(2)] f(2) q by (auto simp: fill_def cu)
  show ?thesis
  proof (cases "skipped now r")
    case True
    then show ?thesis using run q by (simp add: skipped_def)
  next
    case False
    obtain x where x: "ea_lookup E sh (ngx_crc32_short E (sr_key r)) (sr_key r) = Some x"
      "case x of None \<Rightarrow> a_find (sr_key r) (zabs sh) = None \<and> (\<forall>b m. sh_heap sh b = Some m \<longrightarrow> n_data m \<noteq> sr_key r)
        | Some a \<Rightarrow> \<exists>n. sh_heap sh a = Some n \<and> n_data n = sr_key r \<and> a_find (sr_key r) (zabs sh) = Some (absn n)"
      using lookup_refines[OF _ wf, of "sr_key r"] store_docD[OF doc] by blast
    show ?thesis
    proof (cases x)
      case (Some a)
      then obtain n where n: "sh_heap sh a = Some n" "n_data n = sr_key r" "a_find (sr_key r) (zabs sh) = Some (absn n)"
        using x(2) by auto
      obtain sh2 where "wf_sh E z sh2" "fill a sh = load_loop E z now buf e sh2 q (loaded + 1) k"
        "zabs sh2 = map (\<lambda>c. if c_key c = sr_key r then restore z now r else c) (zabs sh)"
        using fill[OF wf n(1,2)] by blast
      then show ?thesis using False run x(1) Some n(3) by (auto simp: a_restored_def intro!: exI[of _ sh2])
    next
      case None
      then have new: "a_find (sr_key r) (zabs sh) = None" "\<forall>b m. sh_heap sh b = Some m \<longrightarrow> n_data m \<noteq> sr_key r"
        using x(2) by auto
      have key: "length (sr_key r) = DIGEST_LEN" using at(2) by (simp add: scan_consts)
      obtain y sh1 where cr: "ea_create_node E z sh (ngx_crc32_short E (sr_key r)) (sr_key r) now = Some (y, sh1)"
        "wf_sh E z sh1"
        "case y of
          None \<Rightarrow> sheds now (zabs sh) (zabs sh1) \<and> (\<forall>c \<in> set (take EVICT_SCAN_LIMIT (zabs sh1)). now < c_ban c) \<and> \<not> room
        | Some a \<Rightarrow> (\<exists>n cs. sh_heap sh1 a = Some n \<and> absn n = new_client (sr_key r) now \<and> n_data n = sr_key r
            \<and> zabs sh1 = new_client (sr_key r) now # cs \<and> sheds now (zabs sh) cs \<and> (room \<longrightarrow> cs = zabs sh))"
        using create_node_ok[OF doc z wf key _ _ new(2), of now] clock_okD[OF now] unfolding room_def not_not by blast
      show ?thesis
      proof (cases y)
        case None2: None
        then show ?thesis using False run x(1) None cr new(1) by auto
      next
        case (Some a)
        then obtain n cs where n: "sh_heap sh1 a = Some n" "n_data n = sr_key r"
          "zabs sh1 = new_client (sr_key r) now # cs" "sheds now (zabs sh) cs" "room \<longrightarrow> cs = zabs sh"
          using cr(3) by auto
        have slab: "room \<Longrightarrow> sh_slab sh1 = sh_slab (snd (ea_slab_alloc_locked E sh (ea_node_size DIGEST_LEN (z_threshold z))))
            \<and> sh_fault_nth sh1 = sh_fault_nth sh"
          using create_node_slab[OF cr(1)] key by (simp add: room_def)
        obtain sh2 where sh2: "wf_sh E z sh2" "fill a sh1 = load_loop E z now buf e sh2 q (loaded + 1) k"
          "sh_slab sh2 = sh_slab sh1 \<and> sh_fault_nth sh2 = sh_fault_nth sh1" "zabs sh2 = map (\<lambda>c. if c_key c = sr_key r then restore z now r else c) (zabs sh1)"
          using fill[OF cr(2) n(1,2)] by blast
        have "sr_key r \<notin> c_key ` set cs" using new(1) n(4) by (auto simp: a_find_None sheds_def)
        then have "map (\<lambda>c. if c_key c = sr_key r then restore z now r else c) cs = cs"
          by (intro map_idI) force
        then have "zabs sh2 = restore z now r # cs" using sh2(4) n(3) by (simp add: new_client_def)
        then have "a_restored z now r room (zabs sh) (zabs sh2)" using n(4,5) new(1) by (auto simp: a_restored_def)
        then show ?thesis using False run x(1) None cr(1) Some sh2(1-3) slab
          by auto
      qed
    qed
  qed
qed

lemma restore_ok:
  assumes "wf_zone z" "clock_ok now" "length (sr_events r) \<le> z_threshold z"
  shows "restored_ok z now (restore z now r)"
proof -
  have "length (filter P (map sint (sr_events r))) \<le> z_threshold z" for P
    using length_filter_le[of P "map sint (sr_events r)"] assms(3) by (simp del: length_filter_le)
  then show ?thesis using sat_block[OF assms(1,2)] clock_okD[OF assms(2)]
    by (auto simp: restored_ok_def restore_def)
qed

lemma a_restored_all:
  assumes "a_restored z now r room cs cs'" "\<forall>c \<in> set cs. P c" "P (restore z now r)"
  shows "\<forall>c \<in> set cs'. P c"
  using assms by (auto simp: a_restored_def sheds_def split: if_splits)

text \<open>Whatever the bytes are, the loop is defined, keeps the store well formed and every client in
  its bounds.\<close>

lemma load_loop_safe:
  assumes doc: "store_doc E" and z: "wf_zone z" and now: "clock_ok now"
    and e: "e \<le> length buf" "e < 2 ^ 64"
    and "wf_sh E z sh" "p \<le> e" "\<forall>c \<in> set (zabs sh). restored_ok z now c"
  shows "\<exists>l d sh'. load_loop E z now buf e sh p loaded k = Some (l, d, sh') \<and> wf_sh E z sh'
     \<and> (\<forall>c \<in> set (zabs sh'). restored_ok z now c)"
  using assms(6-)
proof (induction k arbitrary: sh p loaded)
  case 0
  then show ?case by simp
next
  case (Suc k)
  show ?case
  proof (cases "e - p < 20")
    case True
    then show ?thesis using Suc.prems e(2) by (simp add: ptr_diff_le scan_consts)
  next
    case False
    then have le: "p + 20 \<le> e" using Suc.prems(2) by linarith
    obtain kl cw where g: "ea_get_u16 buf p = Some kl" "ea_get_u16 buf (p + 2) = Some cw"
      using le e(1) by (simp add: get_u16_eq)
    have g64: "ea_get_u64 buf (p + 4) \<noteq> None" "ea_get_u64 buf (p + 12) \<noteq> None"
      using le e(1) by (simp_all add: get_u64_eq)
    have pd: "ptr_diff e p = e - p" "ptr_diff e (p + 20) = e - (p + 20)" using le e(2) by (simp_all add: ptr_diff_le)
    show ?thesis
    proof (cases "unat kl \<noteq> 32 \<or> unat cw > z_threshold z \<or> e - (p + 20) < unat kl + unat cw * 8")
      case True
      then have "load_loop E z now buf e sh p loaded (Suc k) = Some (loaded, Suc k, sh)"
        using g g64 False pd by (auto simp: scan_consts Let_def)
      then show ?thesis using Suc.prems by simp
    next
      case good: False
      then have "unat kl = 32" "32 + unat cw * 8 \<le> e - (p + 20)" "20 \<le> e - p" using False by auto
      then obtain r post where r: "drop p buf = enc_rec r @ post" "length (sr_key r) = 32"
        "length (sr_events r) = unat cw" "p + length (enc_rec r) \<le> e"
        using record_at[OF e(1) Suc.prems(2) _ g] by blast
      have cnt: "length (sr_events r) \<le> z_threshold z" using r(3) good by simp
      note step = load_step[OF doc z now Suc.prems(1) e r(1,2) cnt r(4), of loaded k]
      note rok = restore_ok[OF z now cnt]
      show ?thesis
      proof (cases "skipped now r")
        case True
        then show ?thesis using step Suc.IH[OF Suc.prems(1) r(4) Suc.prems(3)] by simp
      next
        case False
        with step obtain sh1 where sh1: "wf_sh E z sh1"
          "(load_loop E z now buf e sh p loaded (Suc k) = load_loop E z now buf e sh1 (p + length (enc_rec r)) (loaded + 1) k
              \<and> a_restored z now r (fst (ea_slab_alloc_locked E sh (ea_node_size DIGEST_LEN (z_threshold z))) \<noteq> None) (zabs sh) (zabs sh1))
           \<or> (load_loop E z now buf e sh p loaded (Suc k) = Some (loaded, Suc k, sh1) \<and> sheds now (zabs sh) (zabs sh1))"
          by (simp only: if_False) blast
        from sh1(2) show ?thesis
        proof
          assume a: "load_loop E z now buf e sh p loaded (Suc k) = load_loop E z now buf e sh1 (p + length (enc_rec r)) (loaded + 1) k
              \<and> a_restored z now r (fst (ea_slab_alloc_locked E sh (ea_node_size DIGEST_LEN (z_threshold z))) \<noteq> None) (zabs sh) (zabs sh1)"
          then have "\<forall>c \<in> set (zabs sh1). restored_ok z now c"
            using a_restored_all[OF _ Suc.prems(3) rok] by blast
          then show ?thesis using a Suc.IH[OF sh1(1) r(4)] by simp
        next
          assume a: "load_loop E z now buf e sh p loaded (Suc k) = Some (loaded, Suc k, sh1) \<and> sheds now (zabs sh) (zabs sh1)"
          then show ?thesis using sh1(1) sheds_all Suc.prems(3) by blast
        qed
      qed
    qed
  qed
qed

text \<open>The rest of the loader, on a buffer at least as long as header and MAC.\<close>

lemma load_buffer_safe:
  assumes doc: "store_doc E" and z: "wf_zone z" and now: "clock_ok now" and wf: "wf_sh E z sh"
    and len: "FILE_HDR_LEN + mac_len \<le> length buffer" "length buffer < 2 ^ 64" "mac_len = 0 \<or> mac_len = MAC_LEN"
    and ok: "\<forall>c \<in> set (zabs sh). restored_ok z now c"
  shows "\<exists>out sh'. load_buffer E z sh now buffer mac_len = Some (out, sh') \<and> wf_sh E z sh'
     \<and> (\<forall>c \<in> set (zabs sh'). restored_ok z now c) \<and> ((\<nexists>l d. out = LOAD_DONE l d) \<longrightarrow> sh' = sh)"
proof -
  define e where "e = length buffer - mac_len"
  have le: "24 \<le> e" "e \<le> length buffer" "e < 2 ^ 64" using len by (simp_all add: e_def snap_consts)
  obtain ok1 where hm: "(if mac_len \<noteq> 0 then do {
                   covered \<leftarrow> slice buffer 0 e;
                   stored \<leftarrow> slice buffer e MAC_LEN;
                   Some (case hmac_sha256 E (z_persist_secret z) covered of
                           None \<Rightarrow> False
                         | Some mac \<Rightarrow> length mac = MAC_LEN \<and> mac = stored)
                 } else Some True) = Some ok1"
  proof -
    have "slice buffer 0 e = Some (take e buffer)" using le by (simp add: slice_def)
    moreover have "mac_len \<noteq> 0 \<Longrightarrow> slice buffer e MAC_LEN = Some (take MAC_LEN (drop e buffer))"
      using len by (auto simp: slice_def e_def)
    ultimately show thesis using that by (cases "mac_len = 0") auto
  qed
  have sl: "slice buffer 0 8 = Some (take 8 buffer)" "slice buffer 24 (e - 24) = Some (take (e - 24) (drop 24 buffer))"
    using le by (simp_all add: slice_def)
  obtain v t n c where g: "ea_get_u32 buffer 8 = Some v" "ea_get_u32 buffer 12 = Some t"
    "ea_get_u32 buffer 16 = Some n" "ea_get_u32 buffer 20 = Some c"
    using le by (simp add: get_u32_eq)
  obtain rc where v: "ea_validate_snapshot buffer 24 e n (z_threshold z) = Some rc"
    using validate_loop_iff[OF le(2,3,1)] by (simp add: ea_validate_snapshot_def)
  obtain l d sh' where ll: "load_loop E z now buffer e sh 24 0 (unat n) = Some (l, d, sh')" "wf_sh E z sh'"
    "\<forall>c \<in> set (zabs sh'). restored_ok z now c"
    using load_loop_safe[OF doc z now le(2,3) wf le(1) ok] by blast
  have run: "load_buffer E z sh now buffer mac_len = Some (
     if \<not> ok1 then (LOAD_HMAC_FAILED, sh)
     else if take 8 buffer \<noteq> FILE_MAGIC \<or> v \<noteq> VERSION \<or> unat t \<noteq> z_threshold z then (LOAD_INCOMPATIBLE, sh)
     else if c \<noteq> ngx_crc32_long E (take (e - 24) (drop 24 buffer)) then (LOAD_CORRUPT_DELETED, sh)
     else if rc \<noteq> NGX_OK then (LOAD_MALFORMED, sh)
     else (LOAD_DONE l d, sh'))"
    unfolding load_buffer_def Let_def e_def [symmetric] hm
    by (simp add: FILE_HDR_LEN_def sl g v ll(1))
  show ?thesis unfolding run using wf ok ll by auto
qed

section \<open>Loading what was serialized\<close>

text \<open>The pool can serve \<open>k\<close> more allocations of a size.\<close>

fun slab_room :: "'s ngx \<Rightarrow> nat \<Rightarrow> nat \<Rightarrow> 's \<Rightarrow> bool" where
  "slab_room E sz 0 s = True"
| "slab_room E sz (Suc k) s =
     (case ngx_slab_alloc_locked E s sz of (None, _) \<Rightarrow> False | (Some _, s') \<Rightarrow> slab_room E sz k s')"

lemma slab_room_mono: "slab_room E sz (Suc k) s \<Longrightarrow> slab_room E sz k s"
  by (induction k arbitrary: s) (auto split: prod.splits option.splits)

lemma slab_room_alloc:
  assumes "slab_room E sz (Suc k) (sh_slab sh)" "sh_fault_nth sh < 0"
  shows "fst (ea_slab_alloc_locked E sh sz) \<noteq> None"
    "slab_room E sz k (sh_slab (snd (ea_slab_alloc_locked E sh sz)))"
  using assms by (auto simp: ea_slab_alloc_locked_def Let_def split: prod.splits option.splits)

lemma load_loop_image:
  assumes doc: "store_doc E" and z: "wf_zone z" and now: "clock_ok now"
    and e: "e \<le> length buf" "e < 2 ^ 64"
    and rs: "\<forall>r \<in> set rs. wf_rec (z_threshold z) r"
    and "wf_sh E z sh" "sh_fault_nth sh < 0"
    and "drop p buf = enc_recs rs @ post" "p + length (enc_recs rs) \<le> e"
    and "distinct (map sr_key rs)" "\<forall>r \<in> set rs. a_find (sr_key r) (zabs sh) = None"
    and "slab_room E (ea_node_size DIGEST_LEN (z_threshold z)) (length rs) (sh_slab sh)"
  shows "\<exists>sh'. load_loop E z now buf e sh p loaded (length rs)
       = Some (loaded + length (filter (\<lambda>r. \<not> skipped now r) rs), 0, sh') \<and> wf_sh E z sh'
     \<and> zabs sh' = rev (map (restore z now) (filter (\<lambda>r. \<not> skipped now r) rs)) @ zabs sh"
  using assms(6-)
proof (induction rs arbitrary: sh p loaded)
  case Nil
  then show ?case by simp
next
  case (Cons r rs)
  have r: "drop p buf = enc_rec r @ (enc_recs rs @ post)" "length (sr_key r) = 32"
    "length (sr_events r) \<le> z_threshold z" "p + length (enc_rec r) \<le> e"
    using Cons.prems by (simp_all add: wf_rec_def scan_consts)
  note step = load_step[OF doc z now Cons.prems(2) e r, of loaded "length rs"]
  have d: "drop (p + length (enc_rec r)) buf = enc_recs rs @ post" unfolding drop_plus[of p] r(1) by simp
  have le: "p + length (enc_rec r) + length (enc_recs rs) \<le> e" using Cons.prems(5) by (simp add: enc_recs_def)
  show ?case
  proof (cases "skipped now r")
    case True
    have "slab_room E (ea_node_size DIGEST_LEN (z_threshold z)) (length rs) (sh_slab sh)"
      using slab_room_mono Cons.prems(8) by (metis length_Cons)
    then show ?thesis
      using True step Cons.IH[OF _ Cons.prems(2,3) d le, of loaded] Cons.prems by simp
  next
    case False
    have room: "fst (ea_slab_alloc_locked E sh (ea_node_size DIGEST_LEN (z_threshold z))) \<noteq> None"
      "slab_room E (ea_node_size DIGEST_LEN (z_threshold z)) (length rs)
         (sh_slab (snd (ea_slab_alloc_locked E sh (ea_node_size DIGEST_LEN (z_threshold z)))))"
      using slab_room_alloc[of E _ "length rs" sh] Cons.prems(3,8) by simp_all
    have none: "a_find (sr_key r) (zabs sh) = None" using Cons.prems(7) by simp
    from step False room(1) none obtain sh1 where sh1: "wf_sh E z sh1"
      "load_loop E z now buf e sh p loaded (Suc (length rs))
         = load_loop E z now buf e sh1 (p + length (enc_rec r)) (loaded + 1) (length rs)"
      "zabs sh1 = restore z now r # zabs sh" "sh_fault_nth sh1 = sh_fault_nth sh"
      "sh_slab sh1 = sh_slab (snd (ea_slab_alloc_locked E sh (ea_node_size DIGEST_LEN (z_threshold z))))"
      by (auto simp: a_restored_def)
    have "\<forall>r' \<in> set rs. a_find (sr_key r') (zabs sh1) = None"
      using Cons.prems(6,7) by (auto simp: sh1(3) a_find_def restore_def)
    then obtain sh' where "load_loop E z now buf e sh1 (p + length (enc_rec r)) (loaded + 1) (length rs)
       = Some (loaded + 1 + length (filter (\<lambda>r. \<not> skipped now r) rs), 0, sh')" "wf_sh E z sh'"
      "zabs sh' = rev (map (restore z now) (filter (\<lambda>r. \<not> skipped now r) rs)) @ zabs sh1"
      using Cons.IH[OF _ sh1(1) _ d le, of "loaded + 1"] Cons.prems(1,3,6) sh1(4,5) room(2) by auto
    then show ?thesis using False sh1(2,3) by auto
  qed
qed

section \<open>What the loader accepts\<close>

lemma enc_file_parts:
  assumes "enc_file E z rs @ mac = buffer"
  shows "take 8 buffer = FILE_MAGIC" "ea_get_u32 buffer 8 = Some VERSION"
    "ea_get_u32 buffer 12 = Some (of_nat (z_threshold z))" "ea_get_u32 buffer 16 = Some (of_nat (length rs))"
    "ea_get_u32 buffer 20 = Some (ngx_crc32_long E (enc_recs rs))" "drop 24 buffer = enc_recs rs @ mac"
  using assms by (auto simp: enc_file_def enc_hdr_def intro!: u32.get_at)

lemma get_u32_bytes:
  "ea_get_u32 buf p = Some v \<Longrightarrow> take 4 (drop p buf) = le_bytes 4 v"
  by (auto simp: get_u32_eq le_bytes_le_word split: if_splits)

lemma take_segments:
  "take 24 buf = take 8 buf @ take 4 (drop 8 buf) @ take 4 (drop 12 buf) @ take 4 (drop 16 buf) @ take 4 (drop 20 buf)"
proof -
  have "take (8 + 4 + 4 + 4 + 4) buf = take 8 buf @ take 4 (drop 8 buf) @ take 4 (drop (8 + 4) buf)
      @ take 4 (drop (8 + 4 + 4) buf) @ take 4 (drop (8 + 4 + 4 + 4) buf)"
    by (simp only: take_add append_assoc)
  then show ?thesis by simp
qed

lemma load_buffer_done:
  assumes z: "wf_zone z" and len: "FILE_HDR_LEN + mac_len \<le> length buffer" "length buffer < 2 ^ 64"
    and mac: "mac_len = (if z_persist_secret z \<noteq> [] then MAC_LEN else 0)"
    and run: "load_buffer E z sh now buffer mac_len = Some (LOAD_DONE l d, sh')"
  shows "\<exists>rs m. buffer = enc_file E z rs @ m \<and> mac_of E z (enc_file E z rs) = Some m
     \<and> (\<forall>r \<in> set rs. wf_rec (z_threshold z) r)
     \<and> load_loop E z now buffer (length buffer - mac_len) sh FILE_HDR_LEN 0 (length rs) = Some (l, d, sh')"
proof -
  define e where "e = length buffer - mac_len"
  have le: "24 \<le> e" "e \<le> length buffer" "e < 2 ^ 64" using len by (simp_all add: e_def snap_consts)
  have "slice buffer 0 8 = Some (take 8 buffer)" "slice buffer 24 (e - 24) = Some (take (e - 24) (drop 24 buffer))"
    using le by (simp_all add: slice_def)
  then obtain v t n c where g: "ea_get_u32 buffer 8 = Some v" "ea_get_u32 buffer 12 = Some t"
    "ea_get_u32 buffer 16 = Some n" "ea_get_u32 buffer 20 = Some c"
    and hd: "take 8 buffer = FILE_MAGIC" "v = VERSION" "unat t = z_threshold z"
      "c = ngx_crc32_long E (take (e - 24) (drop 24 buffer))"
      "ea_validate_snapshot buffer 24 e n (z_threshold z) = Some NGX_OK"
      "load_loop E z now buffer e sh 24 0 (unat n) = Some (l, d, sh')"
    using run le by (auto simp: load_buffer_def Let_def e_def [symmetric] FILE_HDR_LEN_def get_u32_eq
        split: Option.bind_splits if_splits)
  obtain rs where rs: "length rs = unat n" "\<forall>r \<in> set rs. wf_rec (z_threshold z) r"
    "take (e - 24) (drop 24 buffer) = enc_recs rs"
    using hd(5) validate_loop_iff[OF le(2,3,1)] by (auto simp: ea_validate_snapshot_def split: if_splits)
  have tn: "of_nat (z_threshold z) = t" "of_nat (length rs) = n" by (simp_all flip: hd(3) add: rs(1))
  have "take 24 buffer = enc_hdr E z rs"
    using take_segments[of buffer] get_u32_bytes[OF g(1)] get_u32_bytes[OF g(2)] get_u32_bytes[OF g(3)]
      get_u32_bytes[OF g(4)] hd rs(1,3)
    by (simp add: enc_hdr_def tn)
  then have img: "take e buffer = enc_file E z rs"
    using take_add[of 24 "e - 24" buffer] le(1) rs(3) by (simp add: enc_file_def)
  have "mac_of E z (enc_file E z rs) = Some (drop e buffer)"
  proof (cases "z_persist_secret z = []")
    case True
    then show ?thesis using mac by (simp add: mac_of_def e_def)
  next
    case False
    have sl: "slice buffer 0 e = Some (take e buffer)" "slice buffer e MAC_LEN = Some (take MAC_LEN (drop e buffer))"
      "take MAC_LEN (drop e buffer) = drop e buffer"
      using le len mac False by (simp_all add: slice_def e_def)
    have nz: "mac_len \<noteq> 0" using mac False by (simp add: MAC_LEN_def)
    have "case hmac_sha256 E (z_persist_secret z) (take e buffer) of
        None \<Rightarrow> False | Some mc \<Rightarrow> length mc = MAC_LEN \<and> mc = drop e buffer" (is ?ok)
    proof (rule ccontr)
      assume "\<not> ?ok"
      then show False using run sl nz by (simp add: load_buffer_def Let_def e_def [symmetric])
    qed
    then show ?thesis using False img by (auto simp: mac_of_def split: option.splits)
  qed
  moreover have "buffer = enc_file E z rs @ drop e buffer" using img by (metis append_take_drop_id)
  ultimately show ?thesis
    using rs(2) hd(6) unfolding e_def [symmetric] FILE_HDR_LEN_def rs(1)[symmetric] by blast
qed

lemma load_buffer_image:
  assumes z: "wf_zone z" and len: "length buffer < 2 ^ 64"
    and mac: "mac_len = (if z_persist_secret z \<noteq> [] then MAC_LEN else 0)" "mac_of E z (enc_file E z rs) = Some m"
      "length m = mac_len"
    and buf: "buffer = enc_file E z rs @ m" and rs: "\<forall>r \<in> set rs. wf_rec (z_threshold z) r" "length rs < 2 ^ 32"
  shows "load_buffer E z sh now buffer mac_len = do {
     (loaded, dropped, sh) \<leftarrow> load_loop E z now buffer (length buffer - mac_len) sh FILE_HDR_LEN 0 (length rs);
     Some (LOAD_DONE loaded dropped, sh) }"
proof -
  note parts = enc_file_parts[OF buf[symmetric]]
  define e where "e = length buffer - mac_len"
  have e: "e = 24 + length (enc_recs rs)" using buf mac(3) by (simp add: e_def enc_file_def)
  have le: "24 \<le> e" "e \<le> length buffer" "e < 2 ^ 64" using e buf len by (simp_all add: enc_file_def)
  have pay: "take (e - 24) (drop 24 buffer) = enc_recs rs" using parts(6) e by simp
  have sl: "slice buffer 0 8 = Some FILE_MAGIC" "slice buffer 24 (e - 24) = Some (enc_recs rs)"
    using le parts(1) pay by (simp_all add: slice_def)
  have thr: "unat (of_nat (z_threshold z) :: 32 word) = z_threshold z"
    using z by (simp add: wf_zone_def MAX_THRESHOLD_def unat_of_nat)
  have n: "unat (of_nat (length rs) :: 32 word) = length rs" using rs(2) by (simp add: unat_of_nat)
  have v: "ea_validate_snapshot buffer 24 e (of_nat (length rs)) (z_threshold z) = Some NGX_OK"
    using validate_loop_iff[OF le(2,3,1), of "z_threshold z" "length rs"] rs(1) pay
    by (auto simp: ea_validate_snapshot_def n)
  have hm: "(if mac_len \<noteq> 0 then do {
                   covered \<leftarrow> slice buffer 0 e;
                   stored \<leftarrow> slice buffer e MAC_LEN;
                   Some (case hmac_sha256 E (z_persist_secret z) covered of
                           None \<Rightarrow> False
                         | Some mac \<Rightarrow> length mac = MAC_LEN \<and> mac = stored)
                 } else Some True) = Some True"
  proof (cases "mac_len = 0")
    case False
    then have s: "z_persist_secret z \<noteq> []" "length m = MAC_LEN" using mac by (auto split: if_splits)
    have "slice buffer 0 e = Some (enc_file E z rs)" "slice buffer e MAC_LEN = Some m"
      using s(2) by (simp_all add: slice_def buf e enc_file_def)
    then show ?thesis using s mac(2) by (simp add: mac_of_def)
  qed simp
  show ?thesis
    unfolding load_buffer_def Let_def e_def [symmetric] hm
    by (simp add: FILE_HDR_LEN_def sl parts(2-5) thr n v)
qed

end
