(* ===== verification/EA_Persist.thy ===== *)
theory EA_Persist
  imports EA_Snapshot
begin

text \<open>
  The start of a zone (\<^verbatim>\<open>ngx_http_error_abuse_init_zone\<close>: a reload, an inherited segment, or
  a fresh one that loads its snapshot), and the properties of snapshots.
\<close>

section \<open>Starting a zone\<close>

text \<open>\<^verbatim>\<open>sizeof(ngx_http_error_abuse_shctx_t)\<close> on a 64-bit platform, with the test harness fields,
  and \<^verbatim>\<open>sizeof\<close> of the log context's text around the zone's name.\<close>

definition SHCTX_SIZE :: nat where "SHCTX_SIZE = 96"
definition LOG_CTX_LEN :: nat where "LOG_CTX_LEN = 24"

text \<open>Where the zone starts from: the zone of the previous configuration with its store
  (\<^verbatim>\<open>data != NULL\<close>), an existing segment (\<^verbatim>\<open>shm.exists\<close>), or a fresh slab pool.\<close>

datatype 's shm_start = SHM_RELOAD zone "'s shctx" | SHM_EXISTS "'s shctx" | SHM_FRESH 's

definition ea_init_zone ::
  "'s ngx \<Rightarrow> zone \<Rightarrow> 's shm_start \<Rightarrow> time \<Rightarrow> file_io \<Rightarrow> bool \<Rightarrow> (ngx_rc \<times> 's shctx option) option" where
  "ea_init_zone E z start now io alloc_ok =
     (case start of
        SHM_RELOAD old sh \<Rightarrow>
          if length (z_key old) \<noteq> length (z_key z) then Some (NGX_ERROR, None)
          else do {
            same \<leftarrow> strncmp_same (z_key old) (z_key z) (length (z_key z));
            if \<not> same then Some (NGX_ERROR, None)
            else if z_threshold old \<noteq> z_threshold z then Some (NGX_ERROR, None)
            else Some (NGX_OK, Some sh)
          }
      | SHM_EXISTS sh \<Rightarrow> Some (NGX_OK, Some sh)
      | SHM_FRESH pool \<Rightarrow>
          (case ngx_slab_alloc_locked E pool SHCTX_SIZE of
             (None, pool) \<Rightarrow> Some (NGX_ERROR, None)
           | (Some _, pool) \<Rightarrow>
               let sh = \<lparr> sh_rbtree = Leaf, sh_queue = [], sh_heap = Map.empty, sh_slab = pool,
                          sh_fault_nth = -1, sh_fault_seen = 0 \<rparr>
               in case ngx_slab_alloc_locked E pool (LOG_CTX_LEN + length (z_name z)) of
                    (None, pool) \<Rightarrow> Some (NGX_ERROR, Some (sh \<lparr> sh_slab := pool \<rparr>))
                  | (Some _, pool) \<Rightarrow>
                      let sh = sh \<lparr> sh_slab := pool \<rparr>
                      in if z_persist z \<noteq> [] then do {
                           (rc, outcome, sh) \<leftarrow> ea_load E z sh now io alloc_ok;
                           Some (rc, Some sh)
                         } else Some (NGX_OK, Some sh)))"

text \<open>What the operating system answers about a file agrees with itself.\<close>

definition io_ok :: "file_io \<Rightarrow> bool" where
  "io_ok io \<longleftrightarrow> (case io of IO_FILE sz (Some b) \<Rightarrow> length b = sz | _ \<Rightarrow> True)"

lemma io_ok_simps [simp]:
  "io_ok IO_OPEN_FAILED" "io_ok IO_STAT_FAILED" "io_ok (IO_FILE sz None)"
  "io_ok (IO_FILE sz (Some b)) \<longleftrightarrow> length b = sz"
  by (simp_all add: io_ok_def)

lemma wf_sh_threshold: "z_threshold z' = z_threshold z \<Longrightarrow> wf_sh E z' sh \<longleftrightarrow> wf_sh E z sh"
  by (simp add: wf_sh_def wf_node_def)

section \<open>Loading any file\<close>

lemma load_cases:
  "ea_load E z sh now (IO_FILE sz (Some buffer)) True =
     (let mac_len = (if z_persist_secret z \<noteq> [] then MAC_LEN else 0)
      in if sz < FILE_HDR_LEN + mac_len \<or> sz > z_shm_size z + mac_len then Some (NGX_OK, LOAD_BAD_SIZE, sh)
      else do { (outcome, sh) \<leftarrow> load_buffer E z sh now buffer mac_len; Some (NGX_OK, outcome, sh) })"
  by (simp add: ea_load_def Let_def)

lemma load_any:
  assumes "store_doc E" "wf_zone z" "clock_ok now" "wf_sh E z sh" "z_shm_size z < 2 ^ 63" "io_ok io"
    and "\<forall>c \<in> set (zabs sh). restored_ok z now c"
  shows "\<exists>rc out sh'. ea_load E z sh now io alloc_ok = Some (rc, out, sh') \<and> wf_sh E z sh'
     \<and> (\<forall>c \<in> set (zabs sh'). restored_ok z now c)
     \<and> (rc = NGX_OK \<or> rc = NGX_ERROR \<and> \<not> alloc_ok) \<and> ((\<nexists>l d. out = LOAD_DONE l d) \<longrightarrow> sh' = sh)"
proof (cases io)
  case (IO_FILE sz r)
  define mac_len where "mac_len = (if z_persist_secret z \<noteq> [] then MAC_LEN else 0)"
  show ?thesis
  proof (cases "(sz < FILE_HDR_LEN + mac_len \<or> sz > z_shm_size z + mac_len) \<or> \<not> alloc_ok \<or> r = None")
    case True
    then show ?thesis using assms(4,7) IO_FILE by (auto simp: ea_load_def Let_def mac_len_def)
  next
    case False
    then obtain buffer where b: "r = Some buffer" "length buffer = sz" "FILE_HDR_LEN + mac_len \<le> sz"
      "sz \<le> z_shm_size z + mac_len" alloc_ok
      using IO_FILE assms(6) by auto
    have "mac_len = 0 \<or> mac_len = MAC_LEN" "length buffer < 2 ^ 64"
      using b assms(5) by (auto simp: mac_len_def MAC_LEN_def split: if_splits)
    then obtain out sh' where "load_buffer E z sh now buffer mac_len = Some (out, sh')" "wf_sh E z sh'"
      "\<forall>c \<in> set (zabs sh'). restored_ok z now c" "(\<nexists>l d. out = LOAD_DONE l d) \<longrightarrow> sh' = sh"
      using load_buffer_safe[OF assms(1-4), of mac_len buffer] b assms(7) by auto
    then show ?thesis using IO_FILE b by (auto simp: load_cases Let_def mac_len_def)
  qed
qed (use assms(4,7) in \<open>auto simp: ea_load_def Let_def\<close>)

text \<open>C16. Loading a snapshot is safe whatever the file holds.  For every answer of the operating
  system and all bytes, truncated, corrupt or hostile, the loader reads and writes inside its
  buffers and never overflows; the store stays well formed; every client it holds afterwards is
  within the configured bounds: its ban ends at most a block time from now, it was not seen in the
  future, and it has at most a threshold of events, all inside the window.  The start of the server
  fails only when memory for the file cannot be had, and unless a file was accepted the store is as
  it was.\<close>

theorem load_safe:
  assumes "store_doc E" "wf_zone z" "clock_ok now" "wf_sh E z sh" "z_shm_size z < 2 ^ 63" "io_ok io"
    and "\<forall>c \<in> set (zabs sh). restored_ok z now c"
  shows "\<exists>rc out sh'. ea_load E z sh now io alloc_ok = Some (rc, out, sh') \<and> wf_sh E z sh'
     \<and> (\<forall>c \<in> set (zabs sh'). restored_ok z now c)
     \<and> (rc = NGX_OK \<or> rc = NGX_ERROR \<and> \<not> alloc_ok) \<and> ((\<nexists>l d. out = LOAD_DONE l d) \<longrightarrow> sh' = sh)"
  by (rule load_any[OF assms])

text \<open>A file of 30 zero bytes is refused.\<close>

theorem load_safe_witness:
  "\<exists>rc out sh'. ea_load ref_ngx ex_zone ex_sh0 1000 (IO_FILE 30 (Some (replicate 30 0))) True = Some (rc, out, sh')
     \<and> wf_sh ref_ngx ex_zone sh' \<and> rc = NGX_OK"
  using load_safe[of ref_ngx ex_zone 1000 ex_sh0 "IO_FILE 30 (Some (replicate 30 0))" True] by auto

text \<open>C30. Only an authentic snapshot changes the store.  If the loader accepted a file, its bytes are
  the image of some list of records for this zone: header with the zone's threshold, the record
  count and the checksum of the records, the records themselves, each with a digest as its key and
  at most a threshold of events, and, if a secret is configured, the HMAC of all of this under the
  secret; nothing before, between or after.\<close>

theorem load_authentic:
  assumes "wf_zone z" "z_shm_size z < 2 ^ 63" "io_ok io"
    and "ea_load E z sh now io alloc_ok = Some (rc, LOAD_DONE l d, sh')"
  shows "\<exists>rs m. io = IO_FILE (length (enc_file E z rs @ m)) (Some (enc_file E z rs @ m))
     \<and> mac_of E z (enc_file E z rs) = Some m \<and> (\<forall>r \<in> set rs. wf_rec (z_threshold z) r)"
proof -
  define mac_len where "mac_len = (if z_persist_secret z \<noteq> [] then MAC_LEN else 0)"
  obtain buffer where b: "io = IO_FILE (length buffer) (Some buffer)" "alloc_ok"
    "FILE_HDR_LEN + mac_len \<le> length buffer" "length buffer \<le> z_shm_size z + mac_len"
    "load_buffer E z sh now buffer mac_len = Some (LOAD_DONE l d, sh')"
    using assms(3,4) by (auto simp: ea_load_def Let_def mac_len_def split: file_io.splits if_splits
        option.splits Option.bind_splits)
  have "length buffer < 2 ^ 64" using b(4) assms(2) by (auto simp: mac_len_def MAC_LEN_def split: if_splits)
  from load_buffer_done[OF assms(1) b(3) this mac_len_def b(5)] b(1) show ?thesis by blast
qed

definition ex_rec :: snap_rec where
  "ex_rec = \<lparr> sr_blocked = 1610, sr_seen = 1010, sr_key = ex_key, sr_events = [] \<rparr>"

definition ex_image :: bytes where
  "ex_image = enc_file ref_ngx ex_zone [ex_rec]"

lemma ex_image_length: "length ex_image = 76"
  by (simp add: ex_image_def enc_file_def enc_recs_def ex_rec_def scan_consts)

definition survives :: "time \<Rightarrow> client \<Rightarrow> bool" where
  "survives now c \<longleftrightarrow> now < c_ban c \<or> c_events c \<noteq> []"

definition reloaded :: "zone \<Rightarrow> time \<Rightarrow> client \<Rightarrow> client" where
  "reloaded z now c = \<lparr> c_key = c_key c, c_ban = (if now < c_ban c then min (c_ban c) (sat_add now (z_block z)) else 0),
     c_seen = (if 0 < c_seen c \<and> c_seen c \<le> now then c_seen c else now),
     c_events = filter (\<lambda>e. now - z_interval z < e \<and> e \<le> now) (c_events c) \<rparr>"

lemma sint_of_time: "time_rep t \<Longrightarrow> sint (word_of_int t :: 64 word) = t"
  by (simp add: time_rep_def signed_of_int signed_take_bit_int_eq_self)

lemma wf_clients:
  assumes "wf_sh E z sh" "c \<in> set (zabs sh)"
  shows "length (c_key c) = DIGEST_LEN" "time_rep (c_ban c)" "time_rep (c_seen c)"
    "length (c_events c) \<le> z_threshold z" "\<forall>e \<in> set (c_events c). time_rep e"
proof -
  obtain a n where n: "sh_heap sh a = Some n" "c = absn n"
    using assms wf_shD(2)[OF assms(1)] by (auto simp: zabs_def)
  have w: "wf_node E z n" by (rule wf_shD(6)[OF assms(1) n(1)])
  show "length (c_key c) = DIGEST_LEN" "time_rep (c_ban c)" "time_rep (c_seen c)"
    "length (c_events c) \<le> z_threshold z"
    using w n(2) by (simp_all add: wf_node_def time_rep_def)
  have "set (ring n) \<subseteq> set (n_events n)"
    using w by (fastforce simp: ring_def ring_of_def wf_node_def)
  then show "\<forall>e \<in> set (c_events c). time_rep e" using w n(2) by (auto simp: wf_node_def)
qed

lemma rec_of_client:
  assumes "time_rep (c_ban c)" "time_rep (c_seen c)" "\<forall>e \<in> set (c_events c). time_rep e"
  shows "restore z now (rec_of c) = reloaded z now c" "skipped now (rec_of c) \<longleftrightarrow> \<not> survives now c"
proof -
  have "map sint (map (word_of_int :: int \<Rightarrow> 64 word) (c_events c)) = c_events c"
    using assms(3) by (auto simp: sint_of_time intro!: map_idI)
  then show "restore z now (rec_of c) = reloaded z now c" "skipped now (rec_of c) \<longleftrightarrow> \<not> survives now c"
    using assms(1,2) by (auto simp: restore_def reloaded_def rec_of_def skipped_def survives_def sint_of_time)
qed

lemma persist_buffer_length:
  "persist_buffer alloc pbuf need = Some b \<Longrightarrow> (\<And>n b. alloc n = Some b \<Longrightarrow> length b = n) \<Longrightarrow> need \<le> length b"
  by (fastforce simp: persist_buffer_def split: option.splits if_splits)

lemma serialize_bytes:
  assumes z: "wf_zone z" and wf: "wf_sh E z sh" and dig: "digest_doc E"
    and cap: "FILE_HDR_LEN \<le> z_shm_size z" "z_shm_size z < 2 ^ 63" and alloc: "\<And>n b. alloc n = Some b \<Longrightarrow> length b = n"
    and run: "ea_serialize E z sh alloc pbuf = Some (Some (buf, len))"
  defines "rs \<equiv> fitting (z_shm_size z - FILE_HDR_LEN) (map rec_of (rev (zabs sh)))"
  shows "\<exists>m. mac_of E z (enc_file E z rs) = Some m \<and> take len buf = enc_file E z rs @ m
     \<and> len = length (enc_file E z rs @ m) \<and> len \<le> length buf"
proof -
  obtain b where b: "persist_buffer alloc pbuf (z_shm_size z + MAC_LEN) = Some b"
    using run by (auto simp: ea_serialize_def Let_def split: option.splits)
  note img = serialize_image[OF z wf dig cap b persist_buffer_length[OF b alloc], folded rs_def]
  then obtain m where m: "mac_of E z (enc_file E z rs) = Some m" using run by (cases "mac_of E z (enc_file E z rs)") auto
  then have "len = length (enc_file E z rs @ m)" "take len buf = enc_file E z rs @ m"
    using img run by auto
  then show ?thesis using m by (metis length_take min.cobounded1 linorder_le_cases take_all)
qed

text \<open>A store that is serialized and loaded again.\<close>

lemma loads_back:
  assumes "store_doc E" "digest_doc E" "wf_zone z" "FILE_HDR_LEN \<le> z_shm_size z" "z_shm_size z < 2 ^ 63"
    and "wf_sh E z sh" "\<And>n b. alloc n = Some b \<Longrightarrow> length b = n"
    and "ea_serialize E z sh alloc pbuf = Some (Some (buf, len))"
    and "length (enc_recs (map rec_of (zabs sh))) + FILE_HDR_LEN \<le> z_shm_size z" "length (zabs sh) < 2 ^ 32"
    and "clock_ok now" "wf_sh E z sh0" "zabs sh0 = []" "sh_fault_nth sh0 < 0"
    and "slab_room E (ea_node_size DIGEST_LEN (z_threshold z)) (length (zabs sh)) (sh_slab sh0)"
  shows "\<exists>sh'. ea_load E z sh0 now (IO_FILE len (Some (take len buf))) True
       = Some (NGX_OK, LOAD_DONE (length (filter (survives now) (zabs sh))) 0, sh')
     \<and> wf_sh E z sh' \<and> zabs sh' = map (reloaded z now) (filter (survives now) (zabs sh))"
proof -
  define rs where "rs = map rec_of (rev (zabs sh))"
  define mac_len where "mac_len = (if z_persist_secret z \<noteq> [] then MAC_LEN else 0)"
  have "length (enc_recs rs) = length (enc_recs (map rec_of (zabs sh)))"
    by (simp add: rs_def enc_recs_def length_concat rev_map sum_list_rev comp_def flip: rev_map)
  then have "fitting (z_shm_size z - FILE_HDR_LEN) rs = rs" "length (enc_recs rs) + 24 \<le> z_shm_size z"
    using assms(9) by (simp_all add: fitting_all snap_consts)
  then obtain m where m: "mac_of E z (enc_file E z rs) = Some m" "take len buf = enc_file E z rs @ m"
    "len = length (enc_file E z rs @ m)" "len \<le> length buf"
    using serialize_bytes[OF assms(3,6,2,4,5,7,8)] by (auto simp: rs_def)
  have mm: "length m = mac_len" using m(1) hmac_length[OF assms(2)]
    by (auto simp: mac_of_def mac_len_def MAC_LEN_def split: if_splits)
  have wr: "\<forall>r \<in> set rs. wf_rec (z_threshold z) r"
  proof
    fix r assume "r \<in> set rs"
    then obtain c where "c \<in> set (zabs sh)" "r = rec_of c" by (auto simp: rs_def)
    moreover have "z_threshold z < 2 ^ 16" using assms(3) by (simp add: wf_zone_def MAX_THRESHOLD_def)
    ultimately show "wf_rec (z_threshold z) r"
      using wf_clients[OF assms(6), of c] by (simp add: wf_rec_def rec_of_def)
  qed
  have keys: "distinct (map sr_key rs)"
    using wf_zabs_keys[OF assms(6)] by (simp add: rs_def comp_def rec_of_def distinct_map flip: rev_map)
  have lens: "length (take len buf) = len" "len = 24 + length (enc_recs rs) + mac_len" "length rs = length (zabs sh)"
    using m mm by (simp_all add: enc_file_def rs_def)
  have small: "len < 2 ^ 64" using lens(2) \<open>length (enc_recs rs) + 24 \<le> z_shm_size z\<close> assms(5)
    by (simp add: mac_len_def MAC_LEN_def split: if_splits)
  have "drop 24 (take len buf) = enc_recs rs @ m" using m(2) by (simp add: enc_file_def)
  with load_loop_image[OF assms(1,3,11), of "len - mac_len" "take len buf" rs sh0 24 m 0] obtain sh' where
    ll: "load_loop E z now (take len buf) (len - mac_len) sh0 24 0 (length rs)
       = Some (length (filter (\<lambda>r. \<not> skipped now r) rs), 0, sh')" "wf_sh E z sh'"
    "zabs sh' = rev (map (restore z now) (filter (\<lambda>r. \<not> skipped now r) rs))"
    using lens small wr assms(12-15) keys m(4) by (auto simp: a_find_def)
  have sv: "restore z now (rec_of c) = reloaded z now c" "skipped now (rec_of c) \<longleftrightarrow> \<not> survives now c"
    if "c \<in> set (zabs sh)" for c using rec_of_client wf_clients[OF assms(6) that] by blast+
  have "filter (\<lambda>r. \<not> skipped now r) rs = map rec_of (filter (survives now) (rev (zabs sh)))"
    using sv(2) by (auto simp: rs_def filter_map comp_def intro!: arg_cong[where f = "map rec_of"] filter_cong)
  then have "length (filter (\<lambda>r. \<not> skipped now r) rs) = length (filter (survives now) (zabs sh))"
    "rev (map (restore z now) (filter (\<lambda>r. \<not> skipped now r) rs)) = map (reloaded z now) (filter (survives now) (zabs sh))"
    by (simp_all add: sv(1) rev_map comp_def flip: rev_filter)
  moreover have "load_buffer E z sh0 now (take len buf) mac_len
      = Some (LOAD_DONE (length (filter (\<lambda>r. \<not> skipped now r) rs)) 0, sh')"
    using load_buffer_image[OF assms(3) _ mac_len_def m(1) mm m(2) wr, of sh0 now] ll(1) lens small assms(10)
    by (simp add: FILE_HDR_LEN_def)
  ultimately show ?thesis
    using ll(2,3) lens(2) \<open>length (enc_recs rs) + 24 \<le> z_shm_size z\<close>
    by (simp add: load_cases Let_def FILE_HDR_LEN_def flip: mac_len_def)
qed

text \<open>C19. Writing and reading a snapshot loses nothing.  Serialize a store whose records fit the
  segment, later, at any time \<open>now\<close>, load the written bytes into an empty store with enough memory.
  Both succeed; and the loaded store holds, in the same order of last use, exactly the clients that
  still matter: those with a ban that has not ended or with events.  Each comes back with its
  deadline, at most a block time from \<open>now\<close>, with its last use, and with the events that are still
  in the window.\<close>

theorem snapshot_roundtrip:
  assumes "store_doc E" "digest_doc E" "wf_zone z" "FILE_HDR_LEN \<le> z_shm_size z" "z_shm_size z < 2 ^ 63"
    and "wf_sh E z sh" "\<And>n b. alloc n = Some b \<Longrightarrow> length b = n"
    and "ea_serialize E z sh alloc pbuf = Some (Some (buf, len))"
    and "length (enc_recs (map rec_of (zabs sh))) + FILE_HDR_LEN \<le> z_shm_size z" "length (zabs sh) < 2 ^ 32"
    and "clock_ok now" "wf_sh E z sh0" "zabs sh0 = []" "sh_fault_nth sh0 < 0"
    and "slab_room E (ea_node_size DIGEST_LEN (z_threshold z)) (length (zabs sh)) (sh_slab sh0)"
  shows "\<exists>sh'. ea_load E z sh0 now (IO_FILE len (Some (take len buf))) True
       = Some (NGX_OK, LOAD_DONE (length (filter (survives now) (zabs sh))) 0, sh')
     \<and> wf_sh E z sh' \<and> zabs sh' = map (reloaded z now) (filter (survives now) (zabs sh))"
  by (rule loads_back[OF assms])

section \<open>Writing, restarting, and the examples\<close>

lemma fitting_prefix: "\<exists>rest. rs = fitting room rs @ rest"
  by (induction room rs rule: fitting.induct) auto

text \<open>The snapshot written is exact.  Serializing a well-formed store is defined, whatever
  buffer the zone already has, and writes no byte outside it.  It gives nothing only if there is no
  memory or the HMAC cannot be computed.  Otherwise the bytes to write are a file image with its
  MAC: the records of the clients from the least recently used on, all of them if they fit the
  segment.\<close>

theorem snapshot_written:
  assumes "digest_doc E" "wf_zone z" "FILE_HDR_LEN \<le> z_shm_size z" "z_shm_size z < 2 ^ 63"
    and "wf_sh E z sh" "\<And>n b. alloc n = Some b \<Longrightarrow> length b = n"
  shows "\<exists>r rs rest. ea_serialize E z sh alloc pbuf = Some r \<and> map rec_of (rev (zabs sh)) = rs @ rest
     \<and> (length (enc_recs (map rec_of (rev (zabs sh)))) + FILE_HDR_LEN \<le> z_shm_size z \<longrightarrow> rest = [])
     \<and> (case r of
          None \<Rightarrow> persist_buffer alloc pbuf (z_shm_size z + MAC_LEN) = None \<or> mac_of E z (enc_file E z rs) = None
        | Some (buf, len) \<Rightarrow> \<exists>m. mac_of E z (enc_file E z rs) = Some m \<and> take len buf = enc_file E z rs @ m
            \<and> len = length (enc_file E z rs @ m) \<and> len \<le> z_shm_size z + MAC_LEN)"
proof -
  define all where "all = map rec_of (rev (zabs sh))"
  define rs where "rs = fitting (z_shm_size z - FILE_HDR_LEN) all"
  obtain rest where rest: "all = rs @ rest" using fitting_prefix unfolding rs_def by blast
  have "length (enc_recs all) + FILE_HDR_LEN \<le> z_shm_size z \<Longrightarrow> rs = all"
    unfolding rs_def by (rule fitting_all) simp
  then have fits: "length (enc_recs all) + FILE_HDR_LEN \<le> z_shm_size z \<Longrightarrow> rest = []"
    using rest by (metis append_self_conv)
  have len: "length (enc_file E z rs) \<le> z_shm_size z"
    using fitting_room[of "z_shm_size z - FILE_HDR_LEN" all] assms(3) by (simp add: enc_file_def rs_def snap_consts)
  have "\<exists>r. ea_serialize E z sh alloc pbuf = Some r \<and> (case r of
          None \<Rightarrow> persist_buffer alloc pbuf (z_shm_size z + MAC_LEN) = None \<or> mac_of E z (enc_file E z rs) = None
        | Some (buf, len) \<Rightarrow> \<exists>m. mac_of E z (enc_file E z rs) = Some m \<and> take len buf = enc_file E z rs @ m
            \<and> len = length (enc_file E z rs @ m) \<and> len \<le> z_shm_size z + MAC_LEN)"
  proof (cases "persist_buffer alloc pbuf (z_shm_size z + MAC_LEN)")
    case None
    then show ?thesis by (simp add: ea_serialize_def Let_def)
  next
    case (Some b)
    note img = serialize_image[OF assms(2,5,1,3,4) Some persist_buffer_length[OF Some assms(6)],
        folded all_def, folded rs_def]
    show ?thesis
    proof (cases "mac_of E z (enc_file E z rs)")
      case None
      then show ?thesis using img by simp
    next
      case (Some m)
      then have "length m \<le> MAC_LEN" using hmac_length[OF assms(1)]
        by (auto simp: mac_of_def MAC_LEN_def split: if_splits)
      moreover obtain buf where "ea_serialize E z sh alloc pbuf = Some (Some (buf, length (enc_file E z rs @ m)))"
        "take (length (enc_file E z rs @ m)) buf = enc_file E z rs @ m"
        using img Some by auto
      ultimately show ?thesis using Some len by simp
    qed
  qed
  then show ?thesis using rest fits unfolding all_def by blast
qed

text \<open>Starting a zone.  A reload keeps the store, and is accepted exactly if neither the key nor
  the threshold of the zone changed, so that the store is well formed for the new configuration
  too.  An inherited segment is taken as it is.  A fresh segment starts, from any snapshot file,
  with a well-formed store whose clients are within the configured bounds.\<close>

theorem init_zone_correct:
  assumes "store_doc E" "wf_zone z" "clock_ok now" "z_shm_size z < 2 ^ 63" "io_ok io" "0 \<notin> set (z_key z)"
  shows "case start of
      SHM_RELOAD old sh \<Rightarrow>
        ea_init_zone E z start now io alloc_ok
          = Some (if z_key old = z_key z \<and> z_threshold old = z_threshold z then (NGX_OK, Some sh) else (NGX_ERROR, None))
        \<and> (wf_sh E old sh \<and> z_threshold old = z_threshold z \<longrightarrow> wf_sh E z sh)
    | SHM_EXISTS sh \<Rightarrow> ea_init_zone E z start now io alloc_ok = Some (NGX_OK, Some sh)
    | SHM_FRESH pool \<Rightarrow> \<exists>rc sho. ea_init_zone E z start now io alloc_ok = Some (rc, sho)
        \<and> (rc = NGX_OK \<longrightarrow> (\<exists>sh. sho = Some sh \<and> wf_sh E z sh \<and> (\<forall>c \<in> set (zabs sh). restored_ok z now c)))"
proof (cases start)
  case (SHM_RELOAD old sh)
  then show ?thesis using strncmp_same_iff[of "z_key old" "z_key z"] assms(6) wf_sh_threshold[of old z E sh]
    by (auto simp: ea_init_zone_def)
next
  case (SHM_FRESH pool)
  define fresh where "fresh p = \<lparr> sh_rbtree = Leaf, sh_queue = [], sh_heap = Map.empty, sh_slab = p,
      sh_fault_nth = -1, sh_fault_seen = 0 \<rparr>" for p :: 'a
  have wf: "wf_sh E z (fresh p)" "zabs (fresh p) = []" "(fresh p) \<lparr> sh_slab := p' \<rparr> = fresh p'" for p p'
    by (simp_all add: wf_sh_def fresh_def zabs_def)
  obtain x p1 where a1: "ngx_slab_alloc_locked E pool SHCTX_SIZE = (x, p1)" by fastforce
  obtain y p2 where a2: "ngx_slab_alloc_locked E p1 (LOG_CTX_LEN + length (z_name z)) = (y, p2)" by fastforce
  obtain rc out sh' where "ea_load E z (fresh p2) now io alloc_ok = Some (rc, out, sh')" "wf_sh E z sh'"
    "\<forall>c \<in> set (zabs sh'). restored_ok z now c"
    using load_any[OF assms(1-3) wf(1)[of p2] assms(4,5), of alloc_ok] wf(2) by auto
  then show ?thesis using SHM_FRESH a1 a2 wf
    by (cases x; cases y) (auto simp: ea_init_zone_def Let_def simp flip: fresh_def)
qed (simp add: ea_init_zone_def)

text \<open>The example store of one banned client, serialized and loaded.\<close>

lemma ex_rec_of: "map rec_of (zabs ex_sh2) = [ex_rec]"
  by (simp add: rec_of_def ex_rec_def)

lemma ex_rec_sel [simp]: "length (sr_key ex_rec) = 32" "sr_events ex_rec = []"
  by (simp_all add: ex_rec_def scan_consts)

lemma ex_rec_wf: "wf_rec 2 ex_rec" "length (enc_recs [ex_rec]) = 52"
  by (simp_all add: wf_rec_def enc_recs_def scan_consts)

definition ex_alloc :: "nat \<Rightarrow> bytes option" where
  "ex_alloc n = Some (replicate n 0)"

lemma ex_serialized:
  "\<exists>buf. ea_serialize ref_ngx ex_zone ex_sh2 ex_alloc None = Some (Some (buf, 76)) \<and> take 76 buf = ex_image"
proof -
  have "fitting (65536 - 24) [ex_rec] = [ex_rec]" by (rule fitting_all) (simp add: ex_rec_wf scan_consts)
  then show ?thesis
    using serialize_image[of ex_zone ref_ngx ex_sh2 ex_alloc None "replicate 65568 0"] ref_digest_doc ex_image_length
    by (auto simp: mac_of_def ex_alloc_def persist_buffer_def snap_consts ex_rec_of rev_map [symmetric] ex_image_def
        simp del: ex_zabs fitting.simps)
qed

lemma ex_slab_room: "slab_room ref_ngx sz (Suc 0) (sh_slab ex_sh0)" "sh_fault_nth ex_sh0 < 0"
  by (simp_all add: ex_sh0_def ref_slab_alloc_def)

lemma ex_load: "\<exists>sh'. ea_load ref_ngx ex_zone ex_sh0 1020 (IO_FILE 76 (Some ex_image)) True
     = Some (NGX_OK, LOAD_DONE 1 0, sh')"
proof -
  have "drop 24 ex_image = enc_recs [ex_rec] @ []" by (simp add: ex_image_def enc_file_def)
  moreover have "\<not> skipped 1020 ex_rec" by (simp add: skipped_def ex_rec_def)
  ultimately obtain sh' where ll: "load_loop ref_ngx ex_zone 1020 ex_image 76 ex_sh0 24 0 1 = Some (1, 0, sh')"
    using load_loop_image[of ref_ngx ex_zone 1020 76 ex_image "[ex_rec]" ex_sh0 24 "[]" 0] ex_slab_room ex_rec_wf
    by (auto simp: ex_image_length a_find_def simp del: load_loop.simps)
  have "ex_image = enc_file ref_ngx ex_zone [ex_rec] @ []" by (simp add: ex_image_def)
  then show ?thesis
    using load_buffer_image[of ex_zone ex_image 0 ref_ngx "[ex_rec]" "[]" ex_sh0 1020] ex_rec_wf ll
    by (simp add: load_cases Let_def ex_image_length snap_consts mac_of_def ex_image_def [symmetric]
        del: load_loop.simps)
qed

theorem load_authentic_witness:
  "\<exists>rs m. IO_FILE 76 (Some ex_image) = IO_FILE (length (enc_file ref_ngx ex_zone rs @ m)) (Some (enc_file ref_ngx ex_zone rs @ m))
     \<and> mac_of ref_ngx ex_zone (enc_file ref_ngx ex_zone rs) = Some m \<and> (\<forall>r \<in> set rs. wf_rec 2 r)"
  using load_authentic[of ex_zone "IO_FILE 76 (Some ex_image)" ref_ngx ex_sh0 1020 True] ex_load
  by (auto simp: ex_image_length)

theorem snapshot_roundtrip_witness:
  "\<exists>buf sh'. ea_serialize ref_ngx ex_zone ex_sh2 ex_alloc None = Some (Some (buf, 76))
     \<and> ea_load ref_ngx ex_zone ex_sh0 1020 (IO_FILE 76 (Some (take 76 buf))) True = Some (NGX_OK, LOAD_DONE 1 0, sh')
     \<and> zabs sh' = zabs ex_sh2"
proof -
  obtain buf where b: "ea_serialize ref_ngx ex_zone ex_sh2 ex_alloc None = Some (Some (buf, 76))"
    using ex_serialized by blast
  have "length (enc_recs (map rec_of (zabs ex_sh2))) + FILE_HDR_LEN \<le> z_shm_size ex_zone"
    unfolding ex_rec_of by (simp add: ex_rec_wf snap_consts scan_consts)
  from snapshot_roundtrip[OF _ _ _ _ _ _ _ b this, of 1020 ex_sh0] show ?thesis
    using b ref_digest_doc ex_slab_room
    by (auto simp: ex_alloc_def survives_def reloaded_def snap_consts sat_add_def ea_time_max_def)
qed

theorem snapshot_written_witness:
  "\<exists>buf. ea_serialize ref_ngx ex_zone ex_sh2 ex_alloc None = Some (Some (buf, 76)) \<and> take 76 buf = ex_image"
  using snapshot_written[of ref_ngx ex_zone ex_sh2 ex_alloc None] ref_digest_doc ex_rec_wf ex_image_length
  by (auto simp: ex_alloc_def persist_buffer_def snap_consts ex_rec_of rev_map [symmetric] ex_image_def mac_of_def
      simp del: ex_zabs split: option.splits prod.splits)

theorem init_zone_correct_witness:
  "\<exists>rc sho. ea_init_zone ref_ngx ex_zone (SHM_FRESH (3, [])) 1020 IO_OPEN_FAILED True = Some (rc, sho)
     \<and> rc = NGX_OK \<and> sho \<noteq> None"
  using init_zone_correct[of ref_ngx ex_zone 1020 IO_OPEN_FAILED "SHM_FRESH (3, [])" True]
  by (auto simp: ex_zone_def ea_init_zone_def Let_def ref_slab_alloc_def)

end
