(* ===== verification/EA_Config.thy ===== *)
theory EA_Config
  imports EA_Store
begin

text \<open>
  The configuration: the directives \<^verbatim>\<open>error_abuse_zone\<close> and \<^verbatim>\<open>error_abuse\<close>, the
  location configurations and their inheritance.  A directive's arguments are the byte strings that
  nginx's configuration parser hands over (without the directive's name); a result is either the
  error that is logged or the new configuration.  What the directives call in nginx is the record
  \<open>cfg\<close>, with the answer of each allocation.
\<close>

section \<open>What the directives call\<close>

datatype shm_add = SHM_ADD_NULL | SHM_ADD_USED | SHM_ADD_NEW

record cfg =
  cf_parse_size :: "bytes \<Rightarrow> int"
  cf_parse_time :: "bytes \<Rightarrow> bool \<Rightarrow> int"
  cf_strcasecmp :: "bytes \<Rightarrow> bytes \<Rightarrow> int"
  cf_hextoi :: "bytes \<Rightarrow> int"
  cf_full_name :: "bytes \<Rightarrow> bytes option"
  cf_compile :: "bytes \<Rightarrow> bool"
  cf_shm_add :: "bytes \<Rightarrow> nat \<Rightarrow> shm_add"
  cf_pagesize :: nat
  cf_alloc_zone :: bool
  cf_alloc_secret :: bool
  cf_alloc_persist :: bool
  cf_alloc_slot :: bool

text \<open>\<^verbatim>\<open>ngx_parse_size\<close> gives \<^verbatim>\<open>NGX_ERROR\<close> or a size that fits \<^verbatim>\<open>ssize_t\<close>; pages
  have at least 4096 bytes.\<close>

definition cfg_doc :: "cfg \<Rightarrow> bool" where
  "cfg_doc C \<longleftrightarrow> (\<forall>s. - 1 \<le> cf_parse_size C s \<and> cf_parse_size C s < 2 ^ 63) \<and> 4096 \<le> cf_pagesize C"

section \<open>Errors\<close>

text \<open>One constructor per message; \<^verbatim>\<open>CE_INVALID\<close> and \<^verbatim>\<open>CE_DUPLICATE\<close> hold the parameter as
  it is written to the log.\<close>

datatype conf_err =
    CE_ALLOC | CE_NAME_SIZE | CE_SIZE | CE_TOO_SMALL | CE_SECRET_SHORT nat
  | CE_INVALID bytes | CE_DUPLICATE bytes | CE_REQUIRES_ZONE | CE_DUPLICATE_ZONE | CE_INACTIVE
  | CE_STATUSES statuses_rc | CE_COMPILE | CE_FULL_NAME | CE_SAME_FILE bytes
  | CE_PERSIST_INTERVAL | CE_PERSIST_SECRET | CE_BRACES | CE_SHM | CE_SHM_USED
  | CE_IS_DUPLICATE | CE_UNKNOWN_ZONE bytes | CE_NO_ZONE

definition ea_log_safe_param :: "bytes \<Rightarrow> bytes" where
  "ea_log_safe_param param =
     (if 15 \<le> length param \<and> starts param (ascii ''persist_secret='') then ascii ''persist_secret=<redacted>''
      else if 9 \<le> length param \<and> starts param (ascii ''password='') then ascii ''password=<redacted>''
      else param)"

section \<open>Helpers of the directives\<close>

definition ea_parse_seconds :: "cfg \<Rightarrow> bytes \<Rightarrow> time option" where
  "ea_parse_seconds C s =
     (let t = word_of_int (cf_parse_time C s True) :: 64 word in
      if t = word_of_int (- 1) \<or> t = 0 \<or> uint t > MAX_SECONDS then None else Some (uint t))"

text \<open>The zones are found by the index of their slot.\<close>

fun ea_find_zone :: "zone list \<Rightarrow> bytes \<Rightarrow> nat option option" where
  "ea_find_zone [] name = Some None"
| "ea_find_zone (z # zs) name = do {
     same \<leftarrow> (if length (z_name z) = length name then strncmp_same (z_name z) name (length name) else Some False);
     if same then Some (Some 0) else map_option (map_option Suc) (ea_find_zone zs name)
   }"

text \<open>The loop that looks for another zone with the same persistence file.\<close>

fun persist_clash :: "zone list \<Rightarrow> bytes \<Rightarrow> bytes option option" where
  "persist_clash [] path = Some None"
| "persist_clash (z # zs) path = do {
     same \<leftarrow> (if length (z_persist z) = length path then strncmp_same (z_persist z) path (length path) else Some False);
     if same then Some (Some (z_name z)) else persist_clash zs path
   }"

definition ea_parse_statuses_conf :: "'s ngx \<Rightarrow> zone \<Rightarrow> bytes \<Rightarrow> (conf_err + zone) option" where
  "ea_parse_statuses_conf E z v = do {
     (rc, bm) \<leftarrow> ea_parse_statuses E v (z_statuses z);
     Some (if rc = STATUSES_OK then Inr (z \<lparr> z_statuses := bm \<rparr>) else Inl (CE_STATUSES rc))
   }"

text \<open>\<^verbatim>\<open>persist_secret=\<close>: pairs of hex digits, one byte each.\<close>

fun hex_bytes :: "cfg \<Rightarrow> bytes \<Rightarrow> bytes option" where
  "hex_bytes C (h # l # rest) =
     (let hi = cf_hextoi C [h]; lo = cf_hextoi C [l] in
      if hi = - 1 \<or> lo = - 1 then None
      else map_option ((#) (word_of_int (push_bit 4 hi OR lo))) (hex_bytes C rest))"
| "hex_bytes C _ = Some []"

section \<open>The options of \<^verbatim>\<open>error_abuse_zone\<close>\<close>

datatype zopt =
    SEEN_ZONE | SEEN_KEY | SEEN_STATUSES | SEEN_INTERVAL | SEEN_THRESHOLD | SEEN_BLOCK | SEEN_INACTIVE
  | SEEN_PERSIST | SEEN_PERSIST_INTERVAL | SEEN_REDIS | SEEN_PERSIST_SECRET | SEEN_ON_FULL

text \<open>The local variables of the handler; \<open>zp_zone\<close> is the zone under construction.\<close>

record zparse =
  zp_zone :: zone
  zp_size :: nat
  zp_key :: bytes
  zp_statuses :: bytes
  zp_persist :: bytes
  zp_seen :: "zopt set"

definition zone0 :: zone where
  "zone0 = \<lparr> z_name = [], z_key = [], z_statuses = replicate STATUS_BYTES 0, z_interval = 0, z_block = 0,
     z_inactive = 0, z_threshold = 0, z_persist = [], z_persist_secret = [], z_persist_interval = 0,
     z_redis = False, z_on_full_reject = False, z_shm_size = 0 \<rparr>"

definition zparse0 :: zparse where
  "zparse0 = \<lparr> zp_zone = zone0, zp_size = 0, zp_key = [], zp_statuses = [], zp_persist = [], zp_seen = {} \<rparr>"

definition invalid :: "bytes \<Rightarrow> conf_err + 'a" where
  "invalid v = Inl (CE_INVALID (ea_log_safe_param v))"

text \<open>Every option may be given once.\<close>

definition once :: "zopt \<Rightarrow> bytes \<Rightarrow> zparse \<Rightarrow> (zparse \<Rightarrow> conf_err + zparse) \<Rightarrow> conf_err + zparse" where
  "once o' v p k =
     (if o' \<in> zp_seen p then Inl (CE_DUPLICATE (ea_log_safe_param v))
      else k (p \<lparr> zp_seen := insert o' (zp_seen p) \<rparr>))"

abbreviation upd_zone :: "zparse \<Rightarrow> (zone \<Rightarrow> zone) \<Rightarrow> zparse" where
  "upd_zone p f \<equiv> p \<lparr> zp_zone := f (zp_zone p) \<rparr>"

definition opt_zone :: "cfg \<Rightarrow> bytes \<Rightarrow> zparse \<Rightarrow> conf_err + zparse" where
  "opt_zone C s p =
     (case cstr_chr s 58 of
        None \<Rightarrow> Inl CE_NAME_SIZE
      | Some i \<Rightarrow>
          let parsed_size = cf_parse_size C (drop (i + 1) s) in
          if parsed_size = - 1 then Inl CE_SIZE
          else if parsed_size < 8 * int (cf_pagesize C) then Inl CE_TOO_SMALL
          else Inr (upd_zone (p \<lparr> zp_size := nat parsed_size \<rparr>) (z_name_update (\<lambda>_. take i s))))"

definition opt_seconds :: "cfg \<Rightarrow> bytes \<Rightarrow> nat \<Rightarrow> (time \<Rightarrow> zone \<Rightarrow> zone) \<Rightarrow> zparse \<Rightarrow> conf_err + zparse" where
  "opt_seconds C v n f p =
     (case ea_parse_seconds C (drop n v) of None \<Rightarrow> invalid v | Some t \<Rightarrow> Inr (upd_zone p (f t)))"

definition opt_threshold :: "'s ngx \<Rightarrow> bytes \<Rightarrow> zparse \<Rightarrow> conf_err + zparse" where
  "opt_threshold E v p =
     (let n = ngx_atoi E (drop 10 v) in
      if n < 1 \<or> n > int MAX_THRESHOLD then invalid v
      else Inr (upd_zone p (z_threshold_update (\<lambda>_. nat n))))"

definition opt_persist_interval :: "cfg \<Rightarrow> bytes \<Rightarrow> zparse \<Rightarrow> conf_err + zparse" where
  "opt_persist_interval C v p =
     (let t = word_of_int (cf_parse_time C (drop 17 v) False) :: 64 word in
      if t = word_of_int (- 1) \<or> unat t < 100 then invalid v
      else Inr (upd_zone p (z_persist_interval_update (\<lambda>_. unat t))))"

definition MIN_PERSIST_SECRET_BYTES :: nat where "MIN_PERSIST_SECRET_BYTES = 16"

definition opt_persist_secret :: "cfg \<Rightarrow> bytes \<Rightarrow> zparse \<Rightarrow> conf_err + zparse" where
  "opt_persist_secret C v p =
     (let hexp = drop 15 v; keylen = length hexp div 2 in
      if length hexp = 0 \<or> odd (length hexp) then invalid v
      else if keylen < MIN_PERSIST_SECRET_BYTES then Inl (CE_SECRET_SHORT keylen)
      else if \<not> cf_alloc_secret C then Inl CE_ALLOC
      else case hex_bytes C hexp of
             None \<Rightarrow> invalid v
           | Some key \<Rightarrow> Inr (upd_zone p (z_persist_secret_update (\<lambda>_. key))))"

definition opt_redis :: "cfg \<Rightarrow> bytes \<Rightarrow> zparse \<Rightarrow> conf_err + zparse" where
  "opt_redis C v p =
     (let s = drop 6 v in
      if length s = 2 \<and> cf_strcasecmp C s (ascii ''on'') = 0 then Inr (upd_zone p (z_redis_update (\<lambda>_. True)))
      else if length s = 3 \<and> cf_strcasecmp C s (ascii ''off'') = 0 then Inr (upd_zone p (z_redis_update (\<lambda>_. False)))
      else invalid v)"

definition opt_on_full :: "bytes \<Rightarrow> zparse \<Rightarrow> conf_err + zparse" where
  "opt_on_full v p =
     (let s = drop 8 v in
      if length s = 5 \<and> starts s (ascii ''allow'') then Inr (upd_zone p (z_on_full_reject_update (\<lambda>_. False)))
      else if length s = 6 \<and> starts s (ascii ''reject'') then Inr (upd_zone p (z_on_full_reject_update (\<lambda>_. True)))
      else invalid v)"

definition zone_option :: "'s ngx \<Rightarrow> cfg \<Rightarrow> bytes \<Rightarrow> zparse \<Rightarrow> conf_err + zparse" where
  "zone_option E C v p =
     (if starts v (ascii ''zone='') then once SEEN_ZONE v p (opt_zone C (drop 5 v))
      else if starts v (ascii ''key='') then once SEEN_KEY v p (\<lambda>p. Inr (p \<lparr> zp_key := drop 4 v \<rparr>))
      else if starts v (ascii ''statuses='') then
        once SEEN_STATUSES v p (\<lambda>p. Inr (p \<lparr> zp_statuses := drop 9 v \<rparr>))
      else if starts v (ascii ''interval='') then
        once SEEN_INTERVAL v p (opt_seconds C v 9 (\<lambda>t. z_interval_update (\<lambda>_. t)))
      else if starts v (ascii ''threshold='') then once SEEN_THRESHOLD v p (opt_threshold E v)
      else if starts v (ascii ''block='') then
        once SEEN_BLOCK v p (opt_seconds C v 6 (\<lambda>t. z_block_update (\<lambda>_. t)))
      else if starts v (ascii ''inactive='') then
        once SEEN_INACTIVE v p (opt_seconds C v 9 (\<lambda>t. z_inactive_update (\<lambda>_. t)))
      else if starts v (ascii ''persist='') then
        once SEEN_PERSIST v p (\<lambda>p. if drop 8 v = [] then invalid v else Inr (p \<lparr> zp_persist := drop 8 v \<rparr>))
      else if starts v (ascii ''persist_interval='') then once SEEN_PERSIST_INTERVAL v p (opt_persist_interval C v)
      else if starts v (ascii ''persist_secret='') then once SEEN_PERSIST_SECRET v p (opt_persist_secret C v)
      else if starts v (ascii ''redis='') then once SEEN_REDIS v p (opt_redis C v)
      else if starts v (ascii ''on_full='') then once SEEN_ON_FULL v p (opt_on_full v)
      else invalid v)"

fun zone_options :: "'s ngx \<Rightarrow> cfg \<Rightarrow> bytes list \<Rightarrow> zparse \<Rightarrow> conf_err + zparse" where
  "zone_options E C [] p = Inr p"
| "zone_options E C (v # vs) p =
     (case zone_option E C v p of Inl e \<Rightarrow> Inl e | Inr p \<Rightarrow> zone_options E C vs p)"

section \<open>The directive \<^verbatim>\<open>error_abuse_zone\<close>\<close>

definition zone_defaults :: "zparse \<Rightarrow> zparse" where
  "zone_defaults p =
     (let z = zp_zone p;
          z = (if z_interval z = 0 then z \<lparr> z_interval := 300 \<rparr> else z);
          z = (if z_threshold z = 0 then z \<lparr> z_threshold := 100 \<rparr> else z);
          z = (if z_block z = 0 then z \<lparr> z_block := 3600 \<rparr> else z)
      in p \<lparr> zp_zone := z,
             zp_key := (if zp_key p = [] then ascii ''$binary_remote_addr'' else zp_key p),
             zp_statuses := (if zp_statuses p = [] then ascii ''403,404,500-599'' else zp_statuses p) \<rparr>)"

definition zone_inactive :: "zone \<Rightarrow> conf_err + zone" where
  "zone_inactive z =
     (if z_inactive z = 0 then
        let i = 3600;
            i = (if i < z_interval z then z_interval z else i);
            i = (if i < z_block z then z_block z else i)
        in Inr (z \<lparr> z_inactive := i \<rparr>)
      else if z_inactive z < z_interval z \<or> z_inactive z < z_block z then Inl CE_INACTIVE
      else Inr z)"

definition zone_persist :: "cfg \<Rightarrow> zone list \<Rightarrow> bytes \<Rightarrow> zone \<Rightarrow> (conf_err + zone) option" where
  "zone_persist C zones persist z =
     (if persist \<noteq> [] then
        if \<not> cf_alloc_persist C then Some (Inl CE_ALLOC)
        else case cf_full_name C persist of
               None \<Rightarrow> Some (Inl CE_FULL_NAME)
             | Some path \<Rightarrow> do {
                 clash \<leftarrow> persist_clash zones path;
                 Some (case clash of
                         Some other \<Rightarrow> Inl (CE_SAME_FILE other)
                       | None \<Rightarrow> Inr (z \<lparr> z_persist := path,
                           z_persist_interval := (if z_persist_interval z = 0 then 5000 else z_persist_interval z) \<rparr>))
               }
      else if z_persist_interval z \<noteq> 0 then Some (Inl CE_PERSIST_INTERVAL)
      else if z_persist_secret z \<noteq> [] then Some (Inl CE_PERSIST_SECRET)
      else Some (Inr z))"

definition zone_register :: "'s ngx \<Rightarrow> cfg \<Rightarrow> zone list \<Rightarrow> nat \<Rightarrow> zone \<Rightarrow> conf_err + zone list" where
  "zone_register E C zones size' z =
     (if ngx_strlchr E (z_name z) 123 \<noteq> None \<or> ngx_strlchr E (z_name z) 125 \<noteq> None then Inl CE_BRACES
      else case cf_shm_add C (z_name z) size' of
             SHM_ADD_NULL \<Rightarrow> Inl CE_SHM
           | SHM_ADD_USED \<Rightarrow> Inl CE_SHM_USED
           | SHM_ADD_NEW \<Rightarrow>
               if \<not> cf_alloc_slot C then Inl CE_ALLOC else Inr (zones @ [z \<lparr> z_shm_size := size' \<rparr>]))"

definition zone_finish :: "'s ngx \<Rightarrow> cfg \<Rightarrow> zone list \<Rightarrow> zparse \<Rightarrow> (conf_err + zone list) option" where
  "zone_finish E C zones p =
     (if z_name (zp_zone p) = [] \<or> zp_size p = 0 then Some (Inl CE_REQUIRES_ZONE)
      else do {
        let p = zone_defaults p;
        found \<leftarrow> ea_find_zone zones (z_name (zp_zone p));
        if found \<noteq> None then Some (Inl CE_DUPLICATE_ZONE)
        else case zone_inactive (zp_zone p) of
               Inl e \<Rightarrow> Some (Inl e)
             | Inr z \<Rightarrow> do {
                 st \<leftarrow> ea_parse_statuses_conf E z (zp_statuses p);
                 case st of
                   Inl e \<Rightarrow> Some (Inl e)
                 | Inr z \<Rightarrow>
                     if \<not> cf_compile C (zp_key p) then Some (Inl CE_COMPILE)
                     else do {
                       pe \<leftarrow> zone_persist C zones (zp_persist p) (z \<lparr> z_key := zp_key p \<rparr>);
                       case pe of
                         Inl e \<Rightarrow> Some (Inl e)
                       | Inr z \<Rightarrow> Some (zone_register E C zones (zp_size p) z)
                     }
               }
      })"

definition ea_zone_directive :: "'s ngx \<Rightarrow> cfg \<Rightarrow> zone list \<Rightarrow> bytes list \<Rightarrow> (conf_err + zone list) option" where
  "ea_zone_directive E C zones args =
     (if \<not> cf_alloc_zone C then Some (Inl CE_ALLOC)
      else case zone_options E C args zparse0 of
             Inl e \<Rightarrow> Some (Inl e)
           | Inr p \<Rightarrow> zone_finish E C zones p)"

section \<open>Location configurations\<close>

text \<open>An unset flag (\<^verbatim>\<open>NGX_CONF_UNSET\<close>) is \<open>None\<close>; the zone is the index of its slot.\<close>

datatype log_level = NGX_LOG_INFO | NGX_LOG_NOTICE | NGX_LOG_WARN | NGX_LOG_ERR

record loc_conf =
  lc_zone :: "nat option"
  lc_reject_status :: "nat option"
  lc_log_level :: "log_level option"
  lc_dry_run :: "bool option"
  lc_enabled :: "bool option"

definition ea_create_loc_conf :: loc_conf where
  "ea_create_loc_conf = \<lparr> lc_zone = None, lc_reject_status = None, lc_log_level = None, lc_dry_run = None, lc_enabled = None \<rparr>"

definition log_levels :: "(bytes \<times> log_level) list" where
  "log_levels = [(ascii ''info'', NGX_LOG_INFO), (ascii ''notice'', NGX_LOG_NOTICE),
     (ascii ''warn'', NGX_LOG_WARN), (ascii ''error'', NGX_LOG_ERR)]"

fun find_level :: "(bytes \<times> log_level) list \<Rightarrow> bytes \<Rightarrow> log_level option" where
  "find_level [] s = None"
| "find_level ((name, l) # ls) s =
     (if length s = length name \<and> starts s name then Some l else find_level ls s)"

datatype eopt = ENABLE_SEEN_ZONE | ENABLE_SEEN_STATUS | ENABLE_SEEN_DRY_RUN | ENABLE_SEEN_LOG_LEVEL

text \<open>One parameter of \<^verbatim>\<open>error_abuse\<close>; here the parameter is logged as it is.\<close>

definition enable_option ::
  "'s ngx \<Rightarrow> zone list \<Rightarrow> bytes \<Rightarrow> eopt set \<Rightarrow> loc_conf \<Rightarrow> (conf_err + eopt set \<times> loc_conf) option" where
  "enable_option E zones v seen l =
     (if starts v (ascii ''zone='') then
        if ENABLE_SEEN_ZONE \<in> seen then Some (Inl (CE_DUPLICATE v))
        else do {
          found \<leftarrow> ea_find_zone zones (drop 5 v);
          Some (case found of
                  None \<Rightarrow> Inl (CE_UNKNOWN_ZONE (drop 5 v))
                | Some i \<Rightarrow> Inr (insert ENABLE_SEEN_ZONE seen, l \<lparr> lc_zone := Some i \<rparr>))
        }
      else if starts v (ascii ''status='') then
        if ENABLE_SEEN_STATUS \<in> seen then Some (Inl (CE_DUPLICATE v))
        else let status = ngx_atoi E (drop 7 v) in
          if status < 400 \<or> status > 599 then Some (Inl (CE_INVALID v))
          else Some (Inr (insert ENABLE_SEEN_STATUS seen, l \<lparr> lc_reject_status := Some (nat status) \<rparr>))
      else if starts v (ascii ''dry_run='') then
        if ENABLE_SEEN_DRY_RUN \<in> seen then Some (Inl (CE_DUPLICATE v))
        else if length v = 10 \<and> starts (drop 8 v) (ascii ''on'')
        then Some (Inr (insert ENABLE_SEEN_DRY_RUN seen, l \<lparr> lc_dry_run := Some True \<rparr>))
        else if length v = 11 \<and> starts (drop 8 v) (ascii ''off'')
        then Some (Inr (insert ENABLE_SEEN_DRY_RUN seen, l \<lparr> lc_dry_run := Some False \<rparr>))
        else Some (Inl (CE_INVALID v))
      else if starts v (ascii ''log_level='') then
        if ENABLE_SEEN_LOG_LEVEL \<in> seen then Some (Inl (CE_DUPLICATE v))
        else case find_level log_levels (drop 10 v) of
               None \<Rightarrow> Some (Inl (CE_INVALID v))
             | Some lev \<Rightarrow> Some (Inr (insert ENABLE_SEEN_LOG_LEVEL seen, l \<lparr> lc_log_level := Some lev \<rparr>))
      else Some (Inl (CE_INVALID v)))"

fun enable_options ::
  "'s ngx \<Rightarrow> zone list \<Rightarrow> bytes list \<Rightarrow> eopt set \<Rightarrow> loc_conf \<Rightarrow> (conf_err + loc_conf) option" where
  "enable_options E zones [] seen l = Some (Inr l)"
| "enable_options E zones (v # vs) seen l = do {
     r \<leftarrow> enable_option E zones v seen l;
     case r of Inl e \<Rightarrow> Some (Inl e) | Inr (seen, l) \<Rightarrow> enable_options E zones vs seen l
   }"

text \<open>The directive behind the check for \<^verbatim>\<open>off\<close>.\<close>

definition enable_rest :: "'s ngx \<Rightarrow> zone list \<Rightarrow> bytes list \<Rightarrow> loc_conf \<Rightarrow> (conf_err + loc_conf) option" where
  "enable_rest E zones args l = do {
     r \<leftarrow> enable_options E zones args {} (l \<lparr> lc_enabled := Some True \<rparr>);
     Some (case r of Inl e \<Rightarrow> Inl e | Inr l \<Rightarrow> if lc_zone l = None then Inl CE_NO_ZONE else Inr l)
   }"

definition ea_enable :: "'s ngx \<Rightarrow> zone list \<Rightarrow> bytes list \<Rightarrow> loc_conf \<Rightarrow> (conf_err + loc_conf) option" where
  "ea_enable E zones args l =
     (if lc_enabled l \<noteq> None then Some (Inl CE_IS_DUPLICATE)
      else case args of
        [v] \<Rightarrow> if length v = 3 \<and> starts v (ascii ''off'')
               then Some (Inr (l \<lparr> lc_enabled := Some False, lc_zone := None \<rparr>))
               else enable_rest E zones args l
      | _ \<Rightarrow> enable_rest E zones args l)"

definition merge_value :: "'a option \<Rightarrow> 'a option \<Rightarrow> 'a \<Rightarrow> 'a option" where
  "merge_value conf prev dflt =
     (case conf of Some v \<Rightarrow> Some v | None \<Rightarrow> (case prev of Some v \<Rightarrow> Some v | None \<Rightarrow> Some dflt))"

text \<open>\<^verbatim>\<open>NGX_HTTP_TOO_MANY_REQUESTS\<close> is 429.\<close>

definition ea_merge_loc_conf :: "loc_conf \<Rightarrow> loc_conf \<Rightarrow> loc_conf" where
  "ea_merge_loc_conf prev conf =
     (let conf = conf \<lparr> lc_enabled := merge_value (lc_enabled conf) (lc_enabled prev) False,
                        lc_reject_status := merge_value (lc_reject_status conf) (lc_reject_status prev) 429,
                        lc_log_level := merge_value (lc_log_level conf) (lc_log_level prev) NGX_LOG_NOTICE,
                        lc_dry_run := merge_value (lc_dry_run conf) (lc_dry_run prev) False \<rparr>
      in if lc_zone conf = None \<and> lc_enabled conf = Some True then conf \<lparr> lc_zone := lc_zone prev \<rparr> else conf)"

section \<open>What an accepted zone is\<close>

definition config_ok :: "zone \<Rightarrow> bool" where
  "config_ok z \<longleftrightarrow> wf_zone z \<and> length (z_statuses z) = STATUS_BYTES
     \<and> z_name z \<noteq> [] \<and> 123 \<notin> set (z_name z) \<and> 125 \<notin> set (z_name z)
     \<and> 32768 \<le> z_shm_size z \<and> z_shm_size z < 2 ^ 63
     \<and> (z_persist_secret z = [] \<or> MIN_PERSIST_SECRET_BYTES \<le> length (z_persist_secret z))
     \<and> (z_persist z \<noteq> [] \<longrightarrow> 100 \<le> z_persist_interval z)"

text \<open>All zones of a configuration: each in order, no two with one name or one file.\<close>

definition zones_ok :: "zone list \<Rightarrow> bool" where
  "zones_ok zs \<longleftrightarrow> (\<forall>z \<in> set zs. config_ok z) \<and> distinct (map z_name zs)
     \<and> distinct (filter (\<lambda>f. f \<noteq> []) (map z_persist zs))"

text \<open>What holds of the local variables after each option.\<close>

definition zp_ok :: "zparse \<Rightarrow> bool" where
  "zp_ok p \<longleftrightarrow>
     (let z = zp_zone p in
      0 \<le> z_interval z \<and> z_interval z \<le> MAX_SECONDS \<and> 0 \<le> z_block z \<and> z_block z \<le> MAX_SECONDS
    \<and> 0 \<le> z_inactive z \<and> z_inactive z \<le> MAX_SECONDS \<and> z_threshold z \<le> MAX_THRESHOLD
    \<and> (z_persist_interval z = 0 \<or> 100 \<le> z_persist_interval z)
    \<and> length (z_statuses z) = STATUS_BYTES \<and> z_persist z = []
    \<and> (z_persist_secret z = [] \<or> MIN_PERSIST_SECRET_BYTES \<le> length (z_persist_secret z))
    \<and> (zp_size p = 0 \<or> 32768 \<le> zp_size p \<and> zp_size p < 2 ^ 63))"

lemma parse_seconds_range: "ea_parse_seconds C s = Some t \<Longrightarrow> 0 < t \<and> t \<le> MAX_SECONDS"
  by (auto simp: ea_parse_seconds_def Let_def unsigned_greater_eq order_less_le uint_0_iff split: if_splits)

lemma hex_bytes_length: "hex_bytes C xs = Some ys \<Longrightarrow> length ys = length xs div 2"
  by (induction C xs arbitrary: ys rule: hex_bytes.induct) (auto simp: Let_def split: if_splits)

lemma once_Inr:
  "once q v p k = Inr p' \<longleftrightarrow> q \<notin> zp_seen p \<and> k (p \<lparr> zp_seen := insert q (zp_seen p) \<rparr>) = Inr p'"
  by (simp add: once_def)

lemma zp_ok_seen [simp]:
  "zp_ok (p \<lparr> zp_seen := S \<rparr>) = zp_ok p"
  "zp_ok (p \<lparr> zp_key := k \<rparr>) = zp_ok p" "zp_ok (p \<lparr> zp_statuses := k \<rparr>) = zp_ok p"
  "zp_ok (p \<lparr> zp_persist := k \<rparr>) = zp_ok p"
  by (simp_all add: zp_ok_def)

lemma opt_zone_ok: "cfg_doc C \<Longrightarrow> zp_ok p \<Longrightarrow> opt_zone C s p = Inr p' \<Longrightarrow> zp_ok p'"
  by (fastforce simp: opt_zone_def zp_ok_def Let_def cfg_doc_def nat_less_iff split: option.splits if_splits)

lemma opt_seconds_ok:
  "zp_ok p \<Longrightarrow> opt_seconds C v n (\<lambda>t. z_interval_update (\<lambda>_. t)) p = Inr p' \<Longrightarrow> zp_ok p'"
  "zp_ok p \<Longrightarrow> opt_seconds C v n (\<lambda>t. z_block_update (\<lambda>_. t)) p = Inr p' \<Longrightarrow> zp_ok p'"
  "zp_ok p \<Longrightarrow> opt_seconds C v n (\<lambda>t. z_inactive_update (\<lambda>_. t)) p = Inr p' \<Longrightarrow> zp_ok p'"
  by (auto simp: opt_seconds_def invalid_def zp_ok_def Let_def dest!: parse_seconds_range split: option.splits)

lemma opt_threshold_ok: "zp_ok p \<Longrightarrow> opt_threshold E v p = Inr p' \<Longrightarrow> zp_ok p'"
  by (auto simp: opt_threshold_def invalid_def zp_ok_def Let_def split: if_splits)

lemma opt_persist_interval_ok: "zp_ok p \<Longrightarrow> opt_persist_interval C v p = Inr p' \<Longrightarrow> zp_ok p'"
  unfolding opt_persist_interval_def Let_def
  by (cases "word_of_int (cf_parse_time C (drop 17 v) False) = (word_of_int (- 1) :: 64 word)
      \<or> unat (word_of_int (cf_parse_time C (drop 17 v) False) :: 64 word) < 100")
     (auto simp: invalid_def zp_ok_def Let_def)

lemma opt_persist_secret_ok: "zp_ok p \<Longrightarrow> opt_persist_secret C v p = Inr p' \<Longrightarrow> zp_ok p'"
  unfolding opt_persist_secret_def Let_def
  by (cases "hex_bytes C (drop 15 v)")
     (auto simp: invalid_def zp_ok_def Let_def dest: hex_bytes_length split: if_splits)

lemma opt_redis_ok: "zp_ok p \<Longrightarrow> opt_redis C v p = Inr p' \<Longrightarrow> zp_ok p'"
  by (auto simp: opt_redis_def invalid_def zp_ok_def Let_def split: if_splits)

lemma opt_on_full_ok: "zp_ok p \<Longrightarrow> opt_on_full v p = Inr p' \<Longrightarrow> zp_ok p'"
  by (auto simp: opt_on_full_def invalid_def zp_ok_def Let_def split: if_splits)

lemmas opts_ok = opt_seconds_ok opt_threshold_ok opt_persist_interval_ok opt_persist_secret_ok
  opt_redis_ok opt_on_full_ok

lemma zone_option_ok:
  assumes "cfg_doc C" "zp_ok p" "zone_option E C v p = Inr p'"
  shows "zp_ok p'"
proof -
  have ok: "zp_ok (p \<lparr> zp_seen := S \<rparr>)" for S using assms(2) by simp
  show ?thesis using assms(3) ok
    unfolding zone_option_def
    by (auto simp: once_Inr invalid_def dest: opt_zone_ok[OF assms(1) ok] opts_ok[OF ok] split: if_splits)
qed

lemma zone_options_ok: "cfg_doc C \<Longrightarrow> zp_ok p \<Longrightarrow> zone_options E C vs p = Inr p' \<Longrightarrow> zp_ok p'"
  by (induction vs arbitrary: p) (auto dest: zone_option_ok split: sum.splits)

lemma zparse0_ok: "zp_ok zparse0"
  by (simp add: zp_ok_def zparse0_def zone0_def MAX_SECONDS_def)

section \<open>The lookups\<close>

lemma find_zone_total:
  "\<exists>r. ea_find_zone zs name = Some r \<and> (case r of
      None \<Rightarrow> name \<notin> set (map z_name zs) | Some i \<Rightarrow> i < length zs)"
proof (induction zs)
  case (Cons z zs)
  then obtain r where r: "ea_find_zone zs name = Some r"
    "case r of None \<Rightarrow> name \<notin> set (map z_name zs) | Some i \<Rightarrow> i < length zs" by blast
  show ?case
  proof (cases "length (z_name z) = length name")
    case True
    then obtain b where "strncmp_same (z_name z) name (length name) = Some b" "z_name z = name \<longrightarrow> b"
      using strncmp_same_total[of "length name" "z_name z" name] by auto
    then show ?thesis using r True by (cases b) (auto split: option.splits)
  next
    case False
    then show ?thesis using r by (auto split: option.splits)
  qed
qed simp

lemma persist_clash_total:
  "\<exists>r. persist_clash zs path = Some r \<and> (r = None \<longrightarrow> path \<notin> set (map z_persist zs))"
proof (induction zs)
  case (Cons z zs)
  show ?case
  proof (cases "length (z_persist z) = length path")
    case True
    then obtain b where "strncmp_same (z_persist z) path (length path) = Some b" "z_persist z = path \<longrightarrow> b"
      using strncmp_same_total[of "length path" "z_persist z" path] by auto
    then show ?thesis using Cons True by (cases b) auto
  next
    case False
    then show ?thesis using Cons by auto
  qed
qed simp

text \<open>After the defaults and the check of \<^verbatim>\<open>inactive\<close>, the zone's numbers are as the engine
  needs them.\<close>

lemma zone_inactive_wf:
  assumes "zp_ok p" "zone_inactive (zp_zone (zone_defaults p)) = Inr z"
  shows "wf_zone z" "z_name z = z_name (zp_zone p)" "z_statuses z = z_statuses (zp_zone p)"
    "z_persist z = []" "z_persist_secret z = z_persist_secret (zp_zone p)"
    "z_persist_interval z = z_persist_interval (zp_zone p)"
proof -
  define y where "y = zp_zone (zone_defaults p)"
  have y: "0 < z_interval y" "z_interval y \<le> MAX_SECONDS" "0 < z_block y" "z_block y \<le> MAX_SECONDS"
    "0 \<le> z_inactive y" "z_inactive y \<le> MAX_SECONDS" "1 \<le> z_threshold y" "z_threshold y \<le> MAX_THRESHOLD"
    "z_name y = z_name (zp_zone p)" "z_statuses y = z_statuses (zp_zone p)" "z_persist y = []"
    "z_persist_secret y = z_persist_secret (zp_zone p)" "z_persist_interval y = z_persist_interval (zp_zone p)"
    using assms(1) by (auto simp: y_def zone_defaults_def zp_ok_def Let_def MAX_SECONDS_def MAX_THRESHOLD_def)
  have "zone_inactive y = Inr z" using assms(2) by (simp add: y_def)
  then have "z = y \<and> z_interval y \<le> z_inactive y \<and> z_block y \<le> z_inactive y
      \<or> (\<exists>i. z = y \<lparr> z_inactive := i \<rparr> \<and> z_interval y \<le> i \<and> z_block y \<le> i \<and> i \<le> MAX_SECONDS)"
    using y(2,4) by (auto simp: zone_inactive_def Let_def MAX_SECONDS_def split: if_splits)
  then show "wf_zone z" "z_name z = z_name (zp_zone p)" "z_statuses z = z_statuses (zp_zone p)"
    "z_persist z = []" "z_persist_secret z = z_persist_secret (zp_zone p)"
    "z_persist_interval z = z_persist_interval (zp_zone p)"
    using y by (auto simp: wf_zone_def)
qed

lemma parse_statuses_conf_total:
  assumes "strlchr_doc E" "length (z_statuses z) = STATUS_BYTES" "v \<noteq> []"
  shows "\<exists>r. ea_parse_statuses_conf E z v = Some r
     \<and> (\<forall>z'. r = Inr z' \<longrightarrow> (\<exists>bm. z' = z \<lparr> z_statuses := bm \<rparr> \<and> length bm = STATUS_BYTES))"
  using parse_statuses_loop_spec[OF assms(1,2), of 0 v] assms(3)
  by (auto simp: ea_parse_statuses_conf_def ea_parse_statuses_def)

lemma zone_persist_total:
  assumes "z_persist z = []" "z_persist_interval z = 0 \<or> 100 \<le> z_persist_interval z"
  shows "\<exists>r. zone_persist C zones persist z = Some r
     \<and> (\<forall>z'. r = Inr z' \<longrightarrow> (\<exists>f i. z' = z \<lparr> z_persist := f, z_persist_interval := i \<rparr>
          \<and> (f \<noteq> [] \<longrightarrow> f \<notin> set (map z_persist zones) \<and> 100 \<le> i)))"
proof (cases "persist = [] \<or> \<not> cf_alloc_persist C \<or> cf_full_name C persist = None")
  case True
  have "z = z \<lparr> z_persist := [], z_persist_interval := z_persist_interval z \<rparr>" using assms(1) by simp
  moreover have "zone_persist C zones persist z = Some (Inr z) \<or> (\<exists>e. zone_persist C zones persist z = Some (Inl e))"
    using True by (auto simp: zone_persist_def)
  ultimately show ?thesis by (metis Inl_Inr_False Inr_inject)
next
  case False
  then obtain f where f: "cf_full_name C persist = Some f" by blast
  obtain r where "persist_clash zones f = Some r" "r = None \<longrightarrow> f \<notin> set (map z_persist zones)"
    using persist_clash_total by blast
  moreover define i where "i = (if z_persist_interval z = 0 then 5000 else z_persist_interval z)"
  ultimately have "zone_persist C zones persist z = Some (case r of
      Some other \<Rightarrow> Inl (CE_SAME_FILE other) | None \<Rightarrow> Inr (z \<lparr> z_persist := f, z_persist_interval := i \<rparr>))"
    "r = None \<longrightarrow> f \<notin> set (map z_persist zones) \<and> 100 \<le> i"
    using f False assms(2) by (cases r; cases "z_persist_interval z = 0"; simp add: zone_persist_def i_def)+
  then show ?thesis by (cases r) auto
qed

lemma zone_register_ok:
  assumes "strlchr_doc E" "zones_ok zones" "zone_register E C zones n z = Inr zones'"
    and "z_name z \<notin> set (map z_name zones)" "z_persist z \<noteq> [] \<longrightarrow> z_persist z \<notin> set (map z_persist zones)"
    and "123 \<notin> set (z_name z) \<Longrightarrow> 125 \<notin> set (z_name z) \<Longrightarrow> config_ok (z \<lparr> z_shm_size := n \<rparr>)"
  shows "zones' = zones @ [z \<lparr> z_shm_size := n \<rparr>] \<and> zones_ok zones'"
proof -
  have "123 \<notin> set (z_name z)" "125 \<notin> set (z_name z)" "zones' = zones @ [z \<lparr> z_shm_size := n \<rparr>]"
    using assms(3) strlchr_None[OF assms(1)]
    by (auto simp: zone_register_def split: if_splits shm_add.splits)
  then show ?thesis using assms(2,4-6) by (auto simp: zones_ok_def)
qed

lemma zone_finish_ok:
  assumes doc: "strlchr_doc E" and zs: "zones_ok zones" and p: "zp_ok p"
  shows "\<exists>r. zone_finish E C zones p = Some r
     \<and> (\<forall>zones'. r = Inr zones' \<longrightarrow> (\<exists>z. zones' = zones @ [z] \<and> zones_ok zones'))"
proof (cases "z_name (zp_zone p) = [] \<or> zp_size p = 0")
  case True
  then show ?thesis by (auto simp: zone_finish_def)
next
  case False
  define d where "d = zone_defaults p"
  have d: "z_name (zp_zone d) = z_name (zp_zone p)" "zp_size d = zp_size p" "zp_statuses d \<noteq> []"
    by (simp_all add: d_def zone_defaults_def Let_def ascii_def)
  obtain found where found: "ea_find_zone zones (z_name (zp_zone d)) = Some found"
    "found = None \<longrightarrow> z_name (zp_zone d) \<notin> set (map z_name zones)"
    using find_zone_total[of zones "z_name (zp_zone d)"] by (auto split: option.splits)
  note run = zone_finish_def[of E C zones p, folded d_def, unfolded Let_def found(1), simplified if_not_P[OF False] bind.simps]
  show ?thesis
  proof (cases "found \<noteq> None \<or> (\<exists>e. zone_inactive (zp_zone d) = Inl e)")
    case True
    then show ?thesis using False run by auto
  next
    case go: False
    then obtain z where z: "zone_inactive (zp_zone d) = Inr z" "found = None" by (cases "zone_inactive (zp_zone d)") auto
    note w = zone_inactive_wf[OF p z(1)[unfolded d_def]]
    obtain st where st: "ea_parse_statuses_conf E z (zp_statuses d) = Some st"
      "\<And>z'. st = Inr z' \<Longrightarrow> \<exists>bm. z' = z \<lparr> z_statuses := bm \<rparr> \<and> length bm = STATUS_BYTES"
      using parse_statuses_conf_total[OF doc _ d(3), of z] w(3) p by (auto simp: zp_ok_def Let_def)
    show ?thesis
    proof (cases "(\<exists>e. st = Inl e) \<or> \<not> cf_compile C (zp_key d)")
      case True
      then show ?thesis using run z st(1) False by (cases st) auto
    next
      case go2: False
      then obtain bm where bm: "st = Inr (z \<lparr> z_statuses := bm \<rparr>)" "length bm = STATUS_BYTES"
        using st(2) by (cases st) auto
      define y where "y = z \<lparr> z_statuses := bm, z_key := zp_key d \<rparr>"
      have y: "z_persist y = []" "z_persist_interval y = 0 \<or> 100 \<le> z_persist_interval y"
        using w p by (simp_all add: y_def zp_ok_def Let_def)
      obtain pe where pe: "zone_persist C zones (zp_persist d) y = Some pe"
        "\<And>z'. pe = Inr z' \<Longrightarrow> \<exists>f i. z' = y \<lparr> z_persist := f, z_persist_interval := i \<rparr>
          \<and> (f \<noteq> [] \<longrightarrow> f \<notin> set (map z_persist zones) \<and> 100 \<le> i)"
        using zone_persist_total[OF y] by blast
      have res: "zone_finish E C zones p = Some (case pe of Inl e \<Rightarrow> Inl e | Inr z \<Rightarrow> zone_register E C zones (zp_size d) z)"
        using run z st(1) False go2 bm(1) pe(1) by (cases pe) (auto simp: y_def)
      show ?thesis
      proof (cases pe)
        case (Inl e)
        then show ?thesis using res by simp
      next
        case (Inr z')
        then obtain f i where f: "z' = y \<lparr> z_persist := f, z_persist_interval := i \<rparr>"
          "f \<noteq> [] \<longrightarrow> f \<notin> set (map z_persist zones) \<and> 100 \<le> i"
          using pe(2) by blast
        have ok: "config_ok (z' \<lparr> z_shm_size := zp_size d \<rparr>)"
          if "123 \<notin> set (z_name z')" "125 \<notin> set (z_name z')"
          using that w False p f bm(2) d(2)
          by (auto simp: config_ok_def y_def zp_ok_def Let_def wf_zone_def)
        have nm: "z_name z' \<notin> set (map z_name zones)" "z_persist z' \<noteq> [] \<longrightarrow> z_persist z' \<notin> set (map z_persist zones)"
          using found(2) z(2) d(1) w(2) f by (simp_all add: y_def)
        have "\<exists>z. zones' = zones @ [z] \<and> zones_ok zones'"
          if "zone_register E C zones (zp_size d) z' = Inr zones'" for zones'
          using zone_register_ok[OF doc zs that nm] ok by blast
        then show ?thesis using res Inr by auto
      qed
    qed
  qed
qed

section \<open>Locations\<close>

definition loc_ok :: "zone list \<Rightarrow> loc_conf \<Rightarrow> bool" where
  "loc_ok zones l \<longleftrightarrow> (\<forall>i. lc_zone l = Some i \<longrightarrow> i < length zones)
     \<and> (lc_enabled l = Some True \<longrightarrow> lc_zone l \<noteq> None)
     \<and> (\<forall>s. lc_reject_status l = Some s \<longrightarrow> 400 \<le> s \<and> s \<le> 599)"

definition merged :: "loc_conf \<Rightarrow> bool" where
  "merged l \<longleftrightarrow> lc_enabled l \<noteq> None \<and> lc_reject_status l \<noteq> None \<and> lc_log_level l \<noteq> None \<and> lc_dry_run l \<noteq> None"

text \<open>Inside the directive, before the check that a zone was given.\<close>

abbreviation loc_parse_ok :: "zone list \<Rightarrow> loc_conf \<Rightarrow> bool" where
  "loc_parse_ok zones l \<equiv> loc_ok zones (l \<lparr> lc_enabled := Some False \<rparr>)"

lemma enable_option_ok:
  assumes "loc_parse_ok zones l"
  shows "\<exists>r. enable_option E zones v seen l = Some r
     \<and> (\<forall>seen' l'. r = Inr (seen', l') \<longrightarrow> loc_parse_ok zones l' \<and> lc_enabled l' = lc_enabled l)"
proof (cases "starts v (ascii ''zone='')")
  case True
  obtain r where "ea_find_zone zones (drop 5 v) = Some r"
    "case r of None \<Rightarrow> drop 5 v \<notin> set (map z_name zones) | Some i \<Rightarrow> i < length zones"
    using find_zone_total by blast
  then show ?thesis using True assms by (cases r) (auto simp: enable_option_def loc_ok_def)
next
  case False
  then show ?thesis using assms by (auto simp: enable_option_def loc_ok_def Let_def split: option.splits)
qed

lemma enable_options_ok:
  "loc_parse_ok zones l \<Longrightarrow> \<exists>r. enable_options E zones vs seen l = Some r
     \<and> (\<forall>l'. r = Inr l' \<longrightarrow> loc_parse_ok zones l' \<and> lc_enabled l' = lc_enabled l)"
proof (induction vs arbitrary: seen l)
  case (Cons v vs)
  obtain r where r: "enable_option E zones v seen l = Some r"
    "\<And>seen' l'. r = Inr (seen', l') \<Longrightarrow> loc_parse_ok zones l' \<and> lc_enabled l' = lc_enabled l"
    using enable_option_ok[OF Cons.prems] by blast
  show ?case
  proof (cases r)
    case (Inr x)
    then obtain seen' l' where x: "x = (seen', l')" by fastforce
    with Cons.IH[of l' seen'] r Inr show ?thesis by auto
  qed (use r in simp)
qed simp

lemma enable_ok:
  assumes "loc_ok zones l"
  shows "\<exists>r. ea_enable E zones args l = Some r \<and> (\<forall>l'. r = Inr l' \<longrightarrow> loc_ok zones l' \<and> lc_enabled l' \<noteq> None)"
proof -
  have p: "loc_parse_ok zones (l \<lparr> lc_enabled := Some True \<rparr>)" using assms by (simp add: loc_ok_def)
  have rest: "\<exists>r. enable_rest E zones args l = Some r \<and> (\<forall>l'. r = Inr l' \<longrightarrow> loc_ok zones l' \<and> lc_enabled l' \<noteq> None)"
    using enable_options_ok[OF p, of E args "{}"]
    by (auto simp: enable_rest_def loc_ok_def split: sum.splits)
  have "loc_ok zones (l \<lparr> lc_enabled := Some False, lc_zone := None \<rparr>)" using assms by (simp add: loc_ok_def)
  then show ?thesis using rest by (auto simp: ea_enable_def split: list.splits)
qed

lemma merge_value_cases: "merge_value c p d = Some v \<longleftrightarrow> c = Some v \<or> c = None \<and> (p = Some v \<or> p = None \<and> d = v)"
  by (auto simp: merge_value_def split: option.splits)

lemma merge_value_Some [simp]: "\<exists>v. merge_value c p d = Some v"
  by (simp add: merge_value_def split: option.splits)

lemma merge_merged: "merged (ea_merge_loc_conf prev conf)"
  by (auto simp: merged_def ea_merge_loc_conf_def Let_def)

lemma merge_ok:
  assumes "loc_ok zones prev" "loc_ok zones conf"
  shows "loc_ok zones (ea_merge_loc_conf prev conf)"
proof -
  define m where "m = ea_merge_loc_conf prev conf"
  have en: "lc_enabled m = merge_value (lc_enabled conf) (lc_enabled prev) False"
    and st: "lc_reject_status m = merge_value (lc_reject_status conf) (lc_reject_status prev) 429"
    and zo: "lc_zone m = (if lc_zone conf = None \<and> lc_enabled m = Some True then lc_zone prev else lc_zone conf)"
    by (simp_all add: m_def ea_merge_loc_conf_def Let_def)
  have "lc_zone m \<noteq> None" if "lc_enabled m = Some True"
    using that assms unfolding zo by (auto simp: en merge_value_cases loc_ok_def)
  moreover have "400 \<le> s \<and> s \<le> 599" if "lc_reject_status m = Some s" for s
    using that assms by (auto simp: st merge_value_cases loc_ok_def)
  moreover have "i < length zones" if "lc_zone m = Some i" for i
    using that assms unfolding zo by (simp add: loc_ok_def split: if_splits)
  ultimately show ?thesis by (simp add: loc_ok_def m_def)
qed

section \<open>What is logged\<close>

definition redacted :: "bytes \<Rightarrow> bool" where
  "redacted t \<longleftrightarrow>
     (starts t (ascii ''persist_secret='') \<longrightarrow> t = ascii ''persist_secret=<redacted>'')
   \<and> (starts t (ascii ''password='') \<longrightarrow> t = ascii ''password=<redacted>'')"

lemma log_safe_redacted: "redacted (ea_log_safe_param v)"
  by (auto simp: redacted_def ea_log_safe_param_def starts_def ascii_def)

definition logs_safely :: "conf_err \<Rightarrow> bool" where
  "logs_safely e \<longleftrightarrow> (case e of CE_INVALID t \<Rightarrow> redacted t | CE_DUPLICATE t \<Rightarrow> redacted t | _ \<Rightarrow> True)"

lemma logs_safely_simps [simp]:
  "logs_safely (CE_INVALID t) \<longleftrightarrow> redacted t" "logs_safely (CE_DUPLICATE t) \<longleftrightarrow> redacted t"
  "logs_safely CE_ALLOC" "logs_safely CE_NAME_SIZE" "logs_safely CE_SIZE" "logs_safely CE_TOO_SMALL"
  "logs_safely (CE_SECRET_SHORT n)" "logs_safely CE_REQUIRES_ZONE" "logs_safely CE_DUPLICATE_ZONE"
  "logs_safely CE_INACTIVE" "logs_safely (CE_STATUSES rc)" "logs_safely CE_COMPILE" "logs_safely CE_FULL_NAME"
  "logs_safely (CE_SAME_FILE f)" "logs_safely CE_PERSIST_INTERVAL" "logs_safely CE_PERSIST_SECRET"
  "logs_safely CE_BRACES" "logs_safely CE_SHM" "logs_safely CE_SHM_USED" "logs_safely CE_IS_DUPLICATE"
  "logs_safely (CE_UNKNOWN_ZONE n')" "logs_safely CE_NO_ZONE"
  by (simp_all add: logs_safely_def)

lemma invalid_logs: "invalid v = Inl e \<Longrightarrow> logs_safely e"
  by (auto simp: invalid_def log_safe_redacted)

lemma once_logs: "once q v p k = Inl e \<Longrightarrow> (\<And>p. k p = Inl e \<Longrightarrow> logs_safely e) \<Longrightarrow> logs_safely e"
  by (auto simp: once_def log_safe_redacted split: if_splits)

lemma opt_logs:
  "opt_zone C v p = Inl e \<Longrightarrow> logs_safely e" "opt_seconds C v n f p = Inl e \<Longrightarrow> logs_safely e"
  "opt_threshold E v p = Inl e \<Longrightarrow> logs_safely e" "opt_redis C v p = Inl e \<Longrightarrow> logs_safely e"
  "opt_on_full v p = Inl e \<Longrightarrow> logs_safely e"
  by (auto simp: opt_zone_def opt_seconds_def opt_threshold_def opt_redis_def opt_on_full_def Let_def
      dest: invalid_logs split: option.splits if_splits)

lemma opt_persist_logs:
  "opt_persist_interval C v p = Inl e \<Longrightarrow> logs_safely e"
  "opt_persist_secret C v p = Inl e \<Longrightarrow> logs_safely e"
  unfolding opt_persist_interval_def opt_persist_secret_def Let_def
  by (metis Inl_Inr_False invalid_logs) (auto dest: invalid_logs split: option.splits if_splits)

lemma zone_option_logs: "zone_option E C v p = Inl e \<Longrightarrow> logs_safely e"
  unfolding zone_option_def
  by (auto dest!: once_logs dest: opt_logs opt_persist_logs invalid_logs split: if_splits)

lemma zone_options_logs: "zone_options E C vs p = Inl e \<Longrightarrow> logs_safely e"
  by (induction vs arbitrary: p) (auto dest: zone_option_logs split: sum.splits)

lemma zone_finish_logs: "zone_finish E C zones p = Some (Inl e) \<Longrightarrow> logs_safely e"
  by (auto simp: zone_finish_def Let_def ea_parse_statuses_conf_def zone_inactive_def zone_persist_def zone_register_def
      split: if_splits sum.splits option.splits prod.splits shm_add.splits Option.bind_splits)

end
