(* ===== verification/EA_RedisConf.thy ===== *)
theory EA_RedisConf
  imports EA_Config
begin

text \<open>
  The directive \<^verbatim>\<open>error_abuse_redis\<close>, the main configuration and its check at the end of the
  configuration (\<^verbatim>\<open>ngx_http_error_abuse_init\<close>), and what any accepted configuration is.
\<close>

section \<open>The main configuration\<close>

record redis_conf =
  rd_host :: bytes
  rd_sni :: bytes
  rd_prefix :: bytes
  rd_user :: bytes
  rd_password :: bytes
  rd_port :: nat
  rd_db :: int
  rd_timeout :: nat
  rd_tls :: bool
  rd_configured :: bool

record main_conf =
  mc_zones :: "zone list"
  mc_redis :: redis_conf

definition ea_create_main_conf :: main_conf where
  "ea_create_main_conf = \<lparr> mc_zones = [], mc_redis = \<lparr> rd_host = [], rd_sni = [], rd_prefix = [], rd_user = [],
     rd_password = [], rd_port = 6379, rd_db = 0, rd_timeout = 0, rd_tls = False, rd_configured = False \<rparr> \<rparr>"

section \<open>The directive \<^verbatim>\<open>error_abuse_redis\<close>\<close>

datatype ropt =
    REDIS_SEEN_HOST | REDIS_SEEN_PORT | REDIS_SEEN_PREFIX | REDIS_SEEN_TIMEOUT | REDIS_SEEN_USER
  | REDIS_SEEN_PASSWORD | REDIS_SEEN_DB

datatype redis_alloc = RA_SNI | RA_HOST | RA_PREFIX | RA_USER | RA_PASSWORD

text \<open>\<open>rc_resolve host port\<close> is the text of the first address that \<^verbatim>\<open>ngx_parse_url\<close> finds.\<close>

record rcfg =
  rc_parse_time :: "bytes \<Rightarrow> bool \<Rightarrow> int"
  rc_resolve :: "bytes \<Rightarrow> nat \<Rightarrow> bytes option"
  rc_alloc :: "redis_alloc \<Rightarrow> bool"

datatype redis_err = RE_ALLOC | RE_INVALID bytes | RE_DUPLICATE bytes | RE_REQUIRES_HOST | RE_USER_PASSWORD | RE_IS_DUPLICATE

record rparse =
  rp_port :: nat
  rp_host :: bytes
  rp_prefix :: bytes
  rp_user :: bytes
  rp_password :: bytes
  rp_db :: int
  rp_tls :: bool
  rp_timeout :: "64 word"
  rp_seen :: "ropt set"

definition rinvalid :: "bytes \<Rightarrow> redis_err + 'a" where
  "rinvalid v = Inl (RE_INVALID (ea_log_safe_param v))"

definition ronce :: "ropt \<Rightarrow> bytes \<Rightarrow> rparse \<Rightarrow> (rparse \<Rightarrow> redis_err + rparse) \<Rightarrow> redis_err + rparse" where
  "ronce q v p k =
     (if q \<in> rp_seen p then Inl (RE_DUPLICATE (ea_log_safe_param v))
      else k (p \<lparr> rp_seen := insert q (rp_seen p) \<rparr>))"

definition ropt_host :: "bytes \<Rightarrow> rparse \<Rightarrow> redis_err + rparse" where
  "ropt_host v p =
     (let host = drop 5 v;
          (tls, host) = (if 6 \<le> length host \<and> starts host (ascii ''tls://'') then (True, drop 6 host)
                         else if 9 \<le> length host \<and> starts host (ascii ''rediss://'') then (True, drop 9 host)
                         else (rp_tls p, host))
      in if host = [] then rinvalid v else Inr (p \<lparr> rp_tls := tls, rp_host := host \<rparr>))"

definition ropt_port :: "'s ngx \<Rightarrow> bytes \<Rightarrow> rparse \<Rightarrow> redis_err + rparse" where
  "ropt_port E v p =
     (let n = ngx_atoi E (drop 5 v) in
      if n < 1 \<or> n > 65535 then rinvalid v else Inr (p \<lparr> rp_port := nat n \<rparr>))"

definition ropt_prefix :: "'s ngx \<Rightarrow> bytes \<Rightarrow> rparse \<Rightarrow> redis_err + rparse" where
  "ropt_prefix E v p =
     (let s = drop 7 v in
      if s = [] \<or> ngx_strlchr E s 123 \<noteq> None \<or> ngx_strlchr E s 125 \<noteq> None then rinvalid v
      else Inr (p \<lparr> rp_prefix := s \<rparr>))"

definition ropt_timeout :: "rcfg \<Rightarrow> bytes \<Rightarrow> rparse \<Rightarrow> redis_err + rparse" where
  "ropt_timeout R v p =
     (let t = word_of_int (rc_parse_time R (drop 8 v) False) :: 64 word in
      if t = word_of_int (- 1) \<or> t = 0 then rinvalid v else Inr (p \<lparr> rp_timeout := t \<rparr>))"

definition ropt_db :: "'s ngx \<Rightarrow> bytes \<Rightarrow> rparse \<Rightarrow> redis_err + rparse" where
  "ropt_db E v p =
     (let db = ngx_atoi E (drop 3 v) in
      if db < 0 \<or> db > 65535 then rinvalid v else Inr (p \<lparr> rp_db := db \<rparr>))"

definition redis_option :: "'s ngx \<Rightarrow> rcfg \<Rightarrow> bytes \<Rightarrow> rparse \<Rightarrow> redis_err + rparse" where
  "redis_option E R v p =
     (if starts v (ascii ''host='') then ronce REDIS_SEEN_HOST v p (ropt_host v)
      else if starts v (ascii ''port='') then ronce REDIS_SEEN_PORT v p (ropt_port E v)
      else if starts v (ascii ''prefix='') then ronce REDIS_SEEN_PREFIX v p (ropt_prefix E v)
      else if starts v (ascii ''timeout='') then ronce REDIS_SEEN_TIMEOUT v p (ropt_timeout R v)
      else if starts v (ascii ''user='') then
        ronce REDIS_SEEN_USER v p (\<lambda>p. if drop 5 v = [] then rinvalid v else Inr (p \<lparr> rp_user := drop 5 v \<rparr>))
      else if starts v (ascii ''password='') then
        ronce REDIS_SEEN_PASSWORD v p (\<lambda>p. if drop 9 v = [] then rinvalid v else Inr (p \<lparr> rp_password := drop 9 v \<rparr>))
      else if starts v (ascii ''db='') then ronce REDIS_SEEN_DB v p (ropt_db E v)
      else rinvalid v)"

fun redis_options :: "'s ngx \<Rightarrow> rcfg \<Rightarrow> bytes list \<Rightarrow> rparse \<Rightarrow> redis_err + rparse" where
  "redis_options E R [] p = Inr p"
| "redis_options E R (v # vs) p =
     (case redis_option E R v p of Inl e \<Rightarrow> Inl e | Inr p \<Rightarrow> redis_options E R vs p)"

definition redis_install :: "rcfg \<Rightarrow> rparse \<Rightarrow> redis_conf \<Rightarrow> redis_err + redis_conf" where
  "redis_install R p rcf =
     (if rp_host p = [] then Inl RE_REQUIRES_HOST
      else if rp_user p \<noteq> [] \<and> rp_password p = [] then Inl RE_USER_PASSWORD
      else if \<not> rc_alloc R RA_SNI then Inl RE_ALLOC
      else let resolved = rc_resolve R (rp_host p) (rp_port p) in
        if resolved \<noteq> None \<and> \<not> rc_alloc R RA_HOST then Inl RE_ALLOC
        else if \<not> rc_alloc R RA_PREFIX then Inl RE_ALLOC
        else if rp_user p \<noteq> [] \<and> \<not> rc_alloc R RA_USER then Inl RE_ALLOC
        else if rp_password p \<noteq> [] \<and> \<not> rc_alloc R RA_PASSWORD then Inl RE_ALLOC
        else Inr (rcf \<lparr> rd_port := rp_port p, rd_sni := rp_host p,
               rd_host := (case resolved of None \<Rightarrow> rp_host p | Some text \<Rightarrow> text),
               rd_prefix := rp_prefix p,
               rd_user := (if rp_user p \<noteq> [] then rp_user p else rd_user rcf),
               rd_password := (if rp_password p \<noteq> [] then rp_password p else rd_password rcf),
               rd_db := rp_db p, rd_tls := rp_tls p, rd_timeout := unat (rp_timeout p), rd_configured := True \<rparr>))"

definition ea_redis_directive :: "'s ngx \<Rightarrow> rcfg \<Rightarrow> redis_conf \<Rightarrow> bytes list \<Rightarrow> redis_err + redis_conf" where
  "ea_redis_directive E R rcf args =
     (if rd_configured rcf then Inl RE_IS_DUPLICATE
      else case redis_options E R args
             \<lparr> rp_port = rd_port rcf, rp_host = [], rp_prefix = ascii ''ea_'', rp_user = [], rp_password = [],
               rp_db = 0, rp_tls = False, rp_timeout = 100, rp_seen = {} \<rparr> of
        Inl e \<Rightarrow> Inl e
      | Inr p \<Rightarrow> redis_install R p rcf)"

section \<open>The end of the configuration\<close>

text \<open>\<open>vars_ok\<close>, \<open>handler_ok\<close>: \<^verbatim>\<open>ngx_http_add_variable\<close> and \<^verbatim>\<open>ngx_array_push\<close> succeed.\<close>

definition ea_init :: "main_conf \<Rightarrow> bool \<Rightarrow> bool \<Rightarrow> ngx_rc" where
  "ea_init mcf vars_ok handler_ok =
     (if (\<exists>z \<in> set (mc_zones mcf). z_redis z) \<and> \<not> rd_configured (mc_redis mcf) then NGX_ERROR
      else if \<not> vars_ok then NGX_ERROR
      else if \<not> handler_ok then NGX_ERROR
      else NGX_OK)"

text \<open>A configuration file is a sequence of the two directives.\<close>

datatype directive = D_ZONE cfg "bytes list" | D_REDIS rcfg "bytes list"

definition apply_directive :: "'s ngx \<Rightarrow> directive \<Rightarrow> main_conf \<Rightarrow> main_conf option option" where
  "apply_directive E d mcf =
     (case d of
        D_ZONE C args \<Rightarrow> do {
          r \<leftarrow> ea_zone_directive E C (mc_zones mcf) args;
          Some (case r of Inl e \<Rightarrow> None | Inr zones \<Rightarrow> Some (mcf \<lparr> mc_zones := zones \<rparr>))
        }
      | D_REDIS R args \<Rightarrow>
          Some (case ea_redis_directive E R (mc_redis mcf) args of
                  Inl e \<Rightarrow> None | Inr rcf \<Rightarrow> Some (mcf \<lparr> mc_redis := rcf \<rparr>)))"

text \<open>The first error ends the configuration (\<open>Some None\<close>).\<close>

fun configure :: "'s ngx \<Rightarrow> directive list \<Rightarrow> main_conf \<Rightarrow> main_conf option option" where
  "configure E [] mcf = Some (Some mcf)"
| "configure E (d # ds) mcf = do {
     r \<leftarrow> apply_directive E d mcf;
     case r of None \<Rightarrow> Some None | Some mcf \<Rightarrow> configure E ds mcf
   }"

section \<open>What an accepted Redis configuration is\<close>

definition redis_ok :: "redis_conf \<Rightarrow> bool" where
  "redis_ok rcf \<longleftrightarrow> rd_sni rcf \<noteq> [] \<and> rd_prefix rcf \<noteq> [] \<and> 123 \<notin> set (rd_prefix rcf) \<and> 125 \<notin> set (rd_prefix rcf)
     \<and> 1 \<le> rd_port rcf \<and> rd_port rcf \<le> 65535 \<and> 0 \<le> rd_db rcf \<and> rd_db rcf \<le> 65535
     \<and> 0 < rd_timeout rcf \<and> (rd_user rcf \<noteq> [] \<longrightarrow> rd_password rcf \<noteq> [])"

definition rp_ok :: "rparse \<Rightarrow> bool" where
  "rp_ok p \<longleftrightarrow> rp_prefix p \<noteq> [] \<and> 123 \<notin> set (rp_prefix p) \<and> 125 \<notin> set (rp_prefix p)
     \<and> 1 \<le> rp_port p \<and> rp_port p \<le> 65535 \<and> 0 \<le> rp_db p \<and> rp_db p \<le> 65535 \<and> rp_timeout p \<noteq> 0"

lemma ronce_Inr:
  "ronce q v p k = Inr p' \<longleftrightarrow> q \<notin> rp_seen p \<and> k (p \<lparr> rp_seen := insert q (rp_seen p) \<rparr>) = Inr p'"
  by (simp add: ronce_def)

lemma redis_option_ok:
  assumes "strlchr_doc E" "rp_ok p" "redis_option E R v p = Inr p'"
  shows "rp_ok p'"
proof -
  have ok: "rp_ok (p \<lparr> rp_seen := S \<rparr>)" for S using assms(2) by (simp add: rp_ok_def)
  have host: "ropt_host v q = Inr p' \<Longrightarrow> rp_ok q \<Longrightarrow> rp_ok p'" for q
    by (auto simp: ropt_host_def rinvalid_def rp_ok_def Let_def split: if_splits)
  have port: "ropt_port E v q = Inr p' \<Longrightarrow> rp_ok q \<Longrightarrow> rp_ok p'" for q
    by (auto simp: ropt_port_def rinvalid_def rp_ok_def Let_def split: if_splits)
  have prefix: "ropt_prefix E v q = Inr p' \<Longrightarrow> rp_ok q \<Longrightarrow> rp_ok p'" for q
    using strlchr_None[OF assms(1)] by (auto simp: ropt_prefix_def rinvalid_def rp_ok_def Let_def split: if_splits)
  have timeout: "ropt_timeout R v q = Inr p' \<Longrightarrow> rp_ok q \<Longrightarrow> rp_ok p'" for q
    by (auto simp: ropt_timeout_def rinvalid_def rp_ok_def Let_def split: if_splits)
  have db: "ropt_db E v q = Inr p' \<Longrightarrow> rp_ok q \<Longrightarrow> rp_ok p'" for q
    by (auto simp: ropt_db_def rinvalid_def rp_ok_def Let_def split: if_splits)
  have fields: "rp_ok (q \<lparr> rp_user := u \<rparr>) = rp_ok q" "rp_ok (q \<lparr> rp_password := u \<rparr>) = rp_ok q" for q u
    by (simp_all add: rp_ok_def)
  show ?thesis using assms(3) ok host[OF _ ok] port[OF _ ok] prefix[OF _ ok] timeout[OF _ ok] db[OF _ ok]
    by (auto simp: redis_option_def ronce_Inr rinvalid_def fields split: if_splits)
qed

lemma redis_options_ok:
  "strlchr_doc E \<Longrightarrow> rp_ok p \<Longrightarrow> redis_options E R vs p = Inr p' \<Longrightarrow> rp_ok p'"
  by (induction vs arbitrary: p) (auto dest: redis_option_ok split: sum.splits)

lemma redis_directive_ok:
  assumes "strlchr_doc E" "1 \<le> rd_port rcf" "rd_port rcf \<le> 65535" "rd_user rcf = []" "rd_password rcf = []"
    and "ea_redis_directive E R rcf args = Inr rcf'"
  shows "redis_ok rcf' \<and> rd_configured rcf' \<and> \<not> rd_configured rcf"
proof -
  define p0 where "p0 = \<lparr> rp_port = rd_port rcf, rp_host = [], rp_prefix = ascii ''ea_'', rp_user = [], rp_password = [],
               rp_db = 0, rp_tls = False, rp_timeout = 100, rp_seen = {} \<rparr>"
  obtain p where p: "redis_options E R args p0 = Inr p" "redis_install R p rcf = Inr rcf'" "\<not> rd_configured rcf"
    using assms(6) by (auto simp: ea_redis_directive_def p0_def split: sum.splits if_splits)
  have "rp_ok p0" using assms(2,3) by (simp add: rp_ok_def p0_def ascii_def)
  from redis_options_ok[OF assms(1) this p(1)] have "rp_ok p" .
  moreover have "rp_timeout p \<noteq> 0 \<Longrightarrow> 0 < unat (rp_timeout p)" by (simp add: unat_gt_0)
  ultimately show ?thesis using p(2,3) assms(4,5)
    by (auto simp: redis_install_def Let_def redis_ok_def rp_ok_def split: if_splits)
qed

lemma redis_option_logs:
  "redis_option E R v p = Inl e \<Longrightarrow> (\<forall>t. e = RE_INVALID t \<or> e = RE_DUPLICATE t \<longrightarrow> redacted t)"
  unfolding redis_option_def ronce_def ropt_host_def ropt_port_def ropt_prefix_def ropt_timeout_def ropt_db_def
    rinvalid_def Let_def
  by (auto simp: log_safe_redacted split: if_splits prod.splits)

lemma redis_options_logs:
  "redis_options E R vs p = Inl e \<Longrightarrow> (\<forall>t. e = RE_INVALID t \<or> e = RE_DUPLICATE t \<longrightarrow> redacted t)"
proof (induction vs arbitrary: p)
  case (Cons v vs)
  then show ?case using redis_option_logs[of E R v p e] by (auto split: sum.splits)
qed simp

end
