(* ===== verification/EA_Settings.thy ===== *)
theory EA_Settings
  imports EA_RedisConf
begin

text \<open>
  The properties of the configuration: what it guarantees the rest of the module, how locations
  inherit, and that a secret is never written to the log.
\<close>

section \<open>From the directives to the engine's assumptions\<close>

definition mc_ok :: "main_conf \<Rightarrow> bool" where
  "mc_ok mcf \<longleftrightarrow> zones_ok (mc_zones mcf)
     \<and> (if rd_configured (mc_redis mcf) then redis_ok (mc_redis mcf)
        else rd_port (mc_redis mcf) = 6379 \<and> rd_user (mc_redis mcf) = [] \<and> rd_password (mc_redis mcf) = [])"

lemma zone_directive_ok:
  assumes "strlchr_doc E" "cfg_doc C" "zones_ok zones"
  shows "\<exists>r. ea_zone_directive E C zones args = Some r
     \<and> (\<forall>zones'. r = Inr zones' \<longrightarrow> (\<exists>z. zones' = zones @ [z] \<and> zones_ok zones'))"
  using zone_finish_ok[OF assms(1,3)] zone_options_ok[OF assms(2) zparse0_ok, of E args]
  by (auto simp: ea_zone_directive_def split: sum.splits)

lemma apply_directive_ok:
  assumes "strlchr_doc E" "\<forall>C args. d = D_ZONE C args \<longrightarrow> cfg_doc C" "mc_ok mcf"
  shows "\<exists>r. apply_directive E d mcf = Some r \<and> (\<forall>mcf'. r = Some mcf' \<longrightarrow> mc_ok mcf')"
proof (cases d)
  case (D_ZONE C args)
  then obtain r where "ea_zone_directive E C (mc_zones mcf) args = Some r"
    "\<forall>zones'. r = Inr zones' \<longrightarrow> zones_ok zones'"
    using zone_directive_ok[OF assms(1), of C "mc_zones mcf" args] assms(2,3) by (auto simp: mc_ok_def)
  then show ?thesis using D_ZONE assms(3) by (cases r) (auto simp: apply_directive_def mc_ok_def)
next
  case (D_REDIS R args)
  show ?thesis
  proof (cases "ea_redis_directive E R (mc_redis mcf) args")
    case (Inr rcf)
    have "\<not> rd_configured (mc_redis mcf)" using Inr by (auto simp: ea_redis_directive_def)
    then have "redis_ok rcf \<and> rd_configured rcf"
      using redis_directive_ok[OF assms(1) _ _ _ _ Inr] assms(3) by (simp add: mc_ok_def)
    then show ?thesis using Inr D_REDIS assms(3) by (simp add: apply_directive_def mc_ok_def)
  qed (simp add: D_REDIS apply_directive_def)
qed

lemma configure_ok:
  "strlchr_doc E \<Longrightarrow> \<forall>C args. D_ZONE C args \<in> set ds \<longrightarrow> cfg_doc C \<Longrightarrow> mc_ok mcf \<Longrightarrow>
   \<exists>r. configure E ds mcf = Some r \<and> (\<forall>mcf'. r = Some mcf' \<longrightarrow> mc_ok mcf')"
proof (induction ds arbitrary: mcf)
  case (Cons d ds)
  then obtain r where r: "apply_directive E d mcf = Some r" "\<forall>mcf'. r = Some mcf' \<longrightarrow> mc_ok mcf'"
    using apply_directive_ok[of E d mcf] by auto
  then show ?case using Cons by (cases r) auto
qed simp

lemma main_conf0_ok: "mc_ok ea_create_main_conf"
  by (simp add: mc_ok_def ea_create_main_conf_def zones_ok_def)

text \<open>C33. An accepted configuration is what the rest of the module relies on.  Processing any
  sequence of \<^verbatim>\<open>error_abuse_zone\<close> and \<^verbatim>\<open>error_abuse_redis\<close> directives is defined.  If all
  are accepted, every zone has a threshold of at most 1024, windows and ban times of at most ten
  years, an \<^verbatim>\<open>inactive\<close> time that neither cuts the window nor the ban short, a complete status
  bitmap, a name without braces and a secret of at least 16 bytes; no two zones share a name or a
  snapshot file; and if the final check accepts too, each zone that uses Redis has a Redis
  configuration with a prefix without braces.\<close>

theorem configuration_sound:
  assumes "strlchr_doc E" "\<forall>C args. D_ZONE C args \<in> set ds \<longrightarrow> cfg_doc C"
  shows "\<exists>r. configure E ds ea_create_main_conf = Some r \<and> (\<forall>mcf. r = Some mcf \<longrightarrow>
      zones_ok (mc_zones mcf)
    \<and> (ea_init mcf vars_ok handler_ok = NGX_OK \<longrightarrow> (\<forall>z \<in> set (mc_zones mcf). z_redis z \<longrightarrow> redis_ok (mc_redis mcf))))"
proof -
  obtain r where r: "configure E ds ea_create_main_conf = Some r" "\<forall>mcf. r = Some mcf \<longrightarrow> mc_ok mcf"
    using configure_ok[OF assms main_conf0_ok] by blast
  have "redis_ok (mc_redis mcf)" if "mc_ok mcf" "ea_init mcf vars_ok handler_ok = NGX_OK" "z \<in> set (mc_zones mcf)" "z_redis z"
    for mcf z
    using that by (auto simp: ea_init_def mc_ok_def split: if_splits)
  then show ?thesis using r by (auto simp: mc_ok_def)
qed

text \<open>A configuration of one zone, evaluated.\<close>

definition ex_cfg :: cfg where
  "ex_cfg = \<lparr> cf_parse_size = (\<lambda>s. 1048576), cf_parse_time = (\<lambda>s b. ref_atoi s), cf_strcasecmp = ref_memn2cmp,
     cf_hextoi = ref_atoi, cf_full_name = Some, cf_compile = (\<lambda>_. True), cf_shm_add = (\<lambda>_ _. SHM_ADD_NEW),
     cf_pagesize = 4096, cf_alloc_zone = True, cf_alloc_secret = True, cf_alloc_persist = True, cf_alloc_slot = True \<rparr>"

definition ex_args :: "bytes list" where
  "ex_args = [ascii ''zone=a:1m'', ascii ''statuses=404'', ascii ''threshold=2'', ascii ''interval=60'']"

definition ex_zp :: zparse where
  "ex_zp = zparse0 \<lparr> zp_zone := zone0 \<lparr> z_name := [97], z_threshold := 2, z_interval := 60 \<rparr>, zp_size := 1048576,
     zp_statuses := ascii ''404'', zp_seen := {SEEN_INTERVAL, SEEN_THRESHOLD, SEEN_STATUSES, SEEN_ZONE} \<rparr>"

lemmas ex_opt_defs = zone_option_def once_def opt_zone_def opt_threshold_def opt_seconds_def ea_parse_seconds_def
  cstr_chr_def starts_def ascii_def Let_def ref_atoi_def is_digit_def dec_value_def MAX_THRESHOLD_def MAX_SECONDS_def

lemma ex_options: "zone_options ref_ngx ex_cfg ex_args zparse0 = Inr ex_zp"
  by (simp add: ex_args_def ex_zp_def ex_cfg_def zparse0_def zone0_def ex_opt_defs)

lemma ex_finish: "\<exists>z. zone_finish ref_ngx ex_cfg [] ex_zp = Some (Inr [z]) \<and> z_threshold z = 2 \<and> z_name z = [97]"
proof -
  have sp: "spec_statuses ref_ngx (split_on 44 (ascii ''404'')) = (STATUSES_OK, [(404, 404)])"
    by (simp add: ascii_def split_on.simps element_range_def ref_atoi_def is_digit_def dec_value_def
        MAX_STATUS_def Let_def)
  have ne: "ascii ''404'' \<noteq> []" by (simp add: ascii_def)
  then obtain bm where "ea_parse_statuses ref_ngx (ascii ''404'') (replicate STATUS_BYTES 0) = Some (STATUSES_OK, bm)"
    using parse_statuses_loop_spec[OF ref_strlchr_doc, of "replicate STATUS_BYTES 0" 0 "ascii ''404''"] sp
    by (auto simp: ea_parse_statuses_def)
  then show ?thesis using ne
    by (simp add: zone_finish_def zone_defaults_def zone_inactive_def ea_parse_statuses_conf_def zone_persist_def
        zone_register_def ex_zp_def zparse0_def zone0_def ex_cfg_def Let_def)
qed

lemma ex_configured: "\<exists>mcf z. configure ref_ngx [D_ZONE ex_cfg ex_args] ea_create_main_conf = Some (Some mcf)
    \<and> mc_zones mcf = [z] \<and> z_threshold z = 2 \<and> z_name z = [97]"
proof -
  have "cf_alloc_zone ex_cfg" by (simp add: ex_cfg_def)
  then show ?thesis using ex_finish
    by (auto simp: apply_directive_def ea_create_main_conf_def ea_zone_directive_def ex_options simp del: zone_options.simps)
qed

theorem configuration_sound_witness:
  "\<exists>mcf z. configure ref_ngx [D_ZONE ex_cfg ex_args] ea_create_main_conf = Some (Some mcf)
     \<and> mc_zones mcf = [z] \<and> z_threshold z = 2 \<and> zones_ok [z]"
proof -
  have "\<forall>C args. D_ZONE C args \<in> set [D_ZONE ex_cfg ex_args] \<longrightarrow> cfg_doc C"
    by (simp add: cfg_doc_def ex_cfg_def)
  from configuration_sound[OF ref_strlchr_doc this] ex_configured show ?thesis
    by (metis option.inject)
qed

section \<open>Inheritance\<close>

text \<open>The configuration of a nested location: the levels from the outside in, each merged with the
  one around it.\<close>

definition effective :: "loc_conf list \<Rightarrow> loc_conf" where
  "effective levels = foldl ea_merge_loc_conf ea_create_loc_conf levels"

text \<open>Every location is well configured.  Take any nesting of levels, each without an
  \<^verbatim>\<open>error_abuse\<close> directive or with one that was accepted.  The directive is defined on all
  arguments; and the merged configuration of the innermost level has every flag set, names an
  existing zone if it is enabled, and rejects with a status between 400 and 599.\<close>

theorem location_config_ok:
  assumes "\<forall>l \<in> set levels. l = ea_create_loc_conf
      \<or> (\<exists>args. ea_enable E zones args ea_create_loc_conf = Some (Inr l))" "levels \<noteq> []"
  shows "(\<forall>args. ea_enable E zones args ea_create_loc_conf \<noteq> None)
     \<and> merged (effective levels)
     \<and> (lc_enabled (effective levels) = Some True \<longrightarrow> (\<exists>i < length zones. lc_zone (effective levels) = Some i))
     \<and> (\<exists>s. lc_reject_status (effective levels) = Some s \<and> 400 \<le> s \<and> s \<le> 599)"
proof -
  have zero: "loc_ok zones ea_create_loc_conf" by (simp add: loc_ok_def ea_create_loc_conf_def)
  have lev: "loc_ok zones l" if l: "l \<in> set levels" for l
  proof (cases "l = ea_create_loc_conf")
    case False
    then obtain args where "ea_enable E zones args ea_create_loc_conf = Some (Inr l)" using assms(1) l by blast
    then show ?thesis using enable_ok[OF zero, of E args] by auto
  qed (use zero in simp)
  have "loc_ok zones (foldl ea_merge_loc_conf c ls)" if "loc_ok zones c" "\<forall>l \<in> set ls. loc_ok zones l" for c ls
    using that by (induction ls arbitrary: c) (auto intro: merge_ok)
  then have ok: "loc_ok zones (effective levels)" using zero lev by (simp add: effective_def)
  have m: "merged (effective levels)"
    using assms(2) by (cases levels rule: rev_cases) (auto simp: effective_def merge_merged)
  then have "\<exists>s. lc_reject_status (effective levels) = Some s" by (auto simp: merged_def)
  then show ?thesis using enable_ok[OF zero, of E] ok m by (fastforce simp: loc_ok_def)
qed

lemma ex_enable: "\<exists>l. ea_enable ref_ngx [ex_z] [ascii ''zone=a'', ascii ''status=403''] ea_create_loc_conf = Some (Inr l)
    \<and> lc_zone l = Some 0 \<and> lc_reject_status l = Some 403" if "z_name ex_z = [97]"
  using that by (simp add: ea_enable_def enable_rest_def enable_option_def starts_def ascii_def Let_def ea_create_loc_conf_def
      ref_atoi_def is_digit_def dec_value_def)

text \<open>A server level with a zone, and a location in it that says nothing.\<close>

theorem location_config_ok_witness:
  "\<exists>l. ea_enable ref_ngx [zone0 \<lparr> z_name := [97] \<rparr>] [ascii ''zone=a'', ascii ''status=403''] ea_create_loc_conf = Some (Inr l)
     \<and> lc_enabled (effective [l, ea_create_loc_conf]) = Some True
     \<and> (\<exists>s. lc_reject_status (effective [l, ea_create_loc_conf]) = Some s \<and> 400 \<le> s \<and> s \<le> 599)"
proof -
  obtain l where l: "ea_enable ref_ngx [zone0 \<lparr> z_name := [97] \<rparr>] [ascii ''zone=a'', ascii ''status=403''] ea_create_loc_conf = Some (Inr l)"
    "lc_zone l = Some 0" using ex_enable[of "zone0 \<lparr> z_name := [97] \<rparr>"] by auto
  have "lc_enabled l = Some True"
    using l by (auto simp: ea_enable_def enable_rest_def enable_option_def starts_def ascii_def Let_def ea_create_loc_conf_def
      ref_atoi_def is_digit_def dec_value_def)
  then have "lc_enabled (effective [l, ea_create_loc_conf]) = Some True"
    by (simp add: effective_def ea_merge_loc_conf_def merge_value_def Let_def ea_create_loc_conf_def split: option.splits)
  then show ?thesis
    using l location_config_ok[of "[l, ea_create_loc_conf]" ref_ngx "[zone0 \<lparr> z_name := [97] \<rparr>]"] by auto
qed

section \<open>Secrets stay out of the log\<close>

text \<open>A secret is never logged.  Whatever the arguments of \<^verbatim>\<open>error_abuse_zone\<close> or
  \<^verbatim>\<open>error_abuse_redis\<close> are, a message about an invalid or duplicate parameter that begins with
  \<^verbatim>\<open>persist_secret=\<close> or \<^verbatim>\<open>password=\<close> contains nothing of the value.\<close>

theorem secrets_not_logged:
  "(\<forall>e t. ea_zone_directive E C zones args = Some (Inl e) \<and> (e = CE_INVALID t \<or> e = CE_DUPLICATE t) \<longrightarrow> redacted t)
   \<and> (\<forall>e t. ea_redis_directive E R rcf args = Inl e \<and> (e = RE_INVALID t \<or> e = RE_DUPLICATE t) \<longrightarrow> redacted t)"
proof -
  have "logs_safely e" if "ea_zone_directive E C zones args = Some (Inl e)" for e
    using that zone_options_logs zone_finish_logs by (auto simp: ea_zone_directive_def split: if_splits sum.splits)
  moreover have "redacted t" if "ea_redis_directive E R rcf args = Inl e" "e = RE_INVALID t \<or> e = RE_DUPLICATE t" for e t
  proof -
    have inst: "redis_install R p rcf \<noteq> Inl e" for p
      using that(2) by (auto simp: redis_install_def Let_def)
    then show ?thesis using that redis_options_logs[of E R args _ e]
      by (auto simp: ea_redis_directive_def split: if_splits sum.splits)
  qed
  ultimately show ?thesis by (fastforce simp: logs_safely_def)
qed

text \<open>A password given twice.\<close>

theorem secrets_not_logged_witness:
  "\<exists>t. ea_redis_directive ref_ngx \<lparr> rc_parse_time = (\<lambda>_ _. 1), rc_resolve = (\<lambda>_ _. None), rc_alloc = (\<lambda>_. True) \<rparr>
       (mc_redis ea_create_main_conf) [ascii ''password=a'', ascii ''password=b''] = Inl (RE_DUPLICATE t) \<and> redacted t"
proof -
  have "\<exists>t. ea_redis_directive ref_ngx \<lparr> rc_parse_time = (\<lambda>_ _. 1), rc_resolve = (\<lambda>_ _. None), rc_alloc = (\<lambda>_. True) \<rparr>
       (mc_redis ea_create_main_conf) [ascii ''password=a'', ascii ''password=b''] = Inl (RE_DUPLICATE t)"
    by (simp add: ea_redis_directive_def redis_option_def ronce_def starts_def ascii_def ea_create_main_conf_def)
  then show ?thesis using secrets_not_logged by blast
qed

end
