(* ===== verification/EA_Redis.thy ===== *)
theory EA_Redis
  imports EA_RedisConf EA_Decide
begin

text \<open>
  The Redis connection of a worker process: the check of a client's block key before a request, the
  recording of an error response, the circuit breaker, and the (re)connection with backoff.
  hiredis is outside: a call of it is entered in the worker's list of calls, in order, and what it
  answers is an argument.
\<close>

section \<open>Constants and data\<close>

definition RECONNECT :: nat where "RECONNECT = 1000"
definition RECONNECT_MAX :: nat where "RECONNECT_MAX = 30000"
definition BREAKER_THRESHOLD :: nat where "BREAKER_THRESHOLD = 5"
definition BREAKER_DURATION :: time where "BREAKER_DURATION = 30"

lemmas redis_consts = RECONNECT_def RECONNECT_MAX_def BREAKER_THRESHOLD_def BREAKER_DURATION_def

text \<open>What the module has hiredis do.\<close>

datatype hcall = H_COMMAND "bytes list" | H_DISCONNECT nat | H_FREE nat

datatype redis_reply =
    R_STRING bytes | R_ARRAY "redis_reply list" | R_INTEGER int | R_NIL | R_STATUS bytes | R_ERROR bytes

text \<open>\<open>wk_timer\<close> is the delay of the reconnect timer while it is set.\<close>

record worker =
  wk_context :: "nat option"
  wk_ssl :: bool
  wk_timer :: "nat option"
  wk_sequence :: "64 word"
  wk_nonce :: "64 word"
  wk_failures :: nat
  wk_breaker_until :: time
  wk_backoff :: nat
  wk_ready :: bool
  wk_exiting :: bool
  wk_calls :: "hcall list"

abbreviation call_redis :: "hcall \<Rightarrow> worker \<Rightarrow> worker" where
  "call_redis c w \<equiv> w \<lparr> wk_calls := wk_calls w @ [c] \<rparr>"

text \<open>The context of a request.  Its zone is the index of the zone's slot.\<close>

datatype req_state = BYPASSED | PASSED | COUNTED | BLOCKED | DRY_RUN

record req_ctx =
  rx_zone :: "nat option"
  rx_key :: bytes
  rx_log_key :: bytes
  rx_redis_events :: bytes
  rx_redis_block :: bytes
  rx_count :: nat
  rx_blocked_until :: time
  rx_state :: req_state
  rx_response_seen :: bool
  rx_own_rejection :: bool
  rx_dry_run :: bool
  rx_redis_pending :: bool
  rx_redis_checked :: bool
  rx_redis_blocked :: bool
  rx_from_anchor :: bool

section \<open>Keys\<close>

text \<open>\<open>alloc n\<close> is what \<^verbatim>\<open>ngx_pnalloc\<close> gives for \<open>n\<close> bytes.\<close>

definition ea_redis_keys ::
  "redis_conf \<Rightarrow> zone \<Rightarrow> (nat \<Rightarrow> bytes option) \<Rightarrow> req_ctx \<Rightarrow> (ngx_rc \<times> req_ctx \<times> bytes \<times> bytes) option" where
  "ea_redis_keys rcf z alloc ctx =
     (if rx_redis_block ctx \<noteq> [] then Some (NGX_OK, ctx, rx_redis_events ctx, rx_redis_block ctx)
      else
        let prefix = rd_prefix rcf;
            base_len = ea_redis_key_len (length prefix) (length (z_name z)) (length (rx_key ctx))
        in case (alloc (base_len + 7), alloc (base_len + 6)) of
             (Some events, Some block) \<Rightarrow> do {
               (events, p) \<leftarrow> ea_redis_key_write events 0 prefix (z_name z) (rx_key ctx);
               (events, p) \<leftarrow> cpymem events p (ascii '':events'');
               base \<leftarrow> slice events 0 base_len;
               (block, q) \<leftarrow> cpymem block 0 base;
               (block, q) \<leftarrow> cpymem block base_len (ascii '':block'');
               Some (NGX_OK, ctx \<lparr> rx_redis_events := events, rx_redis_block := block \<rparr>, events, block)
             }
           | _ \<Rightarrow> Some (NGX_ERROR, ctx, [], []))"

section \<open>The circuit breaker\<close>

definition ea_redis_available :: "worker \<Rightarrow> time \<Rightarrow> bool" where
  "ea_redis_available w now \<longleftrightarrow> wk_breaker_until w \<le> now \<and> wk_ready w \<and> wk_context w \<noteq> None"

definition ea_redis_record_failure :: "worker \<Rightarrow> time \<Rightarrow> worker option" where
  "ea_redis_record_failure w now =
     (let n = (wk_failures w + 1) mod 2 ^ 64 in
      if n \<ge> BREAKER_THRESHOLD then do {
        bu \<leftarrow> ea_time_add_saturate now BREAKER_DURATION;
        Some (w \<lparr> wk_breaker_until := bu, wk_failures := 0 \<rparr>)
      } else Some (w \<lparr> wk_failures := n \<rparr>))"

section \<open>The check before a request\<close>

text \<open>\<open>queue_ok\<close>: hiredis accepts the command.  The last component says that the request is
  parked, with a reference taken.\<close>

definition ea_redis_check ::
  "redis_conf \<Rightarrow> zone \<Rightarrow> time \<Rightarrow> (nat \<Rightarrow> bytes option) \<Rightarrow> bool \<Rightarrow> worker \<Rightarrow> req_ctx
     \<Rightarrow> (ngx_rc \<times> worker \<times> req_ctx \<times> bool) option" where
  "ea_redis_check rcf z now alloc queue_ok w ctx =
     (if rx_redis_pending ctx then Some (NGX_AGAIN, w, ctx, False)
      else if \<not> ea_redis_available w now then Some (NGX_DECLINED, w, ctx \<lparr> rx_redis_checked := True \<rparr>, False)
      else do {
        (rc, ctx, events, block) \<leftarrow> ea_redis_keys rcf z alloc ctx;
        if rc \<noteq> NGX_OK then Some (NGX_DECLINED, w, ctx \<lparr> rx_redis_checked := True \<rparr>, False)
        else do {
          let ctx = ctx \<lparr> rx_redis_pending := True \<rparr>;
          let w = call_redis (H_COMMAND [ascii ''GET'', block]) w;
          if \<not> queue_ok then do {
            w \<leftarrow> ea_redis_record_failure w now;
            Some (NGX_DECLINED, w, ctx \<lparr> rx_redis_pending := False, rx_redis_checked := True \<rparr>, False)
          } else Some (NGX_AGAIN, w, ctx, True)
        }
      })"

text \<open>The answer to it; a missing reply is \<open>None\<close>.  \<^verbatim>\<open>ngx_http_finalize_request\<close> and the
  resumption of the phases that follow are in the request model.\<close>

definition ea_redis_check_callback ::
  "'s ngx \<Rightarrow> zone \<Rightarrow> time \<Rightarrow> redis_reply option \<Rightarrow> worker \<Rightarrow> req_ctx \<Rightarrow> (worker \<times> req_ctx) option" where
  "ea_redis_check_callback E z now reply w ctx =
     (let ctx = ctx \<lparr> rx_redis_pending := False, rx_redis_checked := True, rx_redis_blocked := False \<rparr> in
      case reply of
        None \<Rightarrow> do { w \<leftarrow> ea_redis_record_failure w now; Some (w, ctx) }
      | Some (R_STRING str) \<Rightarrow> do {
          max_deadline \<leftarrow> ea_time_add_saturate now (z_block z);
          let deadline = ngx_atoi E str;
          let bu = (if deadline > 0 then deadline else max_deadline);
          let bu = (if bu > max_deadline then max_deadline else bu);
          Some (w \<lparr> wk_failures := 0 \<rparr>,
                ctx \<lparr> rx_redis_blocked := True, rx_blocked_until := bu, rx_count := z_threshold z \<rparr>)
        }
      | Some R_NIL \<Rightarrow> Some (w \<lparr> wk_failures := 0 \<rparr>, ctx)
      | Some _ \<Rightarrow> do { w \<leftarrow> ea_redis_record_failure w now; Some (w, ctx) })"

section \<open>Recording a response\<close>

text \<open>\<^verbatim>\<open>time_t * 1000\<close>\<close>

definition t_mul :: "time \<Rightarrow> int \<Rightarrow> time option" where
  "t_mul a b = (if time_rep (a * b) then Some (a * b) else None)"

text \<open>\<open>fmt\<close> is nginx's decimal formatting; \<^verbatim>\<open>ngx_snprintf\<close> stops at the end of its buffer.\<close>

definition redis_number :: "(int \<Rightarrow> bytes) \<Rightarrow> nat \<Rightarrow> int \<Rightarrow> bytes" where
  "redis_number fmt size' v = take size' (fmt v)"

definition INT64_LEN :: nat where "INT64_LEN = 20"

definition record_command ::
  "(int \<Rightarrow> bytes) \<Rightarrow> bytes \<Rightarrow> zone \<Rightarrow> bytes \<Rightarrow> bytes \<Rightarrow> time \<Rightarrow> time \<Rightarrow> time \<Rightarrow> worker \<Rightarrow> hcall" where
  "record_command fmt sha z events block interval block_ms inactive w = H_COMMAND
     [ascii ''EVALSHA'', sha, ascii ''2'', events, block,
      redis_number fmt (INT64_LEN + 1) interval,
      redis_number fmt (INT64_LEN + 1) (int (z_threshold z)),
      redis_number fmt (INT64_LEN + 1) block_ms,
      redis_number fmt (INT64_LEN + 1) inactive,
      take (INT64_LEN * 2 + 2) (fmt (uint (wk_nonce w)) @ ascii '':'' @ fmt (uint (wk_sequence w)))]"

definition ea_redis_record ::
  "(int \<Rightarrow> bytes) \<Rightarrow> bytes \<Rightarrow> redis_conf \<Rightarrow> zone \<Rightarrow> time \<Rightarrow> (nat \<Rightarrow> bytes option) \<Rightarrow> worker \<Rightarrow> req_ctx
     \<Rightarrow> (worker \<times> req_ctx) option" where
  "ea_redis_record fmt sha rcf z now alloc w ctx =
     (if \<not> ea_redis_available w now then Some (w, ctx)
      else do {
        (rc, ctx, events, block) \<leftarrow> ea_redis_keys rcf z alloc ctx;
        if rc \<noteq> NGX_OK then Some (w, ctx)
        else do {
          interval \<leftarrow> t_mul (z_interval z) 1000;
          block_ms \<leftarrow> t_mul (z_block z) 1000;
          inactive \<leftarrow> t_mul (z_inactive z) 1000;
          let w = w \<lparr> wk_sequence := wk_sequence w + 1 \<rparr>;
          Some (call_redis (record_command fmt sha z events block interval block_ms inactive w) w, ctx)
        }
      })"

definition load_script :: "bytes \<Rightarrow> hcall" where
  "load_script script = H_COMMAND [ascii ''SCRIPT'', ascii ''LOAD'', script]"

definition ea_redis_record_callback ::
  "bytes \<Rightarrow> time \<Rightarrow> redis_reply option \<Rightarrow> worker \<Rightarrow> worker option" where
  "ea_redis_record_callback script now reply w =
     (case reply of
        None \<Rightarrow> ea_redis_record_failure w now
      | Some (R_ARRAY (R_INTEGER _ # R_INTEGER _ # _)) \<Rightarrow> Some (w \<lparr> wk_failures := 0 \<rparr>)
      | Some (R_ERROR str) \<Rightarrow>
          if starts str (ascii ''NOSCRIPT'') then Some (call_redis (load_script script) w)
          else ea_redis_record_failure w now
      | Some _ \<Rightarrow> ea_redis_record_failure w now)"

section \<open>The connection\<close>

text \<open>\<open>rnd\<close> is \<^verbatim>\<open>ngx_random()\<close>.\<close>

definition ea_redis_arm_reconnect :: "nat \<Rightarrow> worker \<Rightarrow> worker" where
  "ea_redis_arm_reconnect rnd w =
     (if wk_exiting w \<or> wk_timer w \<noteq> None then w
      else
        let base = (if wk_backoff w \<noteq> 0 then wk_backoff w else RECONNECT);
            jitter = rnd mod (base div 2 + 1);
            delay = (base - base div 4 + jitter) mod 2 ^ 64
        in w \<lparr> wk_backoff := (if base * 2 mod 2 ^ 64 > RECONNECT_MAX then RECONNECT_MAX else base * 2 mod 2 ^ 64),
               wk_timer := Some delay \<rparr>)"

definition ea_redis_handshake_callback :: "nat \<Rightarrow> redis_reply option \<Rightarrow> worker \<Rightarrow> worker" where
  "ea_redis_handshake_callback ac reply w =
     (case reply of
        Some (R_ERROR _) \<Rightarrow> call_redis (H_DISCONNECT ac) (w \<lparr> wk_ready := False \<rparr>)
      | _ \<Rightarrow> w)"

definition send_if :: "bool \<Rightarrow> hcall \<Rightarrow> worker \<Rightarrow> worker" where
  "send_if b c w = (if b then call_redis c w else w)"

lemma send_if_sel [simp]:
  "wk_context (send_if b c w) = wk_context w" "wk_timer (send_if b c w) = wk_timer w"
  "wk_backoff (send_if b c w) = wk_backoff w" "wk_ready (send_if b c w) = wk_ready w"
  "wk_exiting (send_if b c w) = wk_exiting w" "wk_failures (send_if b c w) = wk_failures w"
  "wk_breaker_until (send_if b c w) = wk_breaker_until w" "wk_sequence (send_if b c w) = wk_sequence w"
  "wk_nonce (send_if b c w) = wk_nonce w"
  by (simp_all add: send_if_def)

text \<open>\<open>q_auth\<close>, \<open>q_select\<close>, \<open>q_script\<close>: hiredis accepts the command.\<close>

definition ea_redis_connect_callback ::
  "redis_conf \<Rightarrow> bytes \<Rightarrow> (int \<Rightarrow> bytes) \<Rightarrow> bool \<Rightarrow> bool \<Rightarrow> bool \<Rightarrow> bool \<Rightarrow> worker \<Rightarrow> worker" where
  "ea_redis_connect_callback rcf script fmt status_ok q_auth q_select q_script w =
     (if \<not> status_ok then w \<lparr> wk_ready := False \<rparr>
      else
        let w = w \<lparr> wk_ready := True, wk_backoff := 0 \<rparr>;
            auth = (rd_password rcf \<noteq> []);
            select = ((\<not> auth \<or> q_auth) \<and> 0 < rd_db rcf);
            load = ((\<not> auth \<or> q_auth) \<and> (\<not> select \<or> q_select));
            w = send_if auth (H_COMMAND (if rd_user rcf \<noteq> [] then [ascii ''AUTH'', rd_user rcf, rd_password rcf]
                                         else [ascii ''AUTH'', rd_password rcf])) w;
            w = send_if select (H_COMMAND [ascii ''SELECT'', fmt (rd_db rcf)]) w;
            w = send_if load (load_script script) w
        in if load \<and> q_script then w
           else let w = w \<lparr> wk_ready := False \<rparr>
                in case wk_context w of None \<Rightarrow> w | Some ac \<Rightarrow> call_redis (H_DISCONNECT ac) w)"

definition ea_redis_disconnect_callback :: "nat \<Rightarrow> worker \<Rightarrow> worker" where
  "ea_redis_disconnect_callback rnd w =
     ea_redis_arm_reconnect rnd (w \<lparr> wk_context := None, wk_ready := False \<rparr>)"

text \<open>What \<^verbatim>\<open>redisAsyncConnect\<close> gives: nothing, a context with an error, or a context; and
  whether the TLS context, the TLS session and the event adapter can be had.\<close>

datatype conn = CONN_NULL | CONN_ERR nat | CONN nat bool bool bool

definition ea_redis_connect :: "redis_conf \<Rightarrow> conn \<Rightarrow> worker \<Rightarrow> ngx_rc \<times> worker" where
  "ea_redis_connect rcf c w =
     (case c of
        CONN_NULL \<Rightarrow> (NGX_ERROR, w)
      | CONN_ERR ac \<Rightarrow> (NGX_ERROR, call_redis (H_FREE ac) w)
      | CONN ac ssl_ok session_ok attach_ok \<Rightarrow>
          if rd_tls rcf \<and> \<not> wk_ssl w \<and> \<not> ssl_ok then (NGX_ERROR, call_redis (H_FREE ac) w)
          else
            let w = (if rd_tls rcf then w \<lparr> wk_ssl := True \<rparr> else w) in
            if rd_tls rcf \<and> \<not> session_ok then (NGX_ERROR, call_redis (H_FREE ac) w)
            else if \<not> attach_ok then (NGX_ERROR, call_redis (H_FREE ac) w)
            else (NGX_OK, w \<lparr> wk_context := Some ac \<rparr>))"

text \<open>The timer's handler; nginx clears the timer before it calls it.\<close>

definition ea_redis_reconnect :: "redis_conf \<Rightarrow> conn \<Rightarrow> nat \<Rightarrow> worker \<Rightarrow> worker" where
  "ea_redis_reconnect rcf c rnd w =
     (if wk_exiting w then w
      else case ea_redis_connect rcf c w of
             (NGX_OK, w) \<Rightarrow> w
           | (_, w) \<Rightarrow> ea_redis_arm_reconnect rnd w)"

text \<open>The Redis parts of \<^verbatim>\<open>init_process\<close> and \<^verbatim>\<open>exit_process\<close>.\<close>

definition worker0 :: "64 word \<Rightarrow> worker" where
  "worker0 nonce = \<lparr> wk_context = None, wk_ssl = False, wk_timer = None, wk_sequence = 0, wk_nonce = nonce,
     wk_failures = 0, wk_breaker_until = 0, wk_backoff = 0, wk_ready = False, wk_exiting = False, wk_calls = [] \<rparr>"

definition ea_redis_init_process :: "redis_conf \<Rightarrow> 64 word \<Rightarrow> conn \<Rightarrow> nat \<Rightarrow> worker" where
  "ea_redis_init_process rcf nonce c rnd =
     (case ea_redis_connect rcf c (worker0 nonce) of
        (NGX_OK, w) \<Rightarrow> w
      | (_, w) \<Rightarrow> ea_redis_arm_reconnect rnd w)"

definition ea_redis_exit_process :: "worker \<Rightarrow> worker" where
  "ea_redis_exit_process w =
     (let w = w \<lparr> wk_exiting := True, wk_timer := None \<rparr>;
          w = (case wk_context w of None \<Rightarrow> w | Some ac \<Rightarrow> (call_redis (H_FREE ac) w) \<lparr> wk_context := None \<rparr>)
      in w \<lparr> wk_ssl := False \<rparr>)"

end
