(* ===== verification/EA_RedisRun.thy ===== *)
theory EA_RedisRun
  imports EA_Redis EA_Trace
begin

text \<open>
  Facts about the Redis worker: the keys it builds, the breaker, and all interleavings of its
  operations and callbacks as a step relation, which interprets the same locale of timed systems
  as the zones.
\<close>

section \<open>Decimal formatting\<close>

text \<open>nginx prints a number that is not negative with its decimal digits, without leading zeros.\<close>

definition fmt_doc :: "(int \<Rightarrow> bytes) \<Rightarrow> bool" where
  "fmt_doc fmt \<longleftrightarrow> (\<forall>n. 0 \<le> n \<longrightarrow> fmt n \<noteq> [] \<and> list_all is_digit (fmt n) \<and> dec_value (fmt n) = n
     \<and> (\<forall>k. 0 < k \<and> n < 10 ^ k \<longrightarrow> length (fmt n) \<le> k))"

lemma fmt_docD:
  assumes "fmt_doc fmt" "0 \<le> n"
  shows "fmt n \<noteq> []" "list_all is_digit (fmt n)" "dec_value (fmt n) = n" "n < 10 ^ k \<Longrightarrow> 0 < k \<Longrightarrow> length (fmt n) \<le> k"
  using assms by (auto simp: fmt_doc_def)

lemma redis_number_exact:
  assumes "fmt_doc fmt" "0 \<le> n" "n < 2 ^ 63"
  shows "redis_number fmt (INT64_LEN + 1) n = fmt n"
proof -
  have "length (fmt n) \<le> 20" by (rule fmt_docD(4)[OF assms(1,2)]) (use assms(3) in simp_all)
  then show ?thesis by (simp add: redis_number_def INT64_LEN_def)
qed

definition nonce_text :: "(int \<Rightarrow> bytes) \<Rightarrow> 64 word \<Rightarrow> 64 word \<Rightarrow> bytes" where
  "nonce_text fmt nonce s = fmt (uint nonce) @ ascii '':'' @ fmt (uint s)"

lemma nonce_fits:
  assumes "fmt_doc fmt"
  shows "take (INT64_LEN * 2 + 2) (nonce_text fmt nonce s) = nonce_text fmt nonce s"
proof -
  have "length (fmt (uint v)) \<le> 20" for v :: "64 word"
  proof (rule fmt_docD(4)[OF assms])
    show "uint v < 10 ^ 20" using uint_bounded[of v] by (rule order_less_le_trans) simp
  qed simp_all
  from this[of nonce] this[of s] show ?thesis by (simp add: nonce_text_def INT64_LEN_def ascii_def)
qed

lemma nonce_text_inj:
  assumes "fmt_doc fmt" "nonce_text fmt nonce s = nonce_text fmt nonce s'"
  shows "s = s'"
proof -
  have "fmt (uint s) = fmt (uint s')" using assms(2) by (simp add: nonce_text_def)
  moreover have "dec_value (fmt (uint v)) = uint v" for v :: "64 word"
    by (rule fmt_docD(3)[OF assms(1)]) simp
  ultimately have "uint s = uint s'" by metis
  then show ?thesis by (rule word_uint_eqI)
qed

section \<open>The keys\<close>

definition events_key :: "redis_conf \<Rightarrow> zone \<Rightarrow> bytes \<Rightarrow> bytes" where
  "events_key rcf z k = redis_key (rd_prefix rcf) (z_name z) k @ ascii '':events''"

definition block_key :: "redis_conf \<Rightarrow> zone \<Rightarrow> bytes \<Rightarrow> bytes" where
  "block_key rcf z k = redis_key (rd_prefix rcf) (z_name z) k @ ascii '':block''"

text \<open>The cached keys of a context are those of its client.\<close>

definition cache_ok :: "redis_conf \<Rightarrow> zone \<Rightarrow> req_ctx \<Rightarrow> bool" where
  "cache_ok rcf z ctx \<longleftrightarrow> rx_redis_block ctx \<noteq> [] \<longrightarrow>
     rx_redis_events ctx = events_key rcf z (rx_key ctx) \<and> rx_redis_block ctx = block_key rcf z (rx_key ctx)"

definition alloc_doc :: "(nat \<Rightarrow> bytes option) \<Rightarrow> bool" where
  "alloc_doc alloc \<longleftrightarrow> (\<forall>n b. alloc n = Some b \<longrightarrow> length b = n)"

lemma redis_keys_exact:
  assumes "alloc_doc alloc" "cache_ok rcf z ctx"
  shows "\<exists>rc ctx' ev bl. ea_redis_keys rcf z alloc ctx = Some (rc, ctx', ev, bl)
     \<and> (rc = NGX_OK \<and> ev = events_key rcf z (rx_key ctx) \<and> bl = block_key rcf z (rx_key ctx)
          \<and> ctx' = ctx \<lparr> rx_redis_events := ev, rx_redis_block := bl \<rparr> \<and> cache_ok rcf z ctx'
        \<or> rc = NGX_ERROR \<and> ctx' = ctx \<and> (\<exists>n. alloc n = None))"
proof (cases "rx_redis_block ctx \<noteq> []")
  case True
  then show ?thesis using assms(2) by (auto simp: ea_redis_keys_def cache_ok_def)
next
  case False
  define n where "n = ea_redis_key_len (length (rd_prefix rcf)) (length (z_name z)) (length (rx_key ctx))"
  define K where "K = redis_key (rd_prefix rcf) (z_name z) (rx_key ctx)"
  have K: "length K = n" by (simp add: K_def n_def)
  show ?thesis
  proof (cases "alloc (n + 7) = None \<or> alloc (n + 6) = None")
    case True
    then show ?thesis using False by (auto simp: ea_redis_keys_def Let_def simp flip: n_def split: option.split)
  next
    case alloc: False
    then obtain ev bl where ev: "alloc (n + 7) = Some ev" "length ev = n + 7" and bl: "alloc (n + 6) = Some bl" "length bl = n + 6"
      using assms(1) by (auto simp: alloc_doc_def)
    have w: "ea_redis_key_write ev 0 (rd_prefix rcf) (z_name z) (rx_key ctx) = Some (overwrite ev 0 K, n)"
      using redis_key_write_eq[of 0 "rd_prefix rcf" "z_name z" "rx_key ctx" ev] ev(2) by (simp add: K_def flip: n_def)
    have e2: "cpymem (overwrite ev 0 K) n (ascii '':events'') = Some (K @ ascii '':events'', n + 7)"
      using K ev(2) by (simp add: cpymem_def overwrite_def ascii_def)
    have b2: "cpymem bl 0 K = Some (overwrite bl 0 K, n)" "cpymem (overwrite bl 0 K) n (ascii '':block'') = Some (K @ ascii '':block'', n + 6)"
      using K bl(2) by (simp_all add: cpymem_def overwrite_def ascii_def)
    have sl: "slice (K @ ascii '':events'') 0 n = Some K" using K by (simp add: slice_def)
    show ?thesis using False ev(1) bl(1)
      by (simp add: ea_redis_keys_def Let_def w e2 b2 sl events_key_def block_key_def cache_ok_def flip: n_def K_def)
  qed
qed

section \<open>The breaker\<close>

lemma record_failure_total:
  assumes "0 \<le> now" "now < TIME_MAX"
  shows "\<exists>w'. ea_redis_record_failure w now = Some w'"
  using assms by (auto simp: ea_redis_record_failure_def Let_def TIME_MAX_eq)

lemma record_failure_eq:
  assumes "clock_ok now" "wk_failures w < BREAKER_THRESHOLD"
  shows "ea_redis_record_failure w now = Some (
     if wk_failures w + 1 = BREAKER_THRESHOLD
     then w \<lparr> wk_breaker_until := sat_add now BREAKER_DURATION, wk_failures := 0 \<rparr>
     else w \<lparr> wk_failures := wk_failures w + 1 \<rparr>)"
  using assms clock_okD[OF assms(1)] time_add_saturate_eq[of now BREAKER_DURATION]
  by (auto simp: ea_redis_record_failure_def Let_def redis_consts)

section \<open>The worker as a step relation\<close>

datatype wlabel =
    WL_CHECK | WL_REPLY | WL_RECORD | WL_RECORD_REPLY | WL_HANDSHAKE | WL_CONNECTED bool
  | WL_DISCONNECT | WL_TIMER | WL_EXIT

text \<open>A state is the time of the last step and the worker.  Requests, allocations, replies, random
  numbers and what hiredis does are arbitrary.\<close>

inductive worker_step ::
  "'s ngx \<Rightarrow> (int \<Rightarrow> bytes) \<Rightarrow> bytes \<Rightarrow> bytes \<Rightarrow> redis_conf \<Rightarrow> time \<times> worker \<Rightarrow> wlabel \<Rightarrow> time \<times> worker \<Rightarrow> bool"
  for E fmt sha script rcf where
  ws_check: "t \<le> now \<Longrightarrow> clock_ok now \<Longrightarrow> ea_redis_check rcf z now alloc queue_ok w ctx = Some (rc, w', ctx', parked) \<Longrightarrow>
     worker_step E fmt sha script rcf (t, w) WL_CHECK (now, w')"
| ws_reply: "t \<le> now \<Longrightarrow> clock_ok now \<Longrightarrow> ea_redis_check_callback E z now reply w ctx = Some (w', ctx') \<Longrightarrow>
     worker_step E fmt sha script rcf (t, w) WL_REPLY (now, w')"
| ws_record: "t \<le> now \<Longrightarrow> clock_ok now \<Longrightarrow> ea_redis_record fmt sha rcf z now alloc w ctx = Some (w', ctx') \<Longrightarrow>
     worker_step E fmt sha script rcf (t, w) WL_RECORD (now, w')"
| ws_record_reply: "t \<le> now \<Longrightarrow> clock_ok now \<Longrightarrow> ea_redis_record_callback script now reply w = Some w' \<Longrightarrow>
     worker_step E fmt sha script rcf (t, w) WL_RECORD_REPLY (now, w')"
| ws_handshake: "t \<le> now \<Longrightarrow> clock_ok now \<Longrightarrow>
     worker_step E fmt sha script rcf (t, w) WL_HANDSHAKE (now, ea_redis_handshake_callback ac reply w)"
| ws_connected: "t \<le> now \<Longrightarrow> clock_ok now \<Longrightarrow>
     worker_step E fmt sha script rcf (t, w) (WL_CONNECTED ok)
       (now, ea_redis_connect_callback rcf script fmt ok q_auth q_select q_script w)"
| ws_disconnect: "t \<le> now \<Longrightarrow> clock_ok now \<Longrightarrow>
     worker_step E fmt sha script rcf (t, w) WL_DISCONNECT (now, ea_redis_disconnect_callback rnd w)"
| ws_timer: "t \<le> now \<Longrightarrow> clock_ok now \<Longrightarrow> wk_timer w \<noteq> None \<Longrightarrow>
     worker_step E fmt sha script rcf (t, w) WL_TIMER (now, ea_redis_reconnect rcf c rnd (w \<lparr> wk_timer := None \<rparr>))"
| ws_exit: "t \<le> now \<Longrightarrow> clock_ok now \<Longrightarrow>
     worker_step E fmt sha script rcf (t, w) WL_EXIT (now, ea_redis_exit_process w)"

inductive_cases worker_stepE: "worker_step E fmt sha script rcf s l s'"

abbreviation worker_run where
  "worker_run E fmt sha script rcf \<equiv> run (worker_step E fmt sha script rcf)"

subsection \<open>The invariant\<close>

definition breaker_inv :: "time \<Rightarrow> worker \<Rightarrow> bool" where
  "breaker_inv t w \<longleftrightarrow> wk_failures w < BREAKER_THRESHOLD \<and> wk_breaker_until w \<le> sat_add t BREAKER_DURATION"

text \<open>The connection: backoff and delay are bounded, and a worker that goes on either holds a
  context or has a reconnection scheduled; one that exits has neither.\<close>

definition conn_inv :: "worker \<Rightarrow> bool" where
  "conn_inv w \<longleftrightarrow> (wk_backoff w = 0 \<or> RECONNECT \<le> wk_backoff w) \<and> wk_backoff w \<le> RECONNECT_MAX
     \<and> (\<forall>d. wk_timer w = Some d \<longrightarrow> 750 \<le> d \<and> d \<le> 37500)
     \<and> (if wk_exiting w then wk_context w = None \<and> wk_timer w = None
        else wk_context w \<noteq> None \<or> wk_timer w \<noteq> None)"

definition wk_inv :: "time \<times> worker \<Rightarrow> bool" where
  "wk_inv s \<longleftrightarrow> 0 \<le> fst s \<and> breaker_inv (fst s) (snd s) \<and> conn_inv (snd s)"

lemma sat_add_mono: "t \<le> now \<Longrightarrow> sat_add t d \<le> sat_add now d"
  by (simp add: sat_add_def min_def)

text \<open>The operations that touch only the breaker, the sequence and the calls.\<close>

definition same_conn :: "worker \<Rightarrow> worker \<Rightarrow> bool" where
  "same_conn w w' \<longleftrightarrow> wk_context w' = wk_context w \<and> wk_timer w' = wk_timer w \<and> wk_backoff w' = wk_backoff w
     \<and> wk_exiting w' = wk_exiting w \<and> wk_ready w' = wk_ready w"

lemma same_conn_inv: "same_conn w w' \<Longrightarrow> conn_inv w' \<longleftrightarrow> conn_inv w"
  by (simp add: same_conn_def conn_inv_def)

lemma same_conn_refl [simp]: "same_conn w w"
  by (simp add: same_conn_def)

lemma breaker_mono: "breaker_inv t w \<Longrightarrow> t \<le> now \<Longrightarrow> breaker_inv now w"
  using sat_add_mono[of t now BREAKER_DURATION] by (auto simp: breaker_inv_def)

lemma record_failure_step:
  assumes "breaker_inv t w" "t \<le> now" "clock_ok now" "ea_redis_record_failure w now = Some w'"
  shows "breaker_inv now w' \<and> same_conn w w' \<and> wk_breaker_until w \<le> wk_breaker_until w'
     \<and> wk_calls w' = wk_calls w \<and> wk_sequence w' = wk_sequence w \<and> wk_nonce w' = wk_nonce w"
proof -
  have "wk_failures w < BREAKER_THRESHOLD" "wk_breaker_until w \<le> sat_add now BREAKER_DURATION"
    using breaker_mono[OF assms(1,2)] by (simp_all add: breaker_inv_def)
  then show ?thesis using record_failure_eq[OF assms(3)] assms(4)
    by (auto simp: breaker_inv_def same_conn_def redis_consts split: if_splits)
qed

text \<open>What the four request-side operations keep.\<close>

definition request_side :: "time \<Rightarrow> worker \<Rightarrow> worker \<Rightarrow> bool" where
  "request_side now w w' \<longleftrightarrow> breaker_inv now w' \<and> same_conn w w' \<and> wk_breaker_until w \<le> wk_breaker_until w'"

lemma request_side_failure:
  "breaker_inv t w \<Longrightarrow> t \<le> now \<Longrightarrow> clock_ok now \<Longrightarrow> ea_redis_record_failure w now = Some w' \<Longrightarrow> request_side now w w'"
  unfolding request_side_def using record_failure_step by blast

lemma request_side_refl: "breaker_inv t w \<Longrightarrow> t \<le> now \<Longrightarrow> request_side now w w"
  by (simp add: request_side_def breaker_mono)

lemma request_side_reset: "breaker_inv t w \<Longrightarrow> t \<le> now \<Longrightarrow> request_side now w (w \<lparr> wk_failures := 0 \<rparr>)"
  using breaker_mono[of t w now] by (simp add: request_side_def breaker_inv_def same_conn_def redis_consts)

lemma request_side_call:
  "request_side now (w \<lparr> wk_calls := cs \<rparr>) w' = request_side now w w'"
  "request_side now w (w' \<lparr> wk_calls := cs \<rparr>) = request_side now w w'"
  "request_side now w (w' \<lparr> wk_sequence := n \<rparr>) = request_side now w w'"
  "breaker_inv now (w \<lparr> wk_calls := cs \<rparr>) = breaker_inv now w"
  by (simp_all add: request_side_def breaker_inv_def same_conn_def)

lemma check_shape:
  assumes "ea_redis_check rcf z now alloc queue_ok w ctx = Some (rc, w', ctx', parked)"
  obtains "w' = w"
    | bl where "w' = call_redis (H_COMMAND [ascii ''GET'', bl]) w"
    | bl where "ea_redis_record_failure (call_redis (H_COMMAND [ascii ''GET'', bl]) w) now = Some w'"
proof (cases "rx_redis_pending ctx \<or> \<not> ea_redis_available w now")
  case True
  then have "w' = w" using assms by (cases "rx_redis_pending ctx") (auto simp: ea_redis_check_def)
  then show ?thesis using that by blast
next
  case False
  obtain rc1 ctx1 ev bl where k: "ea_redis_keys rcf z alloc ctx = Some (rc1, ctx1, ev, bl)"
    using False assms by (cases "ea_redis_keys rcf z alloc ctx") (auto simp: ea_redis_check_def)
  consider (nokey) "rc1 \<noteq> NGX_OK" | (queued) "rc1 = NGX_OK" "queue_ok" | (failed) "rc1 = NGX_OK" "\<not> queue_ok" by blast
  then show ?thesis
  proof cases
    case nokey
    then have "w' = w" using k False assms by (simp add: ea_redis_check_def)
    then show ?thesis using that by blast
  next
    case queued
    then have "w' = call_redis (H_COMMAND [ascii ''GET'', bl]) w" using k False assms
      by (auto simp: ea_redis_check_def Let_def)
    then show ?thesis using that by blast
  next
    case failed
    then have "ea_redis_record_failure (call_redis (H_COMMAND [ascii ''GET'', bl]) w) now = Some w'"
      using k False assms by (auto simp: ea_redis_check_def Let_def split: Option.bind_splits)
    then show ?thesis using that by blast
  qed
qed

lemma check_step:
  assumes "breaker_inv t w" "t \<le> now" "clock_ok now"
    and "ea_redis_check rcf z now alloc queue_ok w ctx = Some (rc, w', ctx', parked)"
  shows "request_side now w w'"
proof (rule check_shape[OF assms(4)])
  assume "w' = w"
  then show ?thesis using request_side_refl[OF assms(1,2)] by simp
next
  fix bl
  assume "w' = call_redis (H_COMMAND [ascii ''GET'', bl]) w"
  then show ?thesis using request_side_refl[OF assms(1,2)] by (simp add: request_side_call)
next
  fix bl
  let ?w = "call_redis (H_COMMAND [ascii ''GET'', bl]) w"
  assume "ea_redis_record_failure ?w now = Some w'"
  moreover have "breaker_inv t ?w" using assms(1) by (simp add: breaker_inv_def)
  ultimately have "request_side now ?w w'" using request_side_failure assms(2,3) by blast
  then show ?thesis by (simp add: request_side_call)
qed

lemma reply_shape:
  assumes "ea_redis_check_callback E z now reply w ctx = Some (w', ctx')"
  shows "w' = w \<lparr> wk_failures := 0 \<rparr> \<or> ea_redis_record_failure w now = Some w'"
proof (cases reply)
  case None
  then show ?thesis using assms by (auto simp: ea_redis_check_callback_def split: Option.bind_splits)
next
  case (Some r)
  then show ?thesis using assms
    by (cases r) (auto simp: ea_redis_check_callback_def Let_def split: Option.bind_splits)
qed

lemma reply_step:
  assumes "breaker_inv t w" "t \<le> now" "clock_ok now"
    and "ea_redis_check_callback E z now reply w ctx = Some (w', ctx')"
  shows "request_side now w w'"
  using reply_shape[OF assms(4)] request_side_failure[OF assms(1-3)] request_side_reset[OF assms(1,2)] by blast

text \<open>The worker after an EVALSHA.\<close>

definition evalsha :: "(int \<Rightarrow> bytes) \<Rightarrow> bytes \<Rightarrow> zone \<Rightarrow> bytes \<Rightarrow> bytes \<Rightarrow> time \<Rightarrow> time \<Rightarrow> time \<Rightarrow> worker \<Rightarrow> worker" where
  "evalsha fmt sha z ev bl a b c w =
     (let w = w \<lparr> wk_sequence := wk_sequence w + 1 \<rparr> in call_redis (record_command fmt sha z ev bl a b c w) w)"

lemma record_shape:
  assumes "ea_redis_record fmt sha rcf z now alloc w ctx = Some (w', ctx')"
  obtains "w' = w" | ev bl a b c where "w' = evalsha fmt sha z ev bl a b c w"
proof (cases "ea_redis_available w now")
  case True
  obtain rc1 ctx1 ev bl where k: "ea_redis_keys rcf z alloc ctx = Some (rc1, ctx1, ev, bl)"
    using True assms by (cases "ea_redis_keys rcf z alloc ctx") (auto simp: ea_redis_record_def)
  show ?thesis
  proof (cases "rc1 = NGX_OK")
    case rc: True
    obtain a b c where "t_mul (z_interval z) 1000 = Some a" "t_mul (z_block z) 1000 = Some b" "t_mul (z_inactive z) 1000 = Some c"
      using assms True k rc
      by (cases "t_mul (z_interval z) 1000"; cases "t_mul (z_block z) 1000"; cases "t_mul (z_inactive z) 1000")
         (simp_all add: ea_redis_record_def)
    then have "w' = evalsha fmt sha z ev bl a b c w" using assms True k rc
      by (simp add: ea_redis_record_def evalsha_def Let_def)
    then show ?thesis using that by blast
  next
    case False
    then have "w' = w" using assms True k by (simp add: ea_redis_record_def)
    then show ?thesis using that by blast
  qed
next
  case False
  then have "w' = w" using assms by (simp add: ea_redis_record_def)
  then show ?thesis using that by blast
qed

lemma record_step:
  assumes "breaker_inv t w" "t \<le> now" "ea_redis_record fmt sha rcf z now alloc w ctx = Some (w', ctx')"
  shows "request_side now w w'"
proof (rule record_shape[OF assms(3)])
  show "w' = w \<Longrightarrow> ?thesis" using request_side_refl[OF assms(1,2)] by simp
  show "w' = evalsha fmt sha z ev bl a b c w \<Longrightarrow> ?thesis" for ev bl a b c
    using request_side_refl[OF assms(1,2)] by (simp add: evalsha_def Let_def request_side_call)
qed

lemma t_mul_seconds: "0 \<le> a \<Longrightarrow> a \<le> MAX_SECONDS \<Longrightarrow> t_mul a 1000 = Some (a * 1000)"
  by (simp add: t_mul_def time_rep_def MAX_SECONDS_def)

text \<open>With the documented formatting, the command is what the script expects.\<close>

definition script_command :: "(int \<Rightarrow> bytes) \<Rightarrow> bytes \<Rightarrow> redis_conf \<Rightarrow> zone \<Rightarrow> bytes \<Rightarrow> 64 word \<Rightarrow> 64 word \<Rightarrow> hcall" where
  "script_command fmt sha rcf z key nonce s = H_COMMAND
     [ascii ''EVALSHA'', sha, ascii ''2'', events_key rcf z key, block_key rcf z key,
      fmt (z_interval z * 1000), fmt (int (z_threshold z)), fmt (z_block z * 1000), fmt (z_inactive z * 1000),
      nonce_text fmt nonce s]"

lemma record_exact:
  assumes "fmt_doc fmt" "alloc_doc alloc" "cache_ok rcf z ctx" "wf_zone z"
  shows "\<exists>w' ctx'. ea_redis_record fmt sha rcf z now alloc w ctx = Some (w', ctx')
     \<and> (w' = w \<and> ctx' = ctx \<and> (\<not> ea_redis_available w now \<or> (\<exists>n. alloc n = None))
        \<or> ea_redis_available w now
        \<and> ctx' = ctx \<lparr> rx_redis_events := events_key rcf z (rx_key ctx), rx_redis_block := block_key rcf z (rx_key ctx) \<rparr>
        \<and> w' = w \<lparr> wk_sequence := wk_sequence w + 1,
                   wk_calls := wk_calls w @ [script_command fmt sha rcf z (rx_key ctx) (wk_nonce w) (wk_sequence w + 1)] \<rparr>)"
proof (cases "ea_redis_available w now")
  case False
  then show ?thesis by (simp add: ea_redis_record_def)
next
  case av: True
  obtain rc ctx' ev bl where k: "ea_redis_keys rcf z alloc ctx = Some (rc, ctx', ev, bl)"
    and r: "rc = NGX_OK \<and> ev = events_key rcf z (rx_key ctx) \<and> bl = block_key rcf z (rx_key ctx)
         \<and> ctx' = ctx \<lparr> rx_redis_events := ev, rx_redis_block := bl \<rparr> \<and> cache_ok rcf z ctx'
       \<or> rc = NGX_ERROR \<and> ctx' = ctx \<and> (\<exists>n. alloc n = None)"
    using redis_keys_exact[OF assms(2,3)] by blast
  show ?thesis
  proof (cases "rc = NGX_OK")
    case False
    then show ?thesis using k r av by (simp add: ea_redis_record_def)
  next
    case True
    have z: "0 \<le> z_interval z" "z_interval z \<le> MAX_SECONDS" "0 \<le> z_block z" "z_block z \<le> MAX_SECONDS"
      "0 \<le> z_inactive z" "z_inactive z \<le> MAX_SECONDS" "z_threshold z \<le> MAX_THRESHOLD"
      using assms(4) by (auto simp: wf_zone_def)
    have n: "redis_number fmt (INT64_LEN + 1) (v * 1000) = fmt (v * 1000)" if "0 \<le> v" "v \<le> MAX_SECONDS" for v
      using that by (intro redis_number_exact[OF assms(1)]) (simp_all add: MAX_SECONDS_def)
    have t: "redis_number fmt (INT64_LEN + 1) (int (z_threshold z)) = fmt (int (z_threshold z))"
      using z(7) by (intro redis_number_exact[OF assms(1)]) (simp_all add: MAX_THRESHOLD_def)
    show ?thesis using av k r True z n[OF z(1,2)] n[OF z(3,4)] n[OF z(5,6)] t nonce_fits[OF assms(1)]
      by (simp add: ea_redis_record_def t_mul_seconds record_command_def script_command_def Let_def nonce_text_def)
  qed
qed

lemma record_reply_shape:
  assumes "ea_redis_record_callback script now reply w = Some w'"
  shows "ea_redis_record_failure w now = Some w' \<or> w' = w \<lparr> wk_failures := 0 \<rparr> \<or> w' = call_redis (load_script script) w"
proof (cases reply)
  case None
  then show ?thesis using assms by (simp add: ea_redis_record_callback_def)
next
  case (Some r)
  show ?thesis
  proof (cases r)
    case (R_ARRAY rs)
    then show ?thesis using assms Some
      by (auto simp: ea_redis_record_callback_def split: list.splits redis_reply.splits)
  qed (use assms Some in \<open>auto simp: ea_redis_record_callback_def split: if_splits\<close>)
qed

lemma record_reply_step:
  assumes "breaker_inv t w" "t \<le> now" "clock_ok now" "ea_redis_record_callback script now reply w = Some w'"
  shows "request_side now w w'"
  using record_reply_shape[OF assms(4)] request_side_failure[OF assms(1-3)] request_side_reset[OF assms(1,2)]
    request_side_refl[OF assms(1,2)] by (auto simp: request_side_call)

subsection \<open>The connection side\<close>

text \<open>What the connection-side operations leave alone.\<close>

definition same_breaker :: "worker \<Rightarrow> worker \<Rightarrow> bool" where
  "same_breaker w w' \<longleftrightarrow> wk_failures w' = wk_failures w \<and> wk_breaker_until w' = wk_breaker_until w
     \<and> wk_sequence w' = wk_sequence w \<and> wk_nonce w' = wk_nonce w"

lemma arm_reconnect_inv:
  assumes "wk_backoff w = 0 \<or> RECONNECT \<le> wk_backoff w" "wk_backoff w \<le> RECONNECT_MAX" "\<not> wk_exiting w" "wk_timer w = None"
  shows "conn_inv (ea_redis_arm_reconnect rnd w)"
proof -
  define base where "base = (if wk_backoff w \<noteq> 0 then wk_backoff w else RECONNECT)"
  have base: "1000 \<le> base" "base \<le> 30000" using assms(1,2) by (auto simp: base_def redis_consts)
  define jitter where "jitter = rnd mod (base div 2 + 1)"
  have j: "jitter \<le> base div 2" by (simp add: jitter_def)
  define delay where "delay = base - base div 4 + jitter"
  have d: "750 \<le> delay" "delay \<le> 37500" using base j by (simp_all add: delay_def)
  have m: "delay mod 2 ^ 64 = delay" "base * 2 mod 2 ^ 64 = base * 2" using d base by simp_all
  have "ea_redis_arm_reconnect rnd w
      = w \<lparr> wk_backoff := (if base * 2 > RECONNECT_MAX then RECONNECT_MAX else base * 2), wk_timer := Some delay \<rparr>"
    unfolding ea_redis_arm_reconnect_def Let_def base_def[symmetric] jitter_def[symmetric] delay_def[symmetric] m
    using assms(3,4) by simp
  then show ?thesis using assms(3) d base by (simp add: conn_inv_def redis_consts)
qed

lemma arm_reconnect_keeps: "conn_inv w \<Longrightarrow> wk_exiting w \<or> wk_timer w \<noteq> None \<Longrightarrow> ea_redis_arm_reconnect rnd w = w"
  by (auto simp: ea_redis_arm_reconnect_def)

lemma arm_same_breaker [simp]: "same_breaker w (ea_redis_arm_reconnect rnd w)"
  by (simp add: same_breaker_def ea_redis_arm_reconnect_def Let_def)

lemma disconnect_inv:
  assumes "conn_inv w"
  shows "conn_inv (ea_redis_disconnect_callback rnd w)"
proof (cases "wk_exiting w \<or> wk_timer w \<noteq> None")
  case True
  have "ea_redis_disconnect_callback rnd w = w \<lparr> wk_context := None, wk_ready := False \<rparr>"
    using True by (simp add: ea_redis_disconnect_callback_def ea_redis_arm_reconnect_def)
  then show ?thesis using assms True by (auto simp: conn_inv_def)
next
  case False
  then show ?thesis unfolding ea_redis_disconnect_callback_def
    using assms by (intro arm_reconnect_inv) (simp_all add: conn_inv_def)
qed

text \<open>A connection attempt gives the worker a context, or changes neither the connection nor the breaker.\<close>

definition connect_failed :: "worker \<Rightarrow> worker \<Rightarrow> bool" where
  "connect_failed w w' \<longleftrightarrow> same_conn w w' \<and> same_breaker w w'"

definition connect_started :: "worker \<Rightarrow> nat \<Rightarrow> worker \<Rightarrow> bool" where
  "connect_started w ac w' \<longleftrightarrow> wk_context w' = Some ac \<and> same_conn (w \<lparr> wk_context := Some ac \<rparr>) w' \<and> same_breaker w w'"

lemma connect_attempt:
  "(\<exists>w'. ea_redis_connect rcf c w = (NGX_ERROR, w') \<and> connect_failed w w')
   \<or> (\<exists>ac w'. ea_redis_connect rcf c w = (NGX_OK, w') \<and> connect_started w ac w')"
proof (cases c)
  case (CONN ac ssl_ok session_ok attach_ok)
  show ?thesis unfolding CONN
    by (cases "rd_tls rcf"; cases "wk_ssl w"; cases ssl_ok; cases session_ok; cases attach_ok)
       (simp_all add: ea_redis_connect_def connect_failed_def connect_started_def same_conn_def same_breaker_def Let_def)
qed (simp_all add: ea_redis_connect_def connect_failed_def same_conn_def same_breaker_def)

lemma connect_cases:
  obtains (failed) w' where "ea_redis_connect rcf c w = (NGX_ERROR, w')" "connect_failed w w'"
    | (started) ac w' where "ea_redis_connect rcf c w = (NGX_OK, w')" "connect_started w ac w'"
  using connect_attempt by blast

lemma reconnect_inv:
  assumes "conn_inv w" "wk_timer w \<noteq> None"
  shows "conn_inv (ea_redis_reconnect rcf c rnd (w \<lparr> wk_timer := None \<rparr>))"
    "same_breaker w (ea_redis_reconnect rcf c rnd (w \<lparr> wk_timer := None \<rparr>))"
proof -
  have nx: "\<not> wk_exiting w" using assms by (auto simp: conn_inv_def)
  have "conn_inv (ea_redis_reconnect rcf c rnd (w \<lparr> wk_timer := None \<rparr>))
      \<and> same_breaker w (ea_redis_reconnect rcf c rnd (w \<lparr> wk_timer := None \<rparr>))"
  proof (cases rule: connect_cases[of rcf c "w \<lparr> wk_timer := None \<rparr>", case_names failed started])
    case (failed w')
    have "conn_inv (ea_redis_arm_reconnect rnd w')"
      using failed(2) assms(1) nx by (intro arm_reconnect_inv) (auto simp: connect_failed_def same_conn_def conn_inv_def)
    moreover have "same_breaker w (ea_redis_arm_reconnect rnd w')"
      using failed(2) arm_same_breaker[of w' rnd] by (simp add: connect_failed_def same_breaker_def)
    ultimately show ?thesis using failed(1) nx by (simp add: ea_redis_reconnect_def)
  next
    case (started ac w')
    then show ?thesis using assms(1) nx
      by (simp add: ea_redis_reconnect_def connect_started_def same_conn_def conn_inv_def same_breaker_def)
  qed
  then show "conn_inv (ea_redis_reconnect rcf c rnd (w \<lparr> wk_timer := None \<rparr>))"
    "same_breaker w (ea_redis_reconnect rcf c rnd (w \<lparr> wk_timer := None \<rparr>))" by simp_all
qed

lemma connected_effect:
  fixes rcf script fmt ok q_auth q_select q_script and w :: worker
  defines "w' \<equiv> ea_redis_connect_callback rcf script fmt ok q_auth q_select q_script w"
  shows "wk_context w' = wk_context w"
    "wk_timer w' = wk_timer w" "wk_exiting w' = wk_exiting w" "wk_backoff w' = (if ok then 0 else wk_backoff w)"
    "wk_failures w' = wk_failures w" "wk_breaker_until w' = wk_breaker_until w"
    "wk_sequence w' = wk_sequence w" "wk_nonce w' = wk_nonce w"
  unfolding w'_def ea_redis_connect_callback_def Let_def by (simp_all split: option.split)

lemma connected_inv:
  "conn_inv w \<Longrightarrow> conn_inv (ea_redis_connect_callback rcf script fmt ok q_auth q_select q_script w)"
  by (cases ok) (auto simp: conn_inv_def connected_effect)

lemma connected_same_breaker:
  "same_breaker w (ea_redis_connect_callback rcf script fmt ok q_auth q_select q_script w)"
  by (simp add: same_breaker_def connected_effect)

lemma handshake_inv:
  "conn_inv w \<Longrightarrow> conn_inv (ea_redis_handshake_callback ac reply w)"
  "same_breaker w (ea_redis_handshake_callback ac reply w)"
  by (auto simp: ea_redis_handshake_callback_def conn_inv_def same_breaker_def split: option.splits redis_reply.splits)

lemma exit_inv:
  "conn_inv w \<Longrightarrow> conn_inv (ea_redis_exit_process w)" "same_breaker w (ea_redis_exit_process w)"
  by (auto simp: ea_redis_exit_process_def conn_inv_def same_breaker_def Let_def split: option.splits)

lemma disconnect_same_breaker: "same_breaker w (ea_redis_disconnect_callback rnd w)"
  using arm_same_breaker[of "w \<lparr> wk_context := None, wk_ready := False \<rparr>" rnd]
  by (simp add: ea_redis_disconnect_callback_def same_breaker_def)

subsection \<open>Every step keeps the invariant\<close>

definition kept :: "time \<Rightarrow> worker \<Rightarrow> worker \<Rightarrow> bool" where
  "kept now w w' \<longleftrightarrow> breaker_inv now w' \<and> conn_inv w' \<and> wk_breaker_until w \<le> wk_breaker_until w'"

lemma kept_request: "conn_inv w \<Longrightarrow> request_side now w w' \<Longrightarrow> kept now w w'"
  using same_conn_inv[of w w'] by (simp add: kept_def request_side_def)

lemma kept_connection: "breaker_inv t w \<Longrightarrow> t \<le> now \<Longrightarrow> conn_inv w' \<Longrightarrow> same_breaker w w' \<Longrightarrow> kept now w w'"
  using breaker_mono[of t w now] by (simp add: kept_def same_breaker_def breaker_inv_def)

lemma worker_step_kept:
  assumes "worker_step E fmt sha script rcf s l s'" "wk_inv s"
  shows "fst s \<le> fst s' \<and> clock_ok (fst s') \<and> kept (fst s') (snd s) (snd s')"
proof -
  have b: "breaker_inv (fst s) (snd s)" and c: "conn_inv (snd s)" using assms(2) by (simp_all add: wk_inv_def)
  show ?thesis using assms(1) b c
  proof cases
    case (ws_check t now z alloc queue_ok w ctx rc w' ctx' parked)
    then show ?thesis using check_step b c by (fastforce intro: kept_request)
  next
    case (ws_reply t now z reply w ctx w' ctx')
    then show ?thesis using reply_step b c by (fastforce intro: kept_request)
  next
    case (ws_record t now z alloc w ctx w' ctx')
    then show ?thesis using record_step b c by (fastforce intro: kept_request)
  next
    case (ws_record_reply t now reply w w')
    then show ?thesis using record_reply_step b c by (fastforce intro: kept_request)
  next
    case (ws_handshake t now w ac reply)
    then show ?thesis using b c by (auto intro: kept_connection handshake_inv)
  next
    case (ws_connected t now w ok q_auth q_select q_script)
    then show ?thesis using b c by (auto intro: kept_connection connected_inv connected_same_breaker)
  next
    case (ws_disconnect t now w rnd)
    then show ?thesis using b c by (auto intro: kept_connection disconnect_inv disconnect_same_breaker)
  next
    case (ws_timer t now w c rnd)
    have "kept now w (ea_redis_reconnect rcf c rnd (w \<lparr> wk_timer := None \<rparr>))"
      using ws_timer b c reconnect_inv[of w rcf c rnd] by (intro kept_connection[of t]) simp_all
    then show ?thesis using ws_timer by simp
  next
    case (ws_exit t now w)
    then show ?thesis using b c by (auto intro: kept_connection exit_inv)
  qed
qed

lemma worker_step_inv: "wk_inv s \<Longrightarrow> worker_step E fmt sha script rcf s l s' \<Longrightarrow> wk_inv s'"
  using worker_step_kept[of E fmt sha script rcf s l s'] by (auto simp: wk_inv_def kept_def clock_ok_def)

interpretation wk: timed_system "worker_step E fmt sha script rcf" wk_inv fst
  "\<lambda>u s. u \<le> wk_breaker_until (snd s)"
  by unfold_locales (auto dest: worker_step_kept worker_step_inv simp: kept_def)

lemma init_process_inv: "0 \<le> t \<Longrightarrow> wk_inv (t, ea_redis_init_process rcf nonce c rnd)"
proof -
  assume t: "0 \<le> t"
  have b: "breaker_inv t (worker0 nonce)"
    using t sat_add_range[of t BREAKER_DURATION] by (simp add: breaker_inv_def worker0_def redis_consts)
  have same: "breaker_inv t w'" if "same_breaker (worker0 nonce) w'" for w'
    using that b by (simp add: same_breaker_def breaker_inv_def)
  show ?thesis
  proof (cases rule: connect_cases[of rcf c "worker0 nonce", case_names failed started])
    case (failed w')
    have w: "same_breaker (worker0 nonce) (ea_redis_arm_reconnect rnd w')"
      using failed(2) arm_same_breaker[of w' rnd] by (simp add: connect_failed_def same_breaker_def)
    have "conn_inv (ea_redis_arm_reconnect rnd w')"
      using failed(2) by (intro arm_reconnect_inv) (auto simp: connect_failed_def same_conn_def worker0_def)
    then show ?thesis using failed(1) t same[OF w] by (simp add: ea_redis_init_process_def wk_inv_def)
  next
    case (started ac w')
    then have "same_breaker (worker0 nonce) w'" "conn_inv w'"
      by (auto simp: connect_started_def same_conn_def conn_inv_def worker0_def)
    then show ?thesis using started(1) t same by (simp add: ea_redis_init_process_def wk_inv_def)
  qed
qed

end
