(* ===== verification/EA_Remote.thy ===== *)
theory EA_Remote
  imports EA_RedisRun EA_Example
begin

text \<open>
  The properties of the Redis side, over every interleaving of a worker's operations and hiredis's
  callbacks, and a concrete worker for their witnesses.
\<close>

section \<open>Commands and their nonces\<close>

text \<open>The commands of a kind.\<close>

fun command_is :: "string \<Rightarrow> hcall \<Rightarrow> bool" where
  "command_is name (H_COMMAND (c # _)) = (c = ascii name)"
| "command_is name _ = False"

text \<open>What checks and recordings send; the rest is the connection's own business.\<close>

definition of_clients :: "hcall \<Rightarrow> bool" where
  "of_clients c \<longleftrightarrow> command_is ''GET'' c \<or> command_is ''EVALSHA'' c"

lemma of_clients_simps [simp]:
  "\<not> of_clients (H_DISCONNECT ac)" "\<not> of_clients (H_FREE ac)" "\<not> of_clients (load_script s)"
  "\<not> of_clients (H_COMMAND (ascii ''AUTH'' # args))" "\<not> of_clients (H_COMMAND (ascii ''SELECT'' # args))"
  by (simp_all add: of_clients_def load_script_def ascii_def)

text \<open>Nothing but such business was added to the calls.\<close>

definition unasked :: "worker \<Rightarrow> worker \<Rightarrow> bool" where
  "unasked w w' \<longleftrightarrow> (\<exists>cs. wk_calls w' = wk_calls w @ cs \<and> (\<forall>c \<in> set cs. \<not> of_clients c))"

lemma unasked_same: "wk_calls w' = wk_calls w \<Longrightarrow> unasked w w'"
  by (simp add: unasked_def)

lemma unasked_call: "\<not> of_clients c \<Longrightarrow> wk_calls w' = wk_calls w @ [c] \<Longrightarrow> unasked w w'"
  by (simp add: unasked_def)

lemma unasked_trans:
  assumes "unasked w w'" "unasked w' w''"
  shows "unasked w w''"
proof -
  obtain cs ds where "wk_calls w'' = wk_calls w @ cs @ ds" "\<forall>c \<in> set cs. \<not> of_clients c" "\<forall>c \<in> set ds. \<not> of_clients c"
    using assms by (auto simp: unasked_def)
  then show ?thesis unfolding unasked_def by (intro exI[of _ "cs @ ds"]) auto
qed

lemma unasked_send_if: "\<not> of_clients c \<Longrightarrow> unasked w (send_if b c w)"
  by (simp add: send_if_def unasked_def)

lemma failure_calls: "ea_redis_record_failure w now = Some w' \<Longrightarrow> wk_calls w' = wk_calls w"
  by (auto simp: ea_redis_record_failure_def Let_def split: if_splits Option.bind_splits)

lemma callback_calls: "ea_redis_check_callback E z now reply w c = Some (w', c') \<Longrightarrow> wk_calls w' = wk_calls w"
  by (auto simp: ea_redis_check_callback_def Let_def split: option.splits redis_reply.splits Option.bind_splits
      dest: failure_calls)

lemma unasked_record_reply: "ea_redis_record_callback script now reply w = Some w' \<Longrightarrow> unasked w w'"
  using record_reply_shape[of script now reply w w'] by (auto simp: unasked_def dest: failure_calls)

lemma unasked_connected: "unasked w (ea_redis_connect_callback rcf script fmt ok q_auth q_select q_script w)"
proof (cases ok)
  case False
  then show ?thesis by (simp add: ea_redis_connect_callback_def unasked_same)
next
  case True
  define w0 where "w0 = w \<lparr> wk_ready := True, wk_backoff := 0 \<rparr>"
  define auth where "auth = (rd_password rcf \<noteq> [])"
  define select where "select = ((\<not> auth \<or> q_auth) \<and> 0 < rd_db rcf)"
  define load where "load = ((\<not> auth \<or> q_auth) \<and> (\<not> select \<or> q_select))"
  define w1 where "w1 = send_if auth (H_COMMAND (if rd_user rcf \<noteq> [] then [ascii ''AUTH'', rd_user rcf, rd_password rcf]
      else [ascii ''AUTH'', rd_password rcf])) w0"
  define w2 where "w2 = send_if select (H_COMMAND [ascii ''SELECT'', fmt (rd_db rcf)]) w1"
  define w3 where "w3 = send_if load (load_script script) w2"
  define w4 where "w4 = w3 \<lparr> wk_ready := False \<rparr>"
  have "ea_redis_connect_callback rcf script fmt ok q_auth q_select q_script w
      = (if load \<and> q_script then w3 else (case wk_context w4 of None \<Rightarrow> w4 | Some ac \<Rightarrow> call_redis (H_DISCONNECT ac) w4))"
    using True unfolding ea_redis_connect_callback_def Let_def w4_def w3_def w2_def w1_def load_def select_def auth_def w0_def
    by simp
  moreover have "unasked w w3"
    using unasked_trans[OF unasked_same unasked_trans[OF unasked_send_if unasked_trans[OF unasked_send_if unasked_send_if]], of w0 w]
    by (simp add: w0_def w3_def w2_def w1_def)
  moreover have "unasked w3 (case wk_context w4 of None \<Rightarrow> w4 | Some ac \<Rightarrow> call_redis (H_DISCONNECT ac) w4)"
    by (cases "wk_context w4") (simp_all add: unasked_def w4_def)
  ultimately show ?thesis using unasked_trans by simp
qed

lemma arm_calls [simp]: "wk_calls (ea_redis_arm_reconnect rnd w) = wk_calls w"
  by (simp add: ea_redis_arm_reconnect_def Let_def)

lemma unasked_reconnect: "unasked w (ea_redis_reconnect rcf c rnd (w \<lparr> wk_timer := None \<rparr>))"
  by (cases c) (auto simp: ea_redis_reconnect_def ea_redis_connect_def unasked_def Let_def)

lemma unasked_exit: "unasked w (ea_redis_exit_process w)"
  by (cases "wk_context w") (simp_all add: ea_redis_exit_process_def unasked_def Let_def)

text \<open>While the breaker is open, no step sends a check or a recording.\<close>

lemma unasked_step:
  assumes "worker_step E fmt sha script rcf s l s'" "fst s' < wk_breaker_until (snd s)"
  shows "unasked (snd s) (snd s')"
  using assms(1)
proof cases
  case (ws_check t now z alloc queue_ok w ctx rc w' ctx' parked)
  then have "\<not> ea_redis_available w now" using assms(2) by (simp add: ea_redis_available_def)
  then have "w' = w" using ws_check by (auto simp: ea_redis_check_def split: if_splits)
  then show ?thesis using ws_check by (simp add: unasked_same)
next
  case (ws_record t now z alloc w ctx w' ctx')
  then have "\<not> ea_redis_available w now" using assms(2) by (simp add: ea_redis_available_def)
  then have "w' = w" using ws_record by (simp add: ea_redis_record_def)
  then show ?thesis using ws_record by (simp add: unasked_same)
next
  case (ws_handshake t now ac reply w)
  then show ?thesis by (auto simp: ea_redis_handshake_callback_def unasked_def split: option.splits redis_reply.splits)
next
  case (ws_disconnect t now rnd w)
  then show ?thesis by (simp add: ea_redis_disconnect_callback_def unasked_same)
qed (auto simp: unasked_connected unasked_reconnect unasked_exit intro: unasked_record_reply unasked_same dest: callback_calls)

lemma unasked_run:
  assumes "worker_run E fmt sha script rcf s tr s'" "wk_inv s" "u \<le> wk_breaker_until (snd s)" "fst s' < u"
  shows "unasked (snd s) (snd s')"
  using assms
proof (induction rule: run.induct)
  case (run_snoc s tr s1 l s2)
  have inv: "wk_inv s1" using wk.run_inv[OF run_snoc(1,4)] .
  have t: "fst s1 < u" using wk.step_clock[OF inv run_snoc(2)] run_snoc(6) by simp
  have "u \<le> wk_breaker_until (snd s1)" using wk.run_duty[OF run_snoc(1,4,5) t] .
  then have "fst s2 < wk_breaker_until (snd s1)" using run_snoc(6) by simp
  from unasked_step[OF run_snoc(2) this] run_snoc t show ?case using unasked_trans by blast
qed (simp add: unasked_same)

fun nonces :: "hcall list \<Rightarrow> bytes list" where
  "nonces [] = []"
| "nonces (H_COMMAND args # cs) =
     (if args \<noteq> [] \<and> hd args = ascii ''EVALSHA'' then [List.last args] else []) @ nonces cs"
| "nonces (_ # cs) = nonces cs"

lemma nonces_append [simp]: "nonces (cs @ ds) = nonces cs @ nonces ds"
  by (induction cs rule: nonces.induct) auto

lemma verbs_distinct [simp]:
  "ascii ''GET'' \<noteq> ascii ''EVALSHA''" "ascii ''AUTH'' \<noteq> ascii ''EVALSHA''"
  "ascii ''SELECT'' \<noteq> ascii ''EVALSHA''" "ascii ''SCRIPT'' \<noteq> ascii ''EVALSHA''"
  by (simp_all add: ascii_def)

lemma nonces_send_if [simp]:
  "nonces (wk_calls (send_if b c w)) = nonces (wk_calls w) @ (if b then nonces [c] else [])"
  by (simp add: send_if_def)

lemma load_script_nonces [simp]: "nonces [load_script s] = []"
  by (simp add: load_script_def)

text \<open>A worker has sent one nonce for every number of its sequence.\<close>

definition seq_inv :: "(int \<Rightarrow> bytes) \<Rightarrow> worker \<Rightarrow> bool" where
  "seq_inv fmt w \<longleftrightarrow> wk_sequence w = of_nat (length (nonces (wk_calls w)))
     \<and> nonces (wk_calls w) = map (\<lambda>i. nonce_text fmt (wk_nonce w) (of_nat (Suc i))) [0..<length (nonces (wk_calls w))]"

definition same_seq :: "worker \<Rightarrow> worker \<Rightarrow> bool" where
  "same_seq w w' \<longleftrightarrow> wk_sequence w' = wk_sequence w \<and> wk_nonce w' = wk_nonce w
     \<and> nonces (wk_calls w') = nonces (wk_calls w)"

lemma same_seq_refl [simp]: "same_seq w w"
  by (simp add: same_seq_def)

lemma same_seq_trans: "same_seq w w' \<Longrightarrow> same_seq w' w'' \<Longrightarrow> same_seq w w''"
  by (simp add: same_seq_def)

lemma seq_inv_same: "seq_inv fmt w \<Longrightarrow> same_seq w w' \<Longrightarrow> seq_inv fmt w'"
  by (simp add: seq_inv_def same_seq_def)

lemma seq_failure: "ea_redis_record_failure w now = Some w' \<Longrightarrow> same_seq w w'"
  by (auto simp: ea_redis_record_failure_def same_seq_def Let_def split: if_splits Option.bind_splits)

lemma seq_check:
  assumes "ea_redis_check rcf z now alloc queue_ok w ctx = Some (rc, w', ctx', parked)"
  shows "same_seq w w'"
proof (rule check_shape[OF assms])
  assume "w' = w"
  then show ?thesis by simp
next
  fix bl
  let ?w = "call_redis (H_COMMAND [ascii ''GET'', bl]) w"
  have s: "same_seq w ?w" by (simp add: same_seq_def)
  then show "w' = ?w \<Longrightarrow> ?thesis" by simp
  show "ea_redis_record_failure ?w now = Some w' \<Longrightarrow> ?thesis" using s seq_failure same_seq_trans by blast
qed

lemma seq_reply:
  "ea_redis_check_callback E z now reply w ctx = Some (w', ctx') \<Longrightarrow> same_seq w w'"
  using reply_shape seq_failure by (fastforce simp: same_seq_def)

lemma seq_record_reply: "ea_redis_record_callback script now reply w = Some w' \<Longrightarrow> same_seq w w'"
  using record_reply_shape seq_failure by (fastforce simp: same_seq_def)

lemma seq_arm: "same_seq w (ea_redis_arm_reconnect rnd w)"
  by (simp add: ea_redis_arm_reconnect_def same_seq_def Let_def)

lemma seq_connect: "same_seq w (snd (ea_redis_connect rcf c w))"
proof (cases c)
  case (CONN ac ssl_ok session_ok attach_ok)
  show ?thesis unfolding CONN
    by (cases "rd_tls rcf"; cases "wk_ssl w"; cases ssl_ok; cases session_ok; cases attach_ok)
       (simp_all add: ea_redis_connect_def same_seq_def Let_def)
qed (simp_all add: ea_redis_connect_def same_seq_def)

lemma seq_reconnect: "same_seq w (ea_redis_reconnect rcf c rnd (w \<lparr> wk_timer := None \<rparr>))"
proof -
  let ?w = "w \<lparr> wk_timer := None \<rparr>"
  obtain rc w' where c: "ea_redis_connect rcf c ?w = (rc, w')" by fastforce
  have "same_seq w ?w" "same_seq ?w w'" using seq_connect[of ?w rcf c] c by (simp_all add: same_seq_def)
  then have "same_seq w w'" "same_seq w (ea_redis_arm_reconnect rnd w')" using seq_arm same_seq_trans by blast+
  then show ?thesis using c by (cases rc) (simp_all add: ea_redis_reconnect_def same_seq_def)
qed

lemma seq_init: "same_seq (worker0 nonce) (ea_redis_init_process rcf nonce c rnd)"
proof -
  obtain rc w' where c: "ea_redis_connect rcf c (worker0 nonce) = (rc, w')" by fastforce
  then have "same_seq (worker0 nonce) w'" using seq_connect[of "worker0 nonce" rcf c] by simp
  then have "same_seq (worker0 nonce) (ea_redis_arm_reconnect rnd w')" "same_seq (worker0 nonce) w'"
    using seq_arm same_seq_trans by blast+
  then show ?thesis using c by (cases rc) (simp_all add: ea_redis_init_process_def)
qed

lemma seq_handshake: "same_seq w (ea_redis_handshake_callback ac reply w)"
  by (simp add: ea_redis_handshake_callback_def same_seq_def split: option.split redis_reply.split)

lemma seq_connected: "same_seq w (ea_redis_connect_callback rcf script fmt ok q_auth q_select q_script w)"
  by (simp add: ea_redis_connect_callback_def same_seq_def Let_def split: option.split)

lemma seq_disconnect: "same_seq w (ea_redis_disconnect_callback rnd w)"
  using seq_arm[of "w \<lparr> wk_context := None, wk_ready := False \<rparr>" rnd]
  by (simp add: ea_redis_disconnect_callback_def same_seq_def)

lemma seq_exit: "same_seq w (ea_redis_exit_process w)"
  by (simp add: ea_redis_exit_process_def same_seq_def Let_def split: option.split)

lemma seq_record:
  assumes "fmt_doc fmt" "seq_inv fmt w" "ea_redis_record fmt sha rcf z now alloc w ctx = Some (w', ctx')"
  shows "seq_inv fmt w'"
proof (rule record_shape[OF assms(3)])
  show "w' = w \<Longrightarrow> ?thesis" using assms(2) by simp
  fix ev bl a b c
  assume w': "w' = evalsha fmt sha z ev bl a b c w"
  define n where "n = length (nonces (wk_calls w))"
  have s: "wk_sequence w = of_nat n"
    "nonces (wk_calls w) = map (\<lambda>i. nonce_text fmt (wk_nonce w) (of_nat (Suc i))) [0..<n]"
    using assms(2) by (auto simp: seq_inv_def n_def)
  have "wk_sequence w' = of_nat (Suc n)" "wk_nonce w' = wk_nonce w" using w' s(1) by (simp_all add: evalsha_def Let_def)
  moreover have "nonces (wk_calls w') = nonces (wk_calls w) @ [nonce_text fmt (wk_nonce w) (of_nat (Suc n))]"
    using w' s(1) nonce_fits[OF assms(1), of "wk_nonce w" "1 + of_nat n"]
    by (simp add: evalsha_def record_command_def nonce_text_def Let_def add.commute)
  ultimately show ?thesis using s(2) unfolding seq_inv_def by simp
qed

lemma seq_step:
  assumes "fmt_doc fmt" "worker_step E fmt sha script rcf s l s'" "seq_inv fmt (snd s)"
  shows "seq_inv fmt (snd s')"
  using assms(2)
proof cases
  case (ws_record t now z alloc w ctx w' ctx')
  then show ?thesis using seq_record[OF assms(1)] assms(3) by simp
next
  case (ws_reply t now z reply w ctx w' ctx')
  then show ?thesis using seq_reply assms(3) seq_inv_same by fastforce
qed (use assms(3) seq_check seq_record_reply seq_handshake seq_connected seq_disconnect seq_reconnect seq_exit
    in \<open>auto intro: seq_inv_same\<close>)

lemma seq_run: "run (worker_step E fmt sha script rcf) s tr s' \<Longrightarrow> fmt_doc fmt \<Longrightarrow> seq_inv fmt (snd s) \<Longrightarrow> seq_inv fmt (snd s')"
  by (induction rule: run.induct) (auto intro: seq_step)

lemma seq_inv_init: "seq_inv fmt (ea_redis_init_process rcf nonce c rnd)"
proof (rule seq_inv_same[OF _ seq_init])
  show "seq_inv fmt (worker0 nonce)" by (simp add: seq_inv_def worker0_def)
qed

section \<open>A failed connection attempt\<close>

text \<open>Nothing but the disconnect callback, a successful connection or the exit changes a worker that
  has a context, no timer and is not ready.\<close>

definition idle_conn :: "nat \<Rightarrow> worker \<Rightarrow> bool" where
  "idle_conn ac w \<longleftrightarrow> wk_context w = Some ac \<and> wk_timer w = None \<and> \<not> wk_ready w"

lemma idle_request: "idle_conn ac w \<Longrightarrow> request_side now w w' \<Longrightarrow> idle_conn ac w'"
  by (simp add: idle_conn_def request_side_def same_conn_def)

lemma connected_failed: "ea_redis_connect_callback rcf script fmt False q_auth q_select q_script w = w \<lparr> wk_ready := False \<rparr>"
  by (simp add: ea_redis_connect_callback_def)

lemma handshake_conn:
  "wk_context (ea_redis_handshake_callback ac reply w) = wk_context w"
  "wk_timer (ea_redis_handshake_callback ac reply w) = wk_timer w"
  "wk_ready (ea_redis_handshake_callback ac reply w) \<Longrightarrow> wk_ready w"
  by (simp_all add: ea_redis_handshake_callback_def split: option.splits redis_reply.splits)

lemma idle_step:
  assumes "worker_step E fmt sha script rcf s l s'" "wk_inv s" "idle_conn ac (snd s)"
    and "l \<notin> {WL_DISCONNECT, WL_CONNECTED True, WL_EXIT}"
  shows "idle_conn ac (snd s')"
proof -
  have b: "breaker_inv (fst s) (snd s)" using assms(2) by (simp add: wk_inv_def)
  show ?thesis using assms(1)
  proof cases
    case (ws_check t now z alloc queue_ok w ctx rc w' ctx' parked)
    then show ?thesis using check_step b assms(3) idle_request by fastforce
  next
    case (ws_reply t now z reply w ctx w' ctx')
    then show ?thesis using reply_step b assms(3) idle_request by fastforce
  next
    case (ws_record t now z alloc w ctx w' ctx')
    then show ?thesis using record_step b assms(3) idle_request by fastforce
  next
    case (ws_record_reply t now reply w w')
    then show ?thesis using record_reply_step b assms(3) idle_request by fastforce
  next
    case (ws_handshake t now w ac' reply)
    then show ?thesis using assms(3) handshake_conn[of ac' reply w] by (auto simp: idle_conn_def)
  next
    case (ws_connected t now w ok q_auth q_select q_script)
    then show ?thesis using assms(3,4) by (cases ok) (auto simp: idle_conn_def connected_failed)
  next
    case (ws_timer t now w c rnd)
    then show ?thesis using assms(3) by (simp add: idle_conn_def)
  qed (use assms(4) in auto)
qed

lemma idle_run:
  assumes "worker_run E fmt sha script rcf s tr s'" "wk_inv s" "idle_conn ac (snd s)"
    and "set tr \<inter> {WL_DISCONNECT, WL_CONNECTED True, WL_EXIT} = {}"
  shows "wk_inv s' \<and> idle_conn ac (snd s')"
  using assms
proof (induction rule: run.induct)
  case (run_snoc s tr s' l s'')
  then have "wk_inv s'" "idle_conn ac (snd s')" by auto
  with idle_step[OF run_snoc(2) this] worker_step_inv[OF this(1) run_snoc(2)] run_snoc.prems(3) show ?case by auto
qed simp

section \<open>A concrete worker\<close>

text \<open>Decimal digits, as nginx's formatting is documented.\<close>

fun digits :: "nat \<Rightarrow> bytes" where
  "digits n = (if n < 10 then [of_nat (48 + n)] else digits (n div 10) @ [of_nat (48 + n mod 10)])"

declare digits.simps [simp del]

definition ref_fmt :: "int \<Rightarrow> bytes" where
  "ref_fmt v = digits (nat v)"

lemma digit_byte: "d < 10 \<Longrightarrow> uint (of_nat (48 + d) :: byte) = 48 + int d"
  by (simp add: uint_nat unat_of_nat del: of_nat_add)

lemma digit_is_digit: "d < 10 \<Longrightarrow> is_digit (of_nat (48 + d))"
  using digit_byte[of d] by (simp add: is_digit_def word_le_def del: of_nat_add)

lemma digits_doc: "digits n \<noteq> [] \<and> list_all is_digit (digits n) \<and> dec_value (digits n) = int n"
proof (induction n rule: digits.induct)
  case (1 n)
  show ?case
  proof (cases "n < 10")
    case True
    have "digits n = [of_nat (48 + n)]" using True digits.simps[of n] by simp
    then show ?thesis using digit_byte[OF True] digit_is_digit[OF True] by (simp add: dec_value_def del: of_nat_add)
  next
    case False
    have d: "digits n = digits (n div 10) @ [of_nat (48 + n mod 10)]" using False digits.simps[of n] by simp
    have "n mod 10 < 10" by simp
    then have "uint (of_nat (48 + n mod 10) :: byte) = 48 + int (n mod 10)" "is_digit (of_nat (48 + n mod 10))"
      using digit_byte digit_is_digit by blast+
    then show ?thesis using 1[OF False] unfolding d dec_value_def
      by (simp del: of_nat_add) (simp add: zdiv_int zmod_int flip: of_nat_add)
  qed
qed

lemma digits_length: "0 < k \<Longrightarrow> n < 10 ^ k \<Longrightarrow> length (digits n) \<le> k"
proof (induction n arbitrary: k rule: digits.induct)
  case (1 n)
  show ?case
  proof (cases "n < 10")
    case True
    then show ?thesis using "1.prems" digits.simps[of n] by simp
  next
    case False
    then have d: "digits n = digits (n div 10) @ [of_nat (48 + n mod 10)]" using digits.simps[of n] by simp
    obtain j where k: "k = Suc j" "0 < j" using "1.prems" False by (cases k; cases "k - 1") auto
    have "n div 10 < 10 ^ j" using "1.prems"(2) k(1) by (simp add: less_mult_imp_div_less)
    then show ?thesis using "1.IH"[OF False k(2)] d k(1) by simp
  qed
qed

lemma ref_fmt_doc: "fmt_doc ref_fmt"
  unfolding fmt_doc_def ref_fmt_def using digits_doc digits_length by (auto simp: nat_less_iff)

definition ex_rcf :: redis_conf where
  "ex_rcf = \<lparr> rd_host = [104], rd_sni = [104], rd_prefix = [112], rd_user = [], rd_password = [], rd_port = 6379,
     rd_db = 0, rd_timeout = 100, rd_tls = False, rd_configured = True \<rparr>"

definition ex_ctx :: req_ctx where
  "ex_ctx = \<lparr> rx_zone = Some 0, rx_key = ex_key, rx_log_key = [], rx_redis_events = [], rx_redis_block = [],
     rx_count = 0, rx_blocked_until = 0, rx_state = PASSED, rx_response_seen = False, rx_own_rejection = False,
     rx_dry_run = False, rx_redis_pending = False, rx_redis_checked = False, rx_redis_blocked = False,
     rx_from_anchor = False \<rparr>"

definition ex_mem :: "nat \<Rightarrow> bytes option" where
  "ex_mem n = Some (replicate n 0)"

definition ex_worker :: worker where
  "ex_worker = (worker0 9) \<lparr> wk_context := Some 1, wk_ready := True \<rparr>"

lemma ex_mem_doc: "alloc_doc ex_mem" "ex_mem n \<noteq> None"
  by (auto simp: alloc_doc_def ex_mem_def)

lemma ex_ctx_cache: "cache_ok ex_rcf ex_zone ex_ctx"
  by (simp add: cache_ok_def ex_ctx_def)

lemma ex_worker_available: "0 \<le> now \<Longrightarrow> ea_redis_available ex_worker now"
  by (simp add: ea_redis_available_def ex_worker_def worker0_def)

lemma ex_worker_inv: "wk_inv (1000, ex_worker)"
  by (simp add: wk_inv_def breaker_inv_def conn_inv_def ex_worker_def worker0_def redis_consts sat_add_def ea_time_max_def)

section \<open>Properties\<close>

text \<open>Recording in Redis is defined and sends at most one command.  If the connection may be
  used and memory can be had, it is EVALSHA with the two keys of the client, the window, the ban and
  the inactive time in milliseconds and the threshold, all in decimal and not cut short, and a nonce
  of the worker's number and the next sequence number; otherwise nothing at all is changed.\<close>

theorem redis_record_correct:
  assumes "fmt_doc fmt" "alloc_doc alloc" "cache_ok rcf z ctx" "wf_zone z"
  shows "\<exists>w' ctx'. ea_redis_record fmt sha rcf z now alloc w ctx = Some (w', ctx')
     \<and> (w' = w \<and> ctx' = ctx \<and> (\<not> ea_redis_available w now \<or> (\<exists>n. alloc n = None))
        \<or> ea_redis_available w now
        \<and> ctx' = ctx \<lparr> rx_redis_events := events_key rcf z (rx_key ctx), rx_redis_block := block_key rcf z (rx_key ctx) \<rparr>
        \<and> w' = w \<lparr> wk_sequence := wk_sequence w + 1,
                   wk_calls := wk_calls w @ [script_command fmt sha rcf z (rx_key ctx) (wk_nonce w) (wk_sequence w + 1)] \<rparr>)"
  by (rule record_exact[OF assms])

theorem redis_record_correct_witness:
  "\<exists>w' ctx'. ea_redis_record ref_fmt [] ex_rcf ex_zone 1000 ex_mem ex_worker ex_ctx = Some (w', ctx')
     \<and> wk_calls w' = [script_command ref_fmt [] ex_rcf ex_zone ex_key 9 1]"
  using redis_record_correct[OF ref_fmt_doc ex_mem_doc(1) ex_ctx_cache ex_zone_wf, of "[]" 1000 ex_worker]
    ex_worker_available[of 1000] ex_mem_doc(2)
  by (auto simp: ex_worker_def worker0_def ex_ctx_def)

text \<open>C28. What Redis answers can ban a client for no longer than the zone's ban time.  The callback
  is defined for every reply, the client counts as banned exactly if the reply is a string, and then
  the deadline is positive, at most the ban time from now, and the reply's own number whenever that
  is in this range; a missing or malformed reply never bans, and no reply leaves the request parked.\<close>

theorem redis_ban_bounded:
  assumes "atoi_doc E" "wf_zone z" "clock_ok now"
  shows "\<exists>w' ctx'. ea_redis_check_callback E z now reply w ctx = Some (w', ctx')
     \<and> \<not> rx_redis_pending ctx' \<and> rx_redis_checked ctx'
     \<and> (rx_redis_blocked ctx' \<longleftrightarrow> (\<exists>str. reply = Some (R_STRING str)))
     \<and> (\<forall>str. reply = Some (R_STRING str) \<longrightarrow>
          0 < rx_blocked_until ctx' \<and> rx_blocked_until ctx' \<le> sat_add now (z_block z)
          \<and> (str \<noteq> [] \<and> list_all is_digit str \<and> 0 < dec_value str \<and> dec_value str \<le> sat_add now (z_block z)
               \<longrightarrow> rx_blocked_until ctx' = dec_value str))"
proof -
  have c: "0 \<le> now" "now < TIME_MAX" "now < 2 ^ 63" using clock_okD[OF assms(3)] by simp_all
  obtain wf where wf: "ea_redis_record_failure w now = Some wf" using record_failure_total c by blast
  have s: "ea_time_add_saturate now (z_block z) = Some (sat_add now (z_block z))"
    using c by (simp add: time_add_saturate_eq)
  have p: "0 < sat_add now (z_block z)" "sat_add now (z_block z) < 2 ^ 63"
    using sat_add_range[OF c(1), of "z_block z"] c assms(2) by (simp_all add: sat_add_def wf_zone_def)
  show ?thesis
  proof (cases reply)
    case None
    then show ?thesis using wf by (simp add: ea_redis_check_callback_def)
  next
    case (Some r)
    show ?thesis
    proof (cases r)
      case (R_STRING str)
      have "ngx_atoi E str = dec_value str"
        if "str \<noteq> []" "list_all is_digit str" "dec_value str \<le> sat_add now (z_block z)"
        using that assms(1) p(2) by (auto simp: atoi_doc_def)
      then show ?thesis using Some R_STRING s p by (auto simp: ea_redis_check_callback_def Let_def)
    qed (use Some wf in \<open>simp_all add: ea_redis_check_callback_def\<close>)
  qed
qed

theorem redis_ban_bounded_witness:
  "\<exists>w' ctx'. ea_redis_check_callback ref_ngx ex_zone 1000 (Some (R_STRING [57, 57, 57, 57, 57])) ex_worker ex_ctx
     = Some (w', ctx') \<and> rx_redis_blocked ctx' \<and> rx_blocked_until ctx' \<le> 1600"
  using redis_ban_bounded[OF ref_atoi_doc ex_zone_wf ex_clock(1),
      of "Some (R_STRING [57, 57, 57, 57, 57])" ex_worker ex_ctx] by auto

text \<open>C17. The circuit breaker.  If a worker has seen four failures in a row, the fifth, at time
  \<open>now\<close>, opens the breaker for thirty seconds: whatever the worker and hiredis do next, in any order,
  until then no check and no recording is sent, every check is declined at once, and a recording changes
  nothing.  The connection is not affected: a new one may still authenticate, select its database and
  load the script.\<close>

theorem circuit_breaker:
  assumes "wk_inv (t, w)" "t \<le> now" "clock_ok now" "wk_failures w + 1 = BREAKER_THRESHOLD"
    and "ea_redis_record_failure w now = Some w'"
    and "worker_run E fmt sha script rcf (now, w') tr (t2, w2)" "t2 \<le> u" "t2 < sat_add now 30" "u < sat_add now 30"
  shows "(\<exists>cs. wk_calls w2 = wk_calls w' @ cs \<and> (\<forall>c \<in> set cs. \<not> command_is ''GET'' c \<and> \<not> command_is ''EVALSHA'' c))
    \<and> ea_redis_record fmt' sha' rcf' z u alloc w2 ctx = Some (w2, ctx)
    \<and> ea_redis_check rcf' z u alloc queue_ok w2 ctx
       = Some (if rx_redis_pending ctx then (NGX_AGAIN, w2, ctx, False)
               else (NGX_DECLINED, w2, ctx \<lparr> rx_redis_checked := True \<rparr>, False))"
proof -
  have b: "breaker_inv t w" "conn_inv w" using assms(1) by (simp_all add: wk_inv_def)
  have "kept now w w'" using kept_request[OF b(2) request_side_failure[OF b(1) assms(2,3,5)]] .
  then have inv: "wk_inv (now, w')" using assms(3) by (simp add: wk_inv_def kept_def clock_ok_def)
  have "wk_failures w < BREAKER_THRESHOLD" using b(1) by (simp add: breaker_inv_def)
  from record_failure_eq[OF assms(3) this] have "wk_breaker_until w' = sat_add now 30"
    using assms(4,5) by (auto simp: redis_consts)
  then have "sat_add now 30 \<le> wk_breaker_until w2" "unasked w' w2"
    using wk.run_duty[OF assms(6) inv, of "sat_add now 30"] unasked_run[OF assms(6) inv, of "sat_add now 30"] assms(8) by simp_all
  then have "\<not> ea_redis_available w2 u" using assms(9) by (simp add: ea_redis_available_def)
  then show ?thesis using \<open>unasked w' w2\<close> by (simp add: ea_redis_record_def ea_redis_check_def unasked_def of_clients_def)
qed

theorem circuit_breaker_witness:
  "\<exists>w'. ea_redis_record_failure (ex_worker \<lparr> wk_failures := 4 \<rparr>) 1000 = Some w'
     \<and> ea_redis_record ref_fmt [] ex_rcf ex_zone 1029 ex_mem w' ex_ctx = Some (w', ex_ctx)"
proof -
  let ?w = "ex_worker \<lparr> wk_failures := 4 \<rparr>"
  have i: "wk_inv (1000, ?w)" 
    by (simp add: wk_inv_def breaker_inv_def conn_inv_def ex_worker_def worker0_def redis_consts sat_add_def ea_time_max_def)
  obtain w' where w': "ea_redis_record_failure ?w 1000 = Some w'" using record_failure_total[of 1000 ?w] by (auto simp: ea_time_max_def)
  have "worker_run ref_ngx ref_fmt [] [] ex_rcf (1000, w') [] (1000, w')" by (rule run_Nil)
  from circuit_breaker[OF i _ ex_clock(1) _ w' this, of 1029, THEN conjunct2, THEN conjunct1] w' show ?thesis
    by (auto simp: redis_consts sat_add_def ea_time_max_def)
qed

text \<open>The delay that an armed timer gets: three quarters of the base and up to half of it at random; the base
  is the last backoff, one second at first, and the next one is twice as long, thirty seconds at most.\<close>

definition next_try :: "worker \<Rightarrow> worker \<Rightarrow> bool" where
  "next_try w w' \<longleftrightarrow> (let base = (if wk_backoff w = 0 then 1000 else wk_backoff w) in
     wk_backoff w' = min 30000 (2 * base)
     \<and> (\<exists>d. wk_timer w' = Some d \<and> base - base div 4 \<le> d \<and> d \<le> base - base div 4 + base div 2))"

lemma arm_next_try:
  assumes "wk_backoff w \<le> 30000" "\<not> wk_exiting w" "wk_timer w = None"
  shows "next_try w (ea_redis_arm_reconnect rnd w)"
proof -
  define base where "base = (if wk_backoff w = 0 then 1000 else wk_backoff w)"
  have base: "base \<le> 30000" using assms(1) by (simp add: base_def)
  define jitter where "jitter = rnd mod (base div 2 + 1)"
  have j: "jitter \<le> base div 2" by (simp add: jitter_def)
  have m: "(base - base div 4 + jitter) mod 2 ^ 64 = base - base div 4 + jitter" "base * 2 mod 2 ^ 64 = base * 2"
    using base j by simp_all
  have b: "(if wk_backoff w \<noteq> 0 then wk_backoff w else RECONNECT) = base" by (simp add: base_def RECONNECT_def)
  have "ea_redis_arm_reconnect rnd w = w \<lparr> wk_backoff := (if base * 2 > RECONNECT_MAX then RECONNECT_MAX else base * 2),
      wk_timer := Some (base - base div 4 + jitter) \<rparr>"
    unfolding ea_redis_arm_reconnect_def Let_def b jitter_def [symmetric] m using assms(2,3) by simp
  then have e: "wk_backoff (ea_redis_arm_reconnect rnd w) = min 30000 (2 * base)"
    "wk_timer (ea_redis_arm_reconnect rnd w) = Some (base - base div 4 + jitter)"
    by (simp_all add: RECONNECT_MAX_def)
  show ?thesis unfolding next_try_def Let_def base_def [symmetric] e
    using j by (intro conjI exI[of _ "base - base div 4 + jitter"] refl add_left_mono) simp_all
qed

lemma next_try_same: "wk_backoff w1 = wk_backoff w \<Longrightarrow> next_try w1 w' \<Longrightarrow> next_try w w'"
  by (simp only: next_try_def)

lemma reconnect_next_try:
  assumes "conn_inv w" "\<not> wk_exiting w" "fst (ea_redis_connect rcf c w) \<noteq> NGX_OK"
  shows "next_try w (ea_redis_reconnect rcf c rnd (w \<lparr> wk_timer := None \<rparr>))"
proof (cases rule: connect_cases[of rcf c "w \<lparr> wk_timer := None \<rparr>", case_names failed started])
  case (failed w')
  then have w': "wk_backoff w' = wk_backoff w" "\<not> wk_exiting w'" "wk_timer w' = None"
    using assms(2) by (auto simp: connect_failed_def same_conn_def)
  have "wk_backoff w \<le> 30000" using assms(1) by (simp add: conn_inv_def redis_consts)
  then have "next_try w (ea_redis_arm_reconnect rnd w')" using next_try_same[OF w'(1) arm_next_try] w' by simp
  then show ?thesis using failed(1) assms(2) by (simp add: ea_redis_reconnect_def)
next
  case (started ac w')
  have "fst (ea_redis_connect rcf c w) = fst (ea_redis_connect rcf c (w \<lparr> wk_timer := None \<rparr>))"
    by (cases c) (simp_all add: ea_redis_connect_def Let_def)
  then show ?thesis using started(1) assms(3) by simp
qed

lemma disconnect_next_try:
  assumes "conn_inv w" "\<not> wk_exiting w" "wk_timer w = None"
  shows "next_try w (ea_redis_disconnect_callback rnd w)"
proof -
  have "wk_backoff w \<le> 30000" using assms(1) by (simp add: conn_inv_def redis_consts)
  then have "next_try (w \<lparr> wk_context := None, wk_ready := False \<rparr>)
      (ea_redis_arm_reconnect rnd (w \<lparr> wk_context := None, wk_ready := False \<rparr>))"
    using assms(2,3) by (intro arm_next_try) simp_all
  from next_try_same[OF _ this] show ?thesis by (simp add: ea_redis_disconnect_callback_def)
qed

text \<open>C31. A lost connection is tried again, with a backoff.  From \<^verbatim>\<open>init_process\<close> on, through every
  interleaving: a worker that goes on and has no context has the reconnect timer set, for 0.75 to 37.5
  seconds; a worker that exits has neither a context nor a timer.  When hiredis reports that the connection
  is lost, and when an attempt fails at once, the next attempt is scheduled with a delay of three to five
  quarters of the backoff, which doubles from one second up to thirty; a connection that is up starts it
  over.  An attempt that fails later, in the connect callback, is not among these: it keeps its context
  and schedules nothing.\<close>

theorem redis_connection_life:
  assumes "0 \<le> t0" "worker_run E fmt sha script rcf (t0, ea_redis_init_process rcf nonce c rnd) tr (t, w)"
  shows "(wk_exiting w \<longrightarrow> wk_context w = None \<and> wk_timer w = None)
    \<and> (\<not> wk_exiting w \<and> wk_context w = None \<longrightarrow> (\<exists>d. wk_timer w = Some d \<and> 750 \<le> d \<and> d \<le> 37500))
    \<and> (\<not> wk_exiting w \<and> wk_timer w = None \<longrightarrow> next_try w (ea_redis_disconnect_callback rnd' w))
    \<and> (\<not> wk_exiting w \<and> wk_timer w \<noteq> None \<longrightarrow> wk_timer (ea_redis_disconnect_callback rnd' w) = wk_timer w)
    \<and> (\<not> wk_exiting w \<and> fst (ea_redis_connect rcf c' w) \<noteq> NGX_OK \<longrightarrow>
         next_try w (ea_redis_reconnect rcf c' rnd' (w \<lparr> wk_timer := None \<rparr>)))
    \<and> wk_backoff (ea_redis_connect_callback rcf script fmt True True True True w) = 0"
proof -
  have "wk_inv (t, w)" using wk.run_inv[OF assms(2) init_process_inv[OF assms(1)]] .
  then have c: "conn_inv w" by (simp add: wk_inv_def)
  have "wk_exiting w \<longrightarrow> wk_context w = None \<and> wk_timer w = None"
    "\<not> wk_exiting w \<and> wk_context w = None \<longrightarrow> (\<exists>d. wk_timer w = Some d \<and> 750 \<le> d \<and> d \<le> 37500)"
    using c by (auto simp: conn_inv_def)
  moreover have "wk_timer (ea_redis_disconnect_callback rnd' w) = wk_timer w" if "wk_timer w \<noteq> None"
    using that by (simp add: ea_redis_disconnect_callback_def ea_redis_arm_reconnect_def)
  moreover have "wk_backoff (ea_redis_connect_callback rcf script fmt True True True True w) = 0"
    by (simp add: ea_redis_connect_callback_def Let_def)
  ultimately show ?thesis using disconnect_next_try[OF c] reconnect_next_try[OF c] by blast
qed

theorem redis_connection_life_witness:
  "next_try (ea_redis_init_process ex_rcf 9 CONN_NULL 7)
     (ea_redis_reconnect ex_rcf CONN_NULL 3 ((ea_redis_init_process ex_rcf 9 CONN_NULL 7) \<lparr> wk_timer := None \<rparr>))"
proof -
  have "worker_run ref_ngx ref_fmt [] [] ex_rcf (0, ea_redis_init_process ex_rcf 9 CONN_NULL 7) []
      (0, ea_redis_init_process ex_rcf 9 CONN_NULL 7)" by (rule run_Nil)
  from redis_connection_life[OF _ this, where c' = CONN_NULL and rnd' = 3] show ?thesis
    by (simp add: ea_redis_init_process_def ea_redis_connect_def ea_redis_arm_reconnect_def worker0_def redis_consts)
qed

text \<open>C38. No event is stored twice under one member: within the life of a worker, any interleaving
  sends EVALSHA commands with pairwise different nonces, each beginning with the worker's own number,
  until the 64-bit sequence number wraps.\<close>

theorem nonces_unique:
  assumes "fmt_doc fmt" "worker_run E fmt sha script rcf (t0, ea_redis_init_process rcf nonce c rnd) tr (t, w)"
    and "length (nonces (wk_calls w)) < 2 ^ 64"
  shows "distinct (nonces (wk_calls w)) \<and> (\<forall>x \<in> set (nonces (wk_calls w)). \<exists>s. x = nonce_text fmt (wk_nonce w) s)"
proof -
  define n where "n = length (nonces (wk_calls w))"
  have "seq_inv fmt w" using seq_run[OF assms(2,1)] seq_inv_init by simp
  then have e: "nonces (wk_calls w) = map (\<lambda>i. nonce_text fmt (wk_nonce w) (of_nat (Suc i))) [0..<n]"
    by (simp add: seq_inv_def n_def)
  have "inj_on (\<lambda>i. nonce_text fmt (wk_nonce w) (of_nat (Suc i))) {0..<n}"
  proof (rule inj_onI)
    fix i j assume ij: "i \<in> {0..<n}" "j \<in> {0..<n}"
      "nonce_text fmt (wk_nonce w) (of_nat (Suc i)) = nonce_text fmt (wk_nonce w) (of_nat (Suc j))"
    then have "(of_nat (Suc i) :: 64 word) = of_nat (Suc j)" using nonce_text_inj[OF assms(1)] by blast
    then have "unat (of_nat i :: 64 word) = unat (of_nat j :: 64 word)" by simp
    moreover have "i < 2 ^ 64" "j < 2 ^ 64" using ij(1,2) assms(3) by (simp_all add: n_def)
    ultimately show "i = j" by (simp add: unat_of_nat)
  qed
  then show ?thesis unfolding e by (auto simp: distinct_map)
qed

theorem nonces_unique_witness:
  "\<exists>w' ctx'. ea_redis_record ref_fmt [] ex_rcf ex_zone 1000 ex_mem
      (ea_redis_connect_callback ex_rcf [] ref_fmt True True True True (ea_redis_init_process ex_rcf 9 (CONN 1 True True True) 0)) ex_ctx
    = Some (w', ctx') \<and> length (nonces (wk_calls w')) = 1 \<and> distinct (nonces (wk_calls w'))"
proof -
  define w0 where "w0 = ea_redis_init_process ex_rcf 9 (CONN 1 True True True) 0"
  define w1 where "w1 = ea_redis_connect_callback ex_rcf [] ref_fmt True True True True w0"
  have w0: "w0 = (worker0 9) \<lparr> wk_context := Some 1 \<rparr>"
    by (simp add: w0_def ea_redis_init_process_def ea_redis_connect_def ex_rcf_def)
  have w1: "wk_context w1 = Some 1" "wk_ready w1" "wk_breaker_until w1 = 0" "nonces (wk_calls w1) = []"
    by (simp_all add: w1_def w0 ea_redis_connect_callback_def ex_rcf_def worker0_def)
  then have av: "ea_redis_available w1 1000" by (simp add: ea_redis_available_def)
  obtain w' ctx' where r: "ea_redis_record ref_fmt [] ex_rcf ex_zone 1000 ex_mem w1 ex_ctx = Some (w', ctx')"
    "length (nonces (wk_calls w')) = 1"
    using record_exact[OF ref_fmt_doc ex_mem_doc(1) ex_ctx_cache ex_zone_wf, of "[]" 1000 w1] av ex_mem_doc(2) w1(4)
    by (auto simp: script_command_def)
  have "worker_run ref_ngx ref_fmt [] [] ex_rcf (1000, w0) [] (1000, w0)" by (rule run_Nil)
  from run_snoc[OF this ws_connected] have "worker_run ref_ngx ref_fmt [] [] ex_rcf (1000, w0) [WL_CONNECTED True] (1000, w1)"
    unfolding w1_def by simp
  from run_snoc[OF this ws_record[OF _ _ r(1)]]
  have "worker_run ref_ngx ref_fmt [] [] ex_rcf (1000, w0) [WL_CONNECTED True, WL_RECORD] (1000, w')" by simp
  from nonces_unique[OF ref_fmt_doc this[unfolded w0_def], THEN conjunct1] r show ?thesis by (auto simp: w1_def w0_def)
qed

text \<open>A connection attempt that fails asynchronously is not retried.  If the connect callback
  reports a failure while no reconnection is scheduled, the worker keeps the context it had, schedules
  nothing, and stays so through every interleaving of checks, recordings, replies and timers: only the
  disconnect callback, a successful connection or the end of the process changes that, and every
  check in the meantime is declined.\<close>

theorem failed_connect_waits:
  assumes "wk_inv (t, w)" "wk_context w = Some ac" "wk_timer w = None"
    and "worker_run E fmt sha script rcf (t, ea_redis_connect_callback rcf script fmt False q1 q2 q3 w) tr (t2, w2)"
    and "set tr \<inter> {WL_DISCONNECT, WL_CONNECTED True, WL_EXIT} = {}"
  shows "wk_context w2 = Some ac \<and> wk_timer w2 = None \<and> \<not> ea_redis_available w2 u"
proof -
  have "wk_inv (t, ea_redis_connect_callback rcf script fmt False q1 q2 q3 w)"
    using assms(1) connected_inv[of w rcf script fmt False q1 q2 q3] by (simp add: wk_inv_def connected_failed breaker_inv_def)
  moreover have "idle_conn ac (ea_redis_connect_callback rcf script fmt False q1 q2 q3 w)"
    using assms(2,3) by (simp add: idle_conn_def connected_failed)
  ultimately show ?thesis using idle_run[OF assms(4) _ _ assms(5), of ac] by (simp add: idle_conn_def ea_redis_available_def)
qed

theorem failed_connect_waits_witness:
  "let w = ea_redis_connect_callback ex_rcf [] ref_fmt False True True True (ex_worker \<lparr> wk_ready := False \<rparr>)
   in wk_context w = Some 1 \<and> wk_timer w = None \<and> \<not> ea_redis_available w 1000"
proof -
  let ?w = "ex_worker \<lparr> wk_ready := False \<rparr>"
  let ?v = "ea_redis_connect_callback ex_rcf [] ref_fmt False True True True ?w"
  have i: "wk_inv (1000, ?w)"
    by (simp add: wk_inv_def breaker_inv_def conn_inv_def ex_worker_def worker0_def redis_consts sat_add_def ea_time_max_def)
  have "worker_run ref_ngx ref_fmt [] [] ex_rcf (1000, ?v) [] (1000, ?v)" by (rule run_Nil)
  from failed_connect_waits[OF i _ _ this, of 1 1000] show ?thesis by (simp add: ex_worker_def worker0_def)
qed

end
