(* ===== verification/EA_Script.thy ===== *)
theory EA_Script
  imports EA_Remote
begin

text \<open>
  The other side of the Redis worker: the script it sends, as Redis runs it on the keys of a client, and
  what every server that shares this Redis then reads.  The script is the sliding window of the engine in
  milliseconds, counted by Redis's own clock.
\<close>

section \<open>The script\<close>

text \<open>The commands of Redis the module uses, each with the time at which Redis runs it: on a sorted set
  \<^verbatim>\<open>ZREMRANGEBYSCORE key -inf max\<close>, \<^verbatim>\<open>ZADD key score member\<close>, \<^verbatim>\<open>ZCARD\<close>, \<^verbatim>\<open>PEXPIRE\<close> and \<^verbatim>\<open>DEL\<close>, on a string
  \<^verbatim>\<open>SET key value PX ms\<close> and \<^verbatim>\<open>GET\<close>.\<close>

record 'd redis_ops =
  ro_zremrange :: "int \<Rightarrow> bytes \<Rightarrow> int \<Rightarrow> 'd \<Rightarrow> 'd"
  ro_zadd :: "int \<Rightarrow> bytes \<Rightarrow> int \<Rightarrow> bytes \<Rightarrow> 'd \<Rightarrow> 'd"
  ro_zcard :: "int \<Rightarrow> bytes \<Rightarrow> 'd \<Rightarrow> int"
  ro_pexpire :: "int \<Rightarrow> bytes \<Rightarrow> int \<Rightarrow> 'd \<Rightarrow> 'd"
  ro_del :: "int \<Rightarrow> bytes \<Rightarrow> 'd \<Rightarrow> 'd"
  ro_set_px :: "int \<Rightarrow> bytes \<Rightarrow> bytes \<Rightarrow> int \<Rightarrow> 'd \<Rightarrow> 'd"
  ro_get :: "int \<Rightarrow> bytes \<Rightarrow> 'd \<Rightarrow> redis_reply"

text \<open>\<open>now\<close> is Redis's \<^verbatim>\<open>TIME\<close> in milliseconds, \<open>fmt\<close> the text of a number.\<close>

definition ea_record_script ::
  "'d redis_ops \<Rightarrow> (int \<Rightarrow> bytes) \<Rightarrow> int \<Rightarrow> bytes \<Rightarrow> bytes \<Rightarrow> int \<Rightarrow> int \<Rightarrow> int \<Rightarrow> int \<Rightarrow> bytes \<Rightarrow> 'd \<Rightarrow> redis_reply \<times> 'd" where
  "ea_record_script R fmt now events block interval threshold block_ms inactive nonce d =
     (let d = ro_zremrange R now events (now - interval) d;
          d = ro_zadd R now events now (fmt now @ ascii '':'' @ nonce) d;
          n = ro_zcard R now events d;
          d = ro_pexpire R now events inactive d
      in if n \<ge> threshold
         then let deadline = (now + block_ms) div 1000;
                  d = ro_set_px R now block (fmt deadline) block_ms d
              in (R_ARRAY [R_INTEGER 1, R_INTEGER n, R_INTEGER deadline], ro_del R now events d)
         else (R_ARRAY [R_INTEGER 0, R_INTEGER n], d))"

text \<open>A command of the worker at Redis; others than these two are no concern here.\<close>

definition redis_exec :: "'d redis_ops \<Rightarrow> (int \<Rightarrow> bytes) \<Rightarrow> int \<Rightarrow> hcall \<Rightarrow> 'd \<Rightarrow> redis_reply \<times> 'd" where
  "redis_exec R fmt now c d =
     (case c of
        H_COMMAND [_, _, _, events, block, interval, threshold, block_ms, inactive, nonce] \<Rightarrow>
          ea_record_script R fmt now events block (dec_value interval) (dec_value threshold) (dec_value block_ms)
            (dec_value inactive) nonce d
      | H_COMMAND [_, k] \<Rightarrow> (ro_get R now k d, d)
      | _ \<Rightarrow> (R_NIL, d))"

section \<open>What the commands are documented to do\<close>

text \<open>The sorted sets, their members with the scores, and the strings; a key that expires has the
  millisecond from which on it is not there.  A set without members is no key.\<close>

record rdb =
  db_set :: "bytes \<Rightarrow> (bytes \<times> int) list"
  db_set_end :: "bytes \<Rightarrow> int option"
  db_str :: "bytes \<Rightarrow> (bytes \<times> int) option"

definition live_set :: "int \<Rightarrow> bytes \<Rightarrow> rdb \<Rightarrow> (bytes \<times> int) list" where
  "live_set now k db = (case db_set_end db k of Some e \<Rightarrow> if e \<le> now then [] else db_set db k | None \<Rightarrow> db_set db k)"

text \<open>The set becomes \<open>s\<close>, with the expiry it had if it was there and still is.\<close>

definition put_set :: "int \<Rightarrow> bytes \<Rightarrow> (bytes \<times> int) list \<Rightarrow> rdb \<Rightarrow> rdb" where
  "put_set now k s db = db \<lparr> db_set := (db_set db)(k := s),
     db_set_end := (db_set_end db)(k := if s = [] \<or> live_set now k db = [] then None else db_set_end db k) \<rparr>"

definition zadd :: "int \<Rightarrow> bytes \<Rightarrow> (bytes \<times> int) list \<Rightarrow> (bytes \<times> int) list" where
  "zadd score m s = filter (\<lambda>x. fst x \<noteq> m) s @ [(m, score)]"

definition ref_redis :: "rdb redis_ops" where
  "ref_redis = \<lparr>
     ro_zremrange = (\<lambda>now k mx db. put_set now k (filter (\<lambda>x. \<not> snd x \<le> mx) (live_set now k db)) db),
     ro_zadd = (\<lambda>now k score m db. put_set now k (zadd score m (live_set now k db)) db),
     ro_zcard = (\<lambda>now k db. int (length (live_set now k db))),
     ro_pexpire = (\<lambda>now k ms db. if live_set now k db = [] then db else db \<lparr> db_set_end := (db_set_end db)(k \<mapsto> now + ms) \<rparr>),
     ro_del = (\<lambda>now k db. db \<lparr> db_set := (db_set db)(k := []), db_set_end := (db_set_end db)(k := None) \<rparr>),
     ro_set_px = (\<lambda>now k v ms db. db \<lparr> db_str := (db_str db)(k \<mapsto> (v, now + ms)) \<rparr>),
     ro_get = (\<lambda>now k db. case db_str db k of Some (v, e) \<Rightarrow> if e \<le> now then R_NIL else R_STRING v | None \<Rightarrow> R_NIL) \<rparr>"

text \<open>A Redis that behaves like this, seen through \<open>view\<close>.\<close>

definition redis_doc :: "'d redis_ops \<Rightarrow> ('d \<Rightarrow> rdb) \<Rightarrow> bool" where
  "redis_doc R view \<longleftrightarrow> (\<forall>now k d.
       (\<forall>mx. view (ro_zremrange R now k mx d) = ro_zremrange ref_redis now k mx (view d))
     \<and> (\<forall>score m. view (ro_zadd R now k score m d) = ro_zadd ref_redis now k score m (view d))
     \<and> ro_zcard R now k d = ro_zcard ref_redis now k (view d)
     \<and> (\<forall>ms. view (ro_pexpire R now k ms d) = ro_pexpire ref_redis now k ms (view d))
     \<and> view (ro_del R now k d) = ro_del ref_redis now k (view d)
     \<and> (\<forall>v ms. view (ro_set_px R now k v ms d) = ro_set_px ref_redis now k v ms (view d))
     \<and> ro_get R now k d = ro_get ref_redis now k (view d))"

lemma ref_redis_doc: "redis_doc ref_redis (\<lambda>db. db)"
  by (simp add: redis_doc_def)

lemma exec_view:
  assumes "redis_doc R view"
  shows "fst (redis_exec R fmt now c d) = fst (redis_exec ref_redis fmt now c (view d))"
    and "view (snd (redis_exec R fmt now c d)) = snd (redis_exec ref_redis fmt now c (view d))"
  using assms unfolding redis_doc_def redis_exec_def ea_record_script_def
  by (simp_all add: Let_def split: hcall.split list.split)

lemma live_put [simp]: "live_set now k (put_set now k s db) = s"
  by (auto simp: live_set_def put_set_def split: option.splits)

lemma put_set_sel [simp]:
  "db_set (put_set now k s db) = (db_set db)(k := s)" "db_str (put_set now k s db) = db_str db"
  by (simp_all add: put_set_def)

text \<open>The whole script on a set that keeps \<open>keep\<close> and gets the new member \<open>m\<close>.\<close>

lemma script_eq:
  assumes "keep = filter (\<lambda>x. \<not> snd x \<le> now - interval) (live_set now events db)" "m = fmt now @ ascii '':'' @ nonce"
    and "zadd now m keep = keep @ [(m, now)]" "0 < inactive"
  obtains db' where "ea_record_script ref_redis fmt now events block interval threshold block_ms inactive nonce db =
      (let n = 1 + int (length keep)
       in if n \<ge> threshold then (R_ARRAY [R_INTEGER 1, R_INTEGER n, R_INTEGER ((now + block_ms) div 1000)], db')
          else (R_ARRAY [R_INTEGER 0, R_INTEGER n], db'))"
    "db_set db' events = (if threshold \<le> 1 + int (length keep) then [] else keep @ [(m, now)])"
    "db_set_end db' events = (if threshold \<le> 1 + int (length keep) then None else Some (now + inactive))"
    "db_str db' = (if threshold \<le> 1 + int (length keep) then (db_str db)(block \<mapsto> (fmt ((now + block_ms) div 1000), now + block_ms)) else db_str db)"
proof -
  let ?d1 = "put_set now events keep db" and ?s = "keep @ [(m, now)]"
  let ?d2 = "put_set now events ?s ?d1"
  let ?d3 = "?d2 \<lparr> db_set_end := (db_set_end ?d2)(events \<mapsto> now + inactive) \<rparr>"
  have l: "live_set now events ?d2 = ?s" by simp
  have steps: "ro_zremrange ref_redis now events (now - interval) db = ?d1" "ro_zadd ref_redis now events now m ?d1 = ?d2"
    "ro_zcard ref_redis now events ?d2 = 1 + int (length keep)" "ro_pexpire ref_redis now events inactive ?d2 = ?d3"
    using assms(3) l by (simp_all add: ref_redis_def assms(1))
  show ?thesis
  proof (cases "threshold \<le> 1 + int (length keep)")
    case True
    show ?thesis
      by (rule that[of "ro_del ref_redis now events (ro_set_px ref_redis now block (fmt ((now + block_ms) div 1000)) block_ms ?d3)"])
         (use True steps in \<open>simp_all add: ea_record_script_def Let_def flip: assms(2)\<close>, simp_all add: ref_redis_def)
  next
    case False
    show ?thesis by (rule that[of ?d3]) (use False steps in \<open>simp_all add: ea_record_script_def Let_def flip: assms(2)\<close>)
  qed
qed

section \<open>The window it counts\<close>

text \<open>The specification: the times of a client's events since its last ban, and that ban as a deadline in
  seconds and the millisecond in which it ends.\<close>

type_synonym window = "int list \<times> (int \<times> int) option"

definition a_event :: "zone \<Rightarrow> int \<Rightarrow> window \<Rightarrow> redis_reply \<times> window" where
  "a_event z now = (\<lambda>(ts, ban).
     let ts = filter (\<lambda>t. now - z_interval z * 1000 < t) ts @ [now];
         n = length ts;
         u = now + z_block z * 1000
     in if z_threshold z \<le> n then (R_ARRAY [R_INTEGER 1, R_INTEGER (int n), R_INTEGER (u div 1000)], [], Some (u div 1000, u))
        else (R_ARRAY [R_INTEGER 0, R_INTEGER (int n)], ts, ban))"

text \<open>Events in order, each with its time at Redis and the number and sequence number of its worker.\<close>

fun a_events :: "zone \<Rightarrow> (int \<times> 64 word \<times> 64 word) list \<Rightarrow> window \<Rightarrow> redis_reply list \<times> window" where
  "a_events z [] w = ([], w)"
| "a_events z ((now, _) # es) w =
     (let (r, w) = a_event z now w; (rs, w) = a_events z es w in (r # rs, w))"

fun run_events ::
  "'d redis_ops \<Rightarrow> (int \<Rightarrow> bytes) \<Rightarrow> bytes \<Rightarrow> redis_conf \<Rightarrow> zone \<Rightarrow> bytes \<Rightarrow> (int \<times> 64 word \<times> 64 word) list
     \<Rightarrow> 'd \<Rightarrow> redis_reply list \<times> 'd" where
  "run_events R fmt sha rcf z key [] d = ([], d)"
| "run_events R fmt sha rcf z key ((now, nonce, s) # es) d =
     (let (r, d) = redis_exec R fmt now (script_command fmt sha rcf z key nonce s) d;
          (rs, d) = run_events R fmt sha rcf z key es d
      in (r # rs, d))"

lemma run_view:
  assumes "redis_doc R view"
  shows "fst (run_events R fmt sha rcf z key es d) = fst (run_events ref_redis fmt sha rcf z key es (view d))
     \<and> view (snd (run_events R fmt sha rcf z key es d)) = snd (run_events ref_redis fmt sha rcf z key es (view d))"
proof (induction es arbitrary: d)
  case (Cons e es)
  obtain now nonce q where e: "e = (now, nonce, q)" by (metis prod_cases3)
  show ?case using Cons.IH exec_view[OF assms] by (simp add: e split_beta)
qed simp

text \<open>The keys of a client hold a window: its events are members that name their time and sender, none of
  which is in \<open>fresh\<close>; and the set expires when even its last event has left the window.\<close>

definition holds_window ::
  "(int \<Rightarrow> bytes) \<Rightarrow> redis_conf \<Rightarrow> zone \<Rightarrow> bytes \<Rightarrow> (64 word \<times> 64 word) set \<Rightarrow> int \<Rightarrow> rdb \<Rightarrow> window \<Rightarrow> bool" where
  "holds_window fmt rcf z key fresh now db = (\<lambda>(ts, ban).
     let s = db_set db (events_key rcf z key) in
       map snd s = ts \<and> (\<forall>t \<in> set ts. 0 \<le> t \<and> t \<le> now)
     \<and> (\<forall>x \<in> set s. \<exists>nonce q. fst x = fmt (snd x) @ ascii '':'' @ nonce_text fmt nonce q \<and> (nonce, q) \<notin> fresh)
     \<and> (\<forall>e. db_set_end db (events_key rcf z key) = Some e \<longrightarrow> (\<forall>t \<in> set ts. t + z_interval z * 1000 \<le> e))
     \<and> db_str db (block_key rcf z key) = map_option (\<lambda>(d, u). (fmt d, u)) ban)"

lemma digits_no_colon: "list_all is_digit xs \<Longrightarrow> 58 \<notin> set xs"
  by (auto simp: list_all_iff is_digit_def)

lemma colon [simp]: "ascii '':'' = [58]"
  by (simp add: ascii_def)

lemma nonce_text_unique:
  assumes "fmt_doc fmt" "nonce_text fmt a s = nonce_text fmt b t"
  shows "a = b \<and> s = t"
proof -
  have n: "58 \<notin> set (fmt (uint v))" for v :: "64 word"
    using digits_no_colon fmt_docD(2)[OF assms(1)] by simp
  have "fmt (uint a) = fmt (uint b)"
    using append_sep_unique[OF n n] assms(2) by (simp add: nonce_text_def)
  then have "uint a = uint b" using fmt_docD(3)[OF assms(1)] by (metis uint_ge_0)
  then have "a = b" by (rule word_uint_eqI)
  then show ?thesis using nonce_text_inj[OF assms(1)] assms(2) by blast
qed

lemma member_unique:
  assumes "fmt_doc fmt" "0 \<le> t" "0 \<le> now" "fmt t @ ascii '':'' @ nonce_text fmt a s = fmt now @ ascii '':'' @ nonce_text fmt b q"
  shows "a = b \<and> s = q"
proof -
  have "58 \<notin> set (fmt t)" "58 \<notin> set (fmt now)"
    using digits_no_colon fmt_docD(2)[OF assms(1)] assms(2,3) by simp_all
  then have "nonce_text fmt a s = nonce_text fmt b q" using append_sep_unique[of 58 "fmt t" "fmt now"] assms(4) by simp
  then show ?thesis by (rule nonce_text_unique[OF assms(1)])
qed

lemma keys_differ: "events_key rcf z key \<noteq> block_key rcf z key"
  by (simp add: events_key_def block_key_def ascii_def)

lemma zadd_new: "\<forall>x \<in> set s. fst x \<noteq> m \<Longrightarrow> zadd t m s = s @ [(m, t)]"
  by (simp add: zadd_def)

text \<open>One event.\<close>

lemma event_exact:
  assumes doc: "fmt_doc fmt" and z: "wf_zone z" and w: "holds_window fmt rcf z key fresh t0 db (ts, ban)"
    and now: "0 \<le> now" "t0 \<le> now" and f: "(nonce, q) \<in> fresh"
  shows "\<exists>db'. redis_exec ref_redis fmt now (script_command fmt sha rcf z key nonce q) db = (fst (a_event z now (ts, ban)), db')
     \<and> holds_window fmt rcf z key (fresh - {(nonce, q)}) now db' (snd (a_event z now (ts, ban)))"
proof -
  let ?k = "events_key rcf z key" and ?b = "block_key rcf z key" and ?i = "z_interval z * 1000"
  let ?m = "fmt now @ ascii '':'' @ nonce_text fmt nonce q"
  define s where "s = db_set db ?k"
  define kept where "kept = filter (\<lambda>x. \<not> snd x \<le> now - ?i) (live_set now ?k db)"
  have ts: "map snd s = ts" "\<forall>t \<in> set ts. 0 \<le> t \<and> t \<le> t0" "db_str db ?b = map_option (\<lambda>(d, u). (fmt d, u)) ban"
    and mem: "\<forall>x \<in> set s. \<exists>a p. fst x = fmt (snd x) @ ascii '':'' @ nonce_text fmt a p \<and> (a, p) \<notin> fresh"
    and ends: "\<forall>e. db_set_end db ?k = Some e \<longrightarrow> (\<forall>t \<in> set ts. t + ?i \<le> e)"
    using w by (simp_all add: holds_window_def s_def Let_def)
  have z': "0 \<le> ?i" "0 \<le> z_block z * 1000" "0 \<le> z_inactive z * 1000" "?i \<le> z_inactive z * 1000" using z by (simp_all add: wf_zone_def)
  have live: "kept = filter (\<lambda>x. now - ?i < snd x) s"
  proof (cases "\<exists>e. db_set_end db ?k = Some e \<and> e \<le> now")
    case True
    then have "\<forall>t \<in> set (map snd s). t + ?i \<le> now" using ends ts(1) by fastforce
    then have "filter (\<lambda>x. now - ?i < snd x) s = []" by (auto simp: filter_empty_conv)
    then show ?thesis using True by (auto simp: kept_def live_set_def)
  next
    case False
    then show ?thesis by (auto simp: kept_def live_set_def s_def not_le split: option.splits)
  qed
  have "fst x \<noteq> ?m" if x: "x \<in> set s" for x
  proof
    assume e: "fst x = ?m"
    obtain a p where ap: "fst x = fmt (snd x) @ ascii '':'' @ nonce_text fmt a p" "(a, p) \<notin> fresh" using mem x by blast
    have "0 \<le> snd x" using ts(1,2) x by auto
    from member_unique[OF doc this now(1)] ap e f show False by metis
  qed
  then have "\<forall>x \<in> set kept. fst x \<noteq> ?m" by (simp add: live)
  then have add: "zadd now ?m kept = kept @ [(?m, now)]" by (rule zadd_new)
  let ?ts = "filter (\<lambda>t. now - ?i < t) ts @ [now]"
  have new: "map snd (kept @ [(?m, now)]) = ?ts" using ts(1) by (simp add: live filter_map comp_def flip: ts(1))
  then have len: "length kept = length (filter (\<lambda>t. now - ?i < t) ts)" by (metis length_append_singleton length_map nat.inject)
  have in0: "0 < z_inactive z * 1000" using z by (simp add: wf_zone_def)
  let ?hit = "int (z_threshold z) \<le> 1 + int (length kept)" and ?u = "now + z_block z * 1000"
  obtain db' where x: "ea_record_script ref_redis fmt now ?k ?b ?i (int (z_threshold z)) (z_block z * 1000) (z_inactive z * 1000) (nonce_text fmt nonce q) db =
      (let n = 1 + int (length kept)
       in if n \<ge> int (z_threshold z) then (R_ARRAY [R_INTEGER 1, R_INTEGER n, R_INTEGER (?u div 1000)], db')
          else (R_ARRAY [R_INTEGER 0, R_INTEGER n], db'))"
    and d: "db_set db' ?k = (if ?hit then [] else kept @ [(?m, now)])"
      "db_set_end db' ?k = (if ?hit then None else Some (now + z_inactive z * 1000))"
      "db_str db' = (if ?hit then (db_str db)(?b \<mapsto> (fmt (?u div 1000), ?u)) else db_str db)"
    using script_eq[where m = ?m and nonce = "nonce_text fmt nonce q" and fmt = fmt and now = now and interval = ?i and events = ?k and inactive = "z_inactive z * 1000", OF kept_def refl add in0, of ?b "int (z_threshold z)" "z_block z * 1000"] by blast
  have cmd: "redis_exec ref_redis fmt now (script_command fmt sha rcf z key nonce q) db
      = ea_record_script ref_redis fmt now ?k ?b ?i (int (z_threshold z)) (z_block z * 1000) (z_inactive z * 1000) (nonce_text fmt nonce q) db"
    using z' fmt_docD(3)[OF doc] by (simp add: redis_exec_def script_command_def)
  have hit: "?hit \<longleftrightarrow> z_threshold z \<le> length ?ts" by (simp add: len) linarith
  have h: "\<exists>a p. fst y = fmt (snd y) @ ascii '':'' @ nonce_text fmt a p \<and> (a, p) \<notin> fresh - {(nonce, q)}"
    if "y \<in> set (kept @ [(?m, now)])" for y
  proof -
    from that consider "y \<in> set s" | "y = (?m, now)" by (auto simp: live)
    then show ?thesis using mem by cases (blast, auto)
  qed
  have t: "\<forall>t \<in> set ?ts. 0 \<le> t \<and> t \<le> now \<and> t + ?i \<le> now + z_inactive z * 1000"
    using ts(2) now z'(4) by auto
  show ?thesis
  proof (cases ?hit)
    case True
    then have "redis_exec ref_redis fmt now (script_command fmt sha rcf z key nonce q) db = (fst (a_event z now (ts, ban)), db')"
      using hit by (simp add: cmd x a_event_def Let_def len)
    moreover have "snd (a_event z now (ts, ban)) = ([], Some (?u div 1000, ?u))"
      using True hit by (simp add: a_event_def Let_def)
    ultimately show ?thesis using d True by (simp add: holds_window_def)
  next
    case False
    then have "redis_exec ref_redis fmt now (script_command fmt sha rcf z key nonce q) db = (fst (a_event z now (ts, ban)), db')"
      using hit by (simp add: cmd x a_event_def Let_def len)
    moreover have "snd (a_event z now (ts, ban)) = (?ts, ban)"
      using False hit by (simp add: a_event_def Let_def)
    moreover have "holds_window fmt rcf z key (fresh - {(nonce, q)}) now db' (?ts, ban)"
      using h t new ts(3) d False unfolding holds_window_def by (simp add: Let_def)
    ultimately show ?thesis by simp
  qed
qed

lemma holds_later: "holds_window fmt rcf z key fresh t db w \<Longrightarrow> t \<le> t' \<Longrightarrow> holds_window fmt rcf z key fresh t' db w"
  by (fastforce simp: holds_window_def Let_def)

lemma events_exact:
  assumes "fmt_doc fmt" "wf_zone z" "holds_window fmt rcf z key fresh t0 db w" "sorted (map fst es)" "\<forall>e \<in> set es. 0 \<le> fst e \<and> t0 \<le> fst e"
    and "distinct (map snd es)" "set (map snd es) \<subseteq> fresh"
  shows "\<exists>db' fresh' t1. run_events ref_redis fmt sha rcf z key es db = (fst (a_events z es w), db')
     \<and> holds_window fmt rcf z key fresh' t1 db' (snd (a_events z es w))"
  using assms(3-7)
proof (induction es arbitrary: db w fresh t0)
  case Nil
  then show ?case by auto
next
  case (Cons e es)
  obtain now nonce q where e: "e = (now, nonce, q)" by (metis prod_cases3)
  have now: "0 \<le> now" "t0 \<le> now" "(nonce, q) \<in> fresh" using Cons.prems e by auto
  obtain ts ban where w: "w = (ts, ban)" by fastforce
  obtain r w1 where a: "a_event z now w = (r, w1)" by (metis surj_pair)
  obtain db1 where s: "redis_exec ref_redis fmt now (script_command fmt sha rcf z key nonce q) db = (r, db1)"
    "holds_window fmt rcf z key (fresh - {(nonce, q)}) now db1 w1"
    using event_exact[OF assms(1,2) Cons.prems(1)[unfolded w] now, of sha] a w by auto
  have "sorted (map fst es)" "\<forall>e \<in> set es. 0 \<le> fst e \<and> now \<le> fst e" "distinct (map snd es)"
    "set (map snd es) \<subseteq> fresh - {(nonce, q)}"
    using Cons.prems e now(1) by fastforce+
  from Cons.IH[OF s(2) this] obtain db' fresh' t1 where "run_events ref_redis fmt sha rcf z key es db1 = (fst (a_events z es w1), db')"
    "holds_window fmt rcf z key fresh' t1 db' (snd (a_events z es w1))" by blast
  then show ?case using e a s(1) by (auto simp: split_beta)
qed

definition blocks :: "redis_reply \<Rightarrow> bool" where
  "blocks r \<longleftrightarrow> (\<exists>rest. r = R_ARRAY (R_INTEGER 1 # rest))"

text \<open>A ban is earned by a threshold of events inside one window.\<close>

lemma a_events_earned:
  assumes z: "wf_zone z" and "i < length es" "blocks (fst (a_events z es (ts, ban)) ! i)"
  shows "z_threshold z \<le> length (filter (\<lambda>t. fst (es ! i) - z_interval z * 1000 < t) (ts @ map fst (take (Suc i) es)))"
  using assms(2,3)
proof (induction es arbitrary: i ts ban)
  case (Cons e es)
  obtain now x where e: "e = (now, x)" by (metis surj_pair)
  let ?f = "\<lambda>t. now - z_interval z * 1000 < t"
  obtain r ts' ban' where a: "a_event z now (ts, ban) = (r, ts', ban')" by (metis prod_cases3)
  show ?case
  proof (cases i)
    case 0
    then have "blocks r" using Cons.prems(2) e a by (simp add: split_beta)
    then have "z_threshold z \<le> Suc (length (filter ?f ts))"
      using a by (auto simp: a_event_def blocks_def Let_def split: if_splits)
    then show ?thesis using 0 e z by (simp add: wf_zone_def)
  next
    case (Suc j)
    have "ts' = [] \<or> ts' = filter ?f ts @ [now]" using a by (auto simp: a_event_def Let_def split: if_splits)
    then have "length (filter P ts') \<le> length (filter P (ts @ [now]))" for P
    proof
      assume "ts' = filter ?f ts @ [now]"
      moreover have "length (filter P (filter ?f ts)) \<le> length (filter P ts)"
        by (simp only: filter_filter conj_commute) (metis filter_filter length_filter_le)
      ultimately show ?thesis by simp
    qed simp
    note shorter = this[of "\<lambda>t. fst (es ! j) - z_interval z * 1000 < t"]
    have "j < length es" "blocks (fst (a_events z es (ts', ban')) ! j)"
      using Cons.prems Suc e a by (simp_all add: split_beta)
    from Cons.IH[OF this] show ?thesis using shorter Suc e by (simp split: if_splits)
  qed
qed simp

text \<open>What Redis answers, to the events and to a check after them.\<close>

lemma redis_answers:
  assumes "redis_doc R view" "fmt_doc fmt" "wf_zone z" "sorted (map fst es)" "\<forall>e \<in> set es. 0 \<le> fst e" "distinct (map snd es)"
    and "db_set (view d) (events_key rcf z key) = []" "db_str (view d) (block_key rcf z key) = None"
    and "run_events R fmt sha rcf z key es d = (rs, d')"
  shows "rs = fst (a_events z es ([], None))"
    and "fst (redis_exec R fmt t (H_COMMAND [ascii ''GET'', block_key rcf z key]) d') =
          (case snd (snd (a_events z es ([], None))) of
             None \<Rightarrow> R_NIL
           | Some (d, u) \<Rightarrow> if t < u then R_STRING (fmt d) else R_NIL)"
proof -
  have "holds_window fmt rcf z key UNIV 0 (view d) ([], None)" using assms(7,8) by (simp add: holds_window_def)
  from events_exact[OF assms(2,3) this assms(4) _ assms(6), of sha] assms(5)
  obtain db' fresh' t1 where r: "run_events ref_redis fmt sha rcf z key es (view d) = (fst (a_events z es ([], None)), db')"
    "holds_window fmt rcf z key fresh' t1 db' (snd (a_events z es ([], None)))"
    by auto
  have v: "rs = fst (a_events z es ([], None))" "view d' = db'"
    using run_view[OF assms(1), of fmt sha rcf z key es d] assms(9) r(1) by simp_all
  obtain ts ban where b: "snd (a_events z es ([], None)) = (ts, ban)" by fastforce
  have "db_str db' (block_key rcf z key) = map_option (\<lambda>(d, u). (fmt d, u)) ban" using r(2) b by (simp add: holds_window_def Let_def)
  then have get: "fst (redis_exec R fmt t (H_COMMAND [ascii ''GET'', block_key rcf z key]) d') =
      (case ban of None \<Rightarrow> R_NIL | Some (d, u) \<Rightarrow> if t < u then R_STRING (fmt d) else R_NIL)"
    unfolding exec_view(1)[OF assms(1)] v(2) by (auto simp: redis_exec_def ref_redis_def split: option.splits)
  show "rs = fst (a_events z es ([], None))" using v(1) .
  show "fst (redis_exec R fmt t (H_COMMAND [ascii ''GET'', block_key rcf z key]) d') =
          (case snd (snd (a_events z es ([], None))) of
             None \<Rightarrow> R_NIL
           | Some (d, u) \<Rightarrow> if t < u then R_STRING (fmt d) else R_NIL)"
    using get b by simp
qed

section \<open>The property\<close>

text \<open>C6. What Redis counts.  Let Redis have nothing of a client, and let any workers of any servers record
  events of the client, each with its own nonce, as the worker's commands do: then Redis answers each as the
  window of the engine in milliseconds says; a check is answered with the deadline of the last ban, in
  seconds, exactly while this ban lasts; and a ban is only set by an event that is, with itself, at least
  the threshold-th inside one interval.\<close>

theorem redis_counts_exactly:
  assumes "redis_doc R view" "fmt_doc fmt" "wf_zone z" "sorted (map fst es)" "\<forall>e \<in> set es. 0 \<le> fst e" "distinct (map snd es)"
    and "db_set (view d) (events_key rcf z key) = []" "db_str (view d) (block_key rcf z key) = None"
    and "run_events R fmt sha rcf z key es d = (rs, d')"
  shows "rs = fst (a_events z es ([], None))
     \<and> (\<forall>t. fst (redis_exec R fmt t (H_COMMAND [ascii ''GET'', block_key rcf z key]) d') =
          (case snd (snd (a_events z es ([], None))) of
             None \<Rightarrow> R_NIL
           | Some (d, u) \<Rightarrow> if t < u then R_STRING (fmt d) else R_NIL))
     \<and> (\<forall>i < length es. blocks (rs ! i) \<longrightarrow>
          z_threshold z \<le> length (filter (\<lambda>t. fst (es ! i) - z_interval z * 1000 < t) (map fst (take (Suc i) es))))"
  using redis_answers[OF assms] a_events_earned[OF assms(3), of _ es "[]" None] by auto

theorem redis_counts_exactly_witness:
  "\<exists>rs db'. run_events ref_redis ref_fmt [] ex_rcf ex_zone ex_key [(5000, 7, 1), (9000, 8, 1)]
       \<lparr> db_set = (\<lambda>_. []), db_set_end = (\<lambda>_. None), db_str = (\<lambda>_. None) \<rparr> = (rs, db')
     \<and> rs = [R_ARRAY [R_INTEGER 0, R_INTEGER 1], R_ARRAY [R_INTEGER 1, R_INTEGER 2, R_INTEGER 609]]
     \<and> fst (redis_exec ref_redis ref_fmt 608999 (H_COMMAND [ascii ''GET'', block_key ex_rcf ex_zone ex_key]) db') = R_STRING (ref_fmt 609)"
proof -
  let ?es = "[(5000, 7, 1), (9000, 8, 1)] :: (int \<times> 64 word \<times> 64 word) list"
  let ?db = "\<lparr> db_set = (\<lambda>_. []), db_set_end = (\<lambda>_. None), db_str = (\<lambda>_. None) \<rparr> :: rdb"
  obtain rs db' where r: "run_events ref_redis ref_fmt [] ex_rcf ex_zone ex_key ?es ?db = (rs, db')" by fastforce
  have a: "a_events ex_zone ?es ([], None)
      = ([R_ARRAY [R_INTEGER 0, R_INTEGER 1], R_ARRAY [R_INTEGER 1, R_INTEGER 2, R_INTEGER 609]], [], Some (609, 609000))"
    by (simp add: a_event_def)
  have p: "sorted (map fst ?es)" "\<forall>e \<in> set ?es. 0 \<le> fst e" "distinct (map snd ?es)"
    "db_set ?db (events_key ex_rcf ex_zone ex_key) = []" "db_str ?db (block_key ex_rcf ex_zone ex_key) = None" by simp_all
  note k = redis_counts_exactly[OF ref_redis_doc ref_fmt_doc ex_zone_wf p r, unfolded a]
  have "rs = [R_ARRAY [R_INTEGER 0, R_INTEGER 1], R_ARRAY [R_INTEGER 1, R_INTEGER 2, R_INTEGER 609]]" using k[THEN conjunct1] by simp
  moreover have "fst (redis_exec ref_redis ref_fmt 608999 (H_COMMAND [ascii ''GET'', block_key ex_rcf ex_zone ex_key]) db') = R_STRING (ref_fmt 609)"
    using k[THEN conjunct2, THEN conjunct1, rule_format, of 608999] by simp
  ultimately show ?thesis using r by blast
qed

end
