(* ===== verification/EA_File.thy ===== *)
theory EA_File
  imports EA_Scan
begin

text \<open>
  Files as the module uses them: the two loops that move a whole buffer through a descriptor, the
  platform layer over POSIX and Windows, and the writing of a snapshot to a temporary file that then
  replaces the old one.  The system calls a run makes are a list; what they do to a file system, and
  what a crash leaves of it, is defined beside them.
\<close>

section \<open>The platform layer\<close>

datatype platform = POSIX | WIN32

datatype errno = EINTR | EEXIST | EEXIST_FILE | EOTHER

definition ea_win32_interrupted :: "errno \<Rightarrow> bool" where
  "ea_win32_interrupted err = False"

definition ea_platform_interrupted :: "platform \<Rightarrow> errno \<Rightarrow> bool" where
  "ea_platform_interrupted P err = (case P of WIN32 \<Rightarrow> ea_win32_interrupted err | POSIX \<Rightarrow> err = EINTR)"

text \<open>What one \<^verbatim>\<open>read\<close> or \<^verbatim>\<open>write\<close> answers: a number of bytes, which is never more than was asked for,
  or an error.\<close>

datatype io_res = IO_N nat | IO_FAIL errno

section \<open>System calls\<close>

text \<open>The calls that succeed, with the inode they work on; a name is bound to an inode.\<close>

datatype syscall =
    SC_CREATE bytes nat
  | SC_WRITE nat bytes
  | SC_FSYNC nat
  | SC_RENAME bytes bytes
  | SC_UNLINK bytes
  | SC_SYNC_DIR bytes

section \<open>Moving a whole buffer\<close>

text \<open>The \<open>k\<close>-th call of the environment answers \<open>io k\<close>.  No result of the first component means that
  \<open>fuel\<close> rounds were not enough.\<close>

fun ea_write_all ::
  "nat \<Rightarrow> platform \<Rightarrow> (nat \<Rightarrow> io_res) \<Rightarrow> nat \<Rightarrow> nat \<Rightarrow> bytes \<Rightarrow> ngx_rc option \<times> syscall list" where
  "ea_write_all fuel P io fd k [] = (Some NGX_OK, [])"
| "ea_write_all 0 P io fd k (b # bs) = (None, [])"
| "ea_write_all (Suc fuel) P io fd k (b # bs) =
     (let data = b # bs in
      case io k of
        IO_N n \<Rightarrow>
          if n > 0
          then let n = min n (length data);
                   (rc, tr) = ea_write_all fuel P io fd (Suc k) (drop n data)
               in (rc, SC_WRITE fd (take n data) # tr)
          else (Some NGX_ERROR, [])
      | IO_FAIL err \<Rightarrow>
          if ea_platform_interrupted P err then ea_write_all fuel P io fd (Suc k) data
          else (Some NGX_ERROR, []))"

text \<open>\<open>data\<close> is what the descriptor still has to give; \<open>len\<close> bytes are wanted.  The result holds what
  was put into the buffer.\<close>

fun ea_read_all ::
  "nat \<Rightarrow> platform \<Rightarrow> (nat \<Rightarrow> io_res) \<Rightarrow> nat \<Rightarrow> bytes \<Rightarrow> nat \<Rightarrow> ngx_rc option \<times> bytes" where
  "ea_read_all fuel P io k data 0 = (Some NGX_OK, [])"
| "ea_read_all 0 P io k data (Suc len) = (None, [])"
| "ea_read_all (Suc fuel) P io k data (Suc len) =
     (case io k of
        IO_N n \<Rightarrow>
          if min n (length data) > 0
          then let n = min (min n (length data)) (Suc len);
                   (rc, buf) = ea_read_all fuel P io (Suc k) (drop n data) (Suc len - n)
               in (rc, take n data @ buf)
          else (Some NGX_ERROR, [])
      | IO_FAIL err \<Rightarrow>
          if ea_platform_interrupted P err then ea_read_all fuel P io (Suc k) data (Suc len)
          else (Some NGX_ERROR, []))"

section \<open>Writing a snapshot\<close>

text \<open>What the environment answers while a snapshot is written: the allocation of the name, two random
  numbers and the outcome of the exclusive creation for every attempt, the writes, the flush, the close,
  the renaming, the removal of the temporary file, and the opening and flushing of the directory.
  \<^verbatim>\<open>ngx_win32_rename_file\<close> is nginx's: what it answers, no error or an error, and which system calls it
  made on the way, whether it succeeded or not, are for the environment to say.\<close>

datatype create_res = CR_FD nat | CR_ERR errno

record file_env =
  fe_alloc :: bool
  fe_rnd :: "nat \<Rightarrow> 64 word \<times> 64 word"
  fe_create :: "nat \<Rightarrow> create_res"
  fe_write :: "nat \<Rightarrow> io_res"
  fe_flush :: bool
  fe_close :: bool
  fe_rename :: "errno option"
  fe_win32_rename :: "bytes \<Rightarrow> bytes \<Rightarrow> errno option \<times> syscall list"
  fe_unlink :: bool
  fe_dir_open :: bool
  fe_dir_sync :: bool

text \<open>nginx's formatting of a process id and of a hexadecimal number.\<close>

record name_fmt =
  nf_pid :: bytes
  nf_hex :: "64 word \<Rightarrow> bytes"

definition temp_name :: "name_fmt \<Rightarrow> bytes \<Rightarrow> file_env \<Rightarrow> nat \<Rightarrow> bytes" where
  "temp_name F persist env i =
     persist @ ascii ''.tmp.'' @ nf_pid F @ ascii ''.''
       @ nf_hex F (xor (xor (fst (fe_rnd env i)) (push_bit 24 (snd (fe_rnd env i)))) (push_bit 48 (of_nat i)))"

text \<open>Up to \<open>n\<close> more attempts, from the \<open>i\<close>-th; a collision is the only error that is tried again.\<close>

fun create_loop :: "name_fmt \<Rightarrow> bytes \<Rightarrow> file_env \<Rightarrow> nat \<Rightarrow> nat \<Rightarrow> (bytes \<times> nat) option" where
  "create_loop F persist env i 0 = None"
| "create_loop F persist env i (Suc n) =
     (case fe_create env i of
        CR_FD fd \<Rightarrow> Some (temp_name F persist env i, fd)
      | CR_ERR err \<Rightarrow> if err \<noteq> EEXIST then None else create_loop F persist env (Suc i) n)"

definition ea_win32_replace :: "file_env \<Rightarrow> bytes \<Rightarrow> bytes \<Rightarrow> ngx_rc \<times> syscall list" where
  "ea_win32_replace env tmp persist =
     (case fe_rename env of
        None \<Rightarrow> (NGX_OK, [SC_RENAME tmp persist])
      | Some err \<Rightarrow>
          if err \<noteq> EEXIST \<and> err \<noteq> EEXIST_FILE then (NGX_ERROR, [])
          else case fe_win32_rename env tmp persist of
                 (None, tr) \<Rightarrow> (NGX_OK, tr)
               | (Some err, tr) \<Rightarrow> (NGX_ERROR, tr))"

definition ea_platform_replace :: "platform \<Rightarrow> file_env \<Rightarrow> bytes \<Rightarrow> bytes \<Rightarrow> ngx_rc \<times> syscall list" where
  "ea_platform_replace P env tmp persist =
     (case P of
        WIN32 \<Rightarrow> ea_win32_replace env tmp persist
      | POSIX \<Rightarrow> if fe_rename env \<noteq> None then (NGX_ERROR, []) else (NGX_OK, [SC_RENAME tmp persist]))"

definition NGX_MAX_PATH :: nat where "NGX_MAX_PATH = 4096"

text \<open>The directory that holds a path; nothing if its name is too long for the buffer.\<close>

definition parent_of :: "bytes \<Rightarrow> bytes option" where
  "parent_of path =
     (let rest = dropWhile (\<lambda>c. c \<noteq> 47) (rev path) in
      case rest of
        [] \<Rightarrow> Some (ascii ''.'')
      | _ # dir \<Rightarrow> if dir = [] then Some (ascii ''/'')
                   else if length dir \<ge> NGX_MAX_PATH then None else Some (rev dir))"

definition ea_sync_parent :: "platform \<Rightarrow> file_env \<Rightarrow> bytes \<Rightarrow> syscall list" where
  "ea_sync_parent P env path =
     (case P of
        WIN32 \<Rightarrow> []
      | POSIX \<Rightarrow>
          case parent_of path of
            None \<Rightarrow> []
          | Some dir \<Rightarrow> if fe_dir_open env \<and> fe_dir_sync env then [SC_SYNC_DIR dir] else [])"

definition unlink_temp :: "file_env \<Rightarrow> bytes \<Rightarrow> syscall list" where
  "unlink_temp env tmp = (if fe_unlink env then [SC_UNLINK tmp] else [])"

text \<open>After the file is written: flush, close, replace, and flush the directory.\<close>

definition finish_file :: "platform \<Rightarrow> file_env \<Rightarrow> nat \<Rightarrow> bytes \<Rightarrow> bytes \<Rightarrow> ngx_rc \<times> syscall list" where
  "finish_file P env fd tmp persist =
     (if \<not> fe_flush env then (NGX_ERROR, unlink_temp env tmp)
      else if \<not> fe_close env then (NGX_ERROR, SC_FSYNC fd # unlink_temp env tmp)
      else
        let (rc, tr) = ea_platform_replace P env tmp persist
        in if rc \<noteq> NGX_OK then (NGX_ERROR, SC_FSYNC fd # tr @ unlink_temp env tmp)
           else (NGX_OK, SC_FSYNC fd # tr @ ea_sync_parent P env persist))"

definition ea_write_file ::
  "nat \<Rightarrow> platform \<Rightarrow> name_fmt \<Rightarrow> file_env \<Rightarrow> bytes \<Rightarrow> bytes \<Rightarrow> ngx_rc option \<times> syscall list" where
  "ea_write_file fuel P F env data persist =
     (if \<not> fe_alloc env then (Some NGX_ERROR, [])
      else case create_loop F persist env 0 8 of
        None \<Rightarrow> (Some NGX_ERROR, [])
      | Some (tmp, fd) \<Rightarrow>
          let (rc, tr) = ea_write_all fuel P (fe_write env) fd 0 data
          in case rc of
               None \<Rightarrow> (None, SC_CREATE tmp fd # tr)
             | Some rc \<Rightarrow>
                 if rc \<noteq> NGX_OK then (Some NGX_ERROR, SC_CREATE tmp fd # tr @ unlink_temp env tmp)
                 else let (rc, tr2) = finish_file P env fd tmp persist
                      in (Some rc, SC_CREATE tmp fd # tr @ tr2))"

section \<open>What the calls do\<close>

text \<open>The file system: names and contents as a process sees them; for every name the inodes it may have
  on the disk, the last one first, of which a crash leaves one; and the inodes whose contents have been
  flushed.\<close>

record fs =
  fs_dir :: "bytes \<Rightarrow> nat option"
  fs_data :: "nat \<Rightarrow> bytes"
  fs_disk :: "bytes \<Rightarrow> nat option set"
  fs_flushed :: "nat set"

definition bind_name :: "bytes \<Rightarrow> nat option \<Rightarrow> fs \<Rightarrow> fs" where
  "bind_name p i s = s \<lparr> fs_dir := (fs_dir s)(p := i), fs_disk := (fs_disk s)(p := insert i (fs_disk s p)) \<rparr>"

text \<open>The names in a directory are those with this parent; flushing it leaves each its last inode.\<close>

fun sys :: "syscall \<Rightarrow> fs \<Rightarrow> fs" where
  "sys (SC_CREATE p i) s = (bind_name p (Some i) s) \<lparr> fs_data := (fs_data s)(i := []), fs_flushed := fs_flushed s - {i} \<rparr>"
| "sys (SC_WRITE i xs) s = s \<lparr> fs_data := (fs_data s)(i := fs_data s i @ xs), fs_flushed := fs_flushed s - {i} \<rparr>"
| "sys (SC_FSYNC i) s = s \<lparr> fs_flushed := insert i (fs_flushed s) \<rparr>"
| "sys (SC_RENAME p q) s = bind_name p None (bind_name q (fs_dir s p) s)"
| "sys (SC_UNLINK p) s = bind_name p None s"
| "sys (SC_SYNC_DIR d) s = s \<lparr> fs_disk := (\<lambda>p. if parent_of p = Some d then {fs_dir s p} else fs_disk s p) \<rparr>"

definition run_sys :: "syscall list \<Rightarrow> fs \<Rightarrow> fs" where
  "run_sys tr s = fold sys tr s"

definition content :: "fs \<Rightarrow> bytes \<Rightarrow> bytes option" where
  "content s p = map_option (fs_data s) (fs_dir s p)"

text \<open>After a crash every name has one of the inodes it may have, and an inode that was not flushed can
  hold anything.\<close>

definition crash :: "fs \<Rightarrow> fs \<Rightarrow> bool" where
  "crash s s' \<longleftrightarrow> (\<forall>p. fs_dir s' p \<in> fs_disk s p) \<and> (\<forall>i \<in> fs_flushed s. fs_data s' i = fs_data s i)"

text \<open>A file that is safe on the disk, or safely absent.\<close>

definition settled_file :: "fs \<Rightarrow> bytes \<Rightarrow> bool" where
  "settled_file s p \<longleftrightarrow> fs_disk s p = {fs_dir s p} \<and> (\<forall>i. fs_dir s p = Some i \<longrightarrow> i \<in> fs_flushed s)"

text \<open>The answers agree with the file system: an exclusive creation succeeds only for a name that is not
  there, and gives an inode nothing else uses.\<close>

definition creates_doc :: "name_fmt \<Rightarrow> bytes \<Rightarrow> file_env \<Rightarrow> fs \<Rightarrow> bool" where
  "creates_doc F persist env s \<longleftrightarrow>
     (\<forall>i fd. fe_create env i = CR_FD fd \<longrightarrow>
        fs_dir s (temp_name F persist env i) = None \<and> (\<forall>p. fs_dir s p \<noteq> Some fd \<and> Some fd \<notin> fs_disk s p))"

section \<open>Both loops end\<close>

definition written :: "syscall list \<Rightarrow> bytes" where
  "written tr = concat (map (\<lambda>c. case c of SC_WRITE _ xs \<Rightarrow> xs | _ \<Rightarrow> []) tr)"

definition interruptions :: "platform \<Rightarrow> (nat \<Rightarrow> io_res) \<Rightarrow> nat \<Rightarrow> nat set" where
  "interruptions P io k = {j. k \<le> j \<and> (\<exists>e. io j = IO_FAIL e \<and> ea_platform_interrupted P e)}"

lemma interruptions_simps:
  "\<exists>e. io k = IO_FAIL e \<and> ea_platform_interrupted P e \<Longrightarrow> interruptions P io k = insert k (interruptions P io (Suc k))"
  "\<nexists>e. io k = IO_FAIL e \<and> ea_platform_interrupted P e \<Longrightarrow> interruptions P io k = interruptions P io (Suc k)"
  by (auto simp: interruptions_def Suc_le_eq le_less)

lemma interruptions_later [simp]: "k \<notin> interruptions P io (Suc k)"
  by (simp add: interruptions_def)

lemma interruptions_win32 [simp]: "interruptions WIN32 io k = {}"
  by (simp add: interruptions_def ea_platform_interrupted_def ea_win32_interrupted_def)

lemma written_simps [simp]:
  "written [] = []" "written (SC_WRITE i xs # tr) = xs @ written tr"
  by (simp_all add: written_def)

text \<open>An error is always one the system reported.\<close>

definition reported :: "platform \<Rightarrow> (nat \<Rightarrow> io_res) \<Rightarrow> bool" where
  "reported P io \<longleftrightarrow> (\<exists>j. io j = IO_N 0 \<or> (\<exists>e. io j = IO_FAIL e \<and> \<not> ea_platform_interrupted P e))"

lemma write_all_shape:
  assumes "ea_write_all fuel P io fd k data = (rc, tr)"
  shows "(\<forall>c \<in> set tr. \<exists>xs. c = SC_WRITE fd xs) \<and> (\<exists>rest. data = written tr @ rest \<and> (rc = Some NGX_OK \<longleftrightarrow> rest = []))
     \<and> rc \<in> {None, Some NGX_OK, Some NGX_ERROR} \<and> (rc = Some NGX_ERROR \<longrightarrow> reported P io)"
  using assms
proof (induction fuel P io fd k data arbitrary: rc tr rule: ea_write_all.induct)
  case (3 fuel P io fd k b bs)
  show ?case
  proof (cases "io k")
    case (IO_N n)
    show ?thesis
    proof (cases "n > 0")
      case True
      let ?n = "min n (length (b # bs))"
      obtain rc' tr' where r: "ea_write_all fuel P io fd (Suc k) (drop ?n (b # bs)) = (rc', tr')" by fastforce
      have e: "rc = rc'" "tr = SC_WRITE fd (take ?n (b # bs)) # tr'"
        using "3.prems" IO_N True r by (simp_all add: Let_def)
      note ih = "3.IH"(1)[OF refl IO_N True refl r]
      then obtain rest where rest: "drop ?n (b # bs) = written tr' @ rest" "rc' = Some NGX_OK \<longleftrightarrow> rest = []" by blast
      have "b # bs = written tr @ rest" unfolding e using rest(1) append_take_drop_id[of ?n "b # bs"] by simp
      then show ?thesis using ih rest(2) e by auto
    next
      case False
      then show ?thesis using "3.prems" IO_N by (auto simp: reported_def)
    qed
  next
    case (IO_FAIL err)
    then show ?thesis using "3.prems" "3.IH"(2)[OF refl IO_FAIL]
      by (cases "ea_platform_interrupted P err") (auto simp: reported_def)
  qed
qed auto

lemma write_all_ends:
  assumes "finite (interruptions P io k)" "length data + card (interruptions P io k) \<le> fuel"
  shows "fst (ea_write_all fuel P io fd k data) \<noteq> None"
  using assms
proof (induction fuel P io fd k data rule: ea_write_all.induct)
  case (3 fuel P io fd k b bs)
  show ?case
  proof (cases "\<exists>e. io k = IO_FAIL e \<and> ea_platform_interrupted P e")
    case True
    then obtain e where e: "io k = IO_FAIL e" "ea_platform_interrupted P e" by blast
    have "finite (interruptions P io (Suc k))" "length (b # bs) + card (interruptions P io (Suc k)) \<le> fuel"
      using "3.prems" interruptions_simps(1)[of io k, OF True] by auto
    then show ?thesis using "3.IH"(2)[OF refl e] e by simp
  next
    case False
    show ?thesis
    proof (cases "\<exists>n > 0. io k = IO_N n")
      case True
      then obtain n where n: "n > 0" "io k = IO_N n" by blast
      let ?n = "min n (length (b # bs))"
      have "finite (interruptions P io (Suc k))" "length (drop ?n (b # bs)) + card (interruptions P io (Suc k)) \<le> fuel"
        using "3.prems" interruptions_simps(2)[of io k, OF False] n(1) by auto
      then show ?thesis using "3.IH"(1)[OF refl n(2) n(1) refl] n by (simp add: Let_def split_beta)
    next
      case none: False
      then show ?thesis using False by (cases "io k") auto
    qed
  qed
qed auto

lemma read_all_shape:
  assumes "ea_read_all fuel P io k data len = (rc, buf)"
  shows "(rc = Some NGX_OK \<longrightarrow> len \<le> length data \<and> buf = take len data)
     \<and> rc \<in> {None, Some NGX_OK, Some NGX_ERROR} \<and> (rc = Some NGX_ERROR \<longrightarrow> reported P io \<or> length data < len)"
  using assms
proof (induction fuel P io k data len arbitrary: rc buf rule: ea_read_all.induct)
  case (3 fuel P io k data len)
  show ?case
  proof (cases "io k")
    case (IO_N n)
    show ?thesis
    proof (cases "min n (length data) > 0")
      case True
      let ?n = "min (min n (length data)) (Suc len)"
      obtain rc' buf' where r: "ea_read_all fuel P io (Suc k) (drop ?n data) (Suc len - ?n) = (rc', buf')" by fastforce
      have e: "rc = rc'" "buf = take ?n data @ buf'"
        using "3.prems" IO_N True r by (simp_all add: Let_def)
      have ih: "rc' = Some NGX_OK \<longrightarrow> Suc len - ?n \<le> length (drop ?n data) \<and> buf' = take (Suc len - ?n) (drop ?n data)"
        "rc' \<in> {None, Some NGX_OK, Some NGX_ERROR}" "rc' = Some NGX_ERROR \<longrightarrow> reported P io \<or> length (drop ?n data) < Suc len - ?n"
        using "3.IH"(1)[OF IO_N True refl r] by blast+
      have "take ?n data @ take (Suc len - ?n) (drop ?n data) = take (Suc len) data"
        using take_add[of ?n "Suc len - ?n" data] by simp
      moreover have "Suc len - ?n \<le> length (drop ?n data) \<longleftrightarrow> Suc len \<le> length data" by auto
      ultimately show ?thesis using ih unfolding e by (metis not_le)
    next
      case False
      then show ?thesis using "3.prems" IO_N by (auto simp: reported_def)
    qed
  next
    case (IO_FAIL err)
    then show ?thesis using "3.prems" "3.IH"(2)[OF IO_FAIL]
      by (cases "ea_platform_interrupted P err") (auto simp: reported_def)
  qed
qed auto

lemma read_all_ends:
  assumes "finite (interruptions P io k)" "len + card (interruptions P io k) \<le> fuel"
  shows "fst (ea_read_all fuel P io k data len) \<noteq> None"
  using assms
proof (induction fuel P io k data len rule: ea_read_all.induct)
  case (3 fuel P io k data len)
  show ?case
  proof (cases "\<exists>e. io k = IO_FAIL e \<and> ea_platform_interrupted P e")
    case True
    then obtain e where e: "io k = IO_FAIL e" "ea_platform_interrupted P e" by blast
    have "finite (interruptions P io (Suc k))" "Suc len + card (interruptions P io (Suc k)) \<le> fuel"
      using "3.prems" interruptions_simps(1)[of io k, OF True] by auto
    then show ?thesis using "3.IH"(2)[OF e] e by simp
  next
    case False
    show ?thesis
    proof (cases "\<exists>n. io k = IO_N n \<and> min n (length data) > 0")
      case True
      then obtain n where n: "io k = IO_N n" "min n (length data) > 0" by blast
      let ?n = "min (min n (length data)) (Suc len)"
      have "1 \<le> ?n" using n(2) by (simp add: Suc_le_eq)
      moreover have "Suc len + card (interruptions P io (Suc k)) \<le> Suc fuel" "finite (interruptions P io (Suc k))"
        using "3.prems" interruptions_simps(2)[of io k, OF False] by auto
      ultimately have "finite (interruptions P io (Suc k))" "Suc len - ?n + card (interruptions P io (Suc k)) \<le> fuel"
        by linarith+
      then show ?thesis using "3.IH"(1)[OF n refl] n by (simp add: Let_def split_beta)
    next
      case none: False
      then show ?thesis using False by (cases "io k") auto
    qed
  qed
qed auto

section \<open>The old file until the new one is complete\<close>

text \<open>Calls that leave a path and the inodes \<open>old\<close> alone.\<close>

fun spares :: "bytes \<Rightarrow> nat set \<Rightarrow> syscall \<Rightarrow> bool" where
  "spares p old (SC_CREATE q i) \<longleftrightarrow> q \<noteq> p \<and> i \<notin> old"
| "spares p old (SC_WRITE i xs) \<longleftrightarrow> i \<notin> old"
| "spares p old (SC_FSYNC i) \<longleftrightarrow> True"
| "spares p old (SC_RENAME q q') \<longleftrightarrow> q \<noteq> p \<and> q' \<noteq> p"
| "spares p old (SC_UNLINK q) \<longleftrightarrow> q \<noteq> p"
| "spares p old (SC_SYNC_DIR d) \<longleftrightarrow> True"

text \<open>Every inode the path may have on the disk is flushed and holds contents in \<open>G\<close>.\<close>

definition path_ok :: "fs \<Rightarrow> bytes \<Rightarrow> bytes option set \<Rightarrow> bool" where
  "path_ok s p G \<longleftrightarrow> fs_dir s p \<in> fs_disk s p
     \<and> (\<forall>d \<in> fs_disk s p. map_option (fs_data s) d \<in> G \<and> (\<forall>i. d = Some i \<longrightarrow> i \<in> fs_flushed s))"

definition disk_inodes :: "fs \<Rightarrow> bytes \<Rightarrow> nat set" where
  "disk_inodes s p = {i. Some i \<in> fs_disk s p}"

lemma bind_name_sel [simp]:
  "fs_dir (bind_name p i s) = (fs_dir s)(p := i)" "fs_data (bind_name p i s) = fs_data s"
  "fs_flushed (bind_name p i s) = fs_flushed s" "fs_disk (bind_name p i s) q = (if q = p then insert i (fs_disk s p) else fs_disk s q)"
  by (simp_all add: bind_name_def)

lemma run_sys_simps [simp]:
  "run_sys [] s = s" "run_sys (c # tr) s = run_sys tr (sys c s)" "run_sys (tr1 @ tr2) s = run_sys tr2 (run_sys tr1 s)"
  by (simp_all add: run_sys_def)

lemma path_ok_mono: "path_ok s p G \<Longrightarrow> G \<subseteq> G' \<Longrightarrow> path_ok s p G'"
  by (auto simp: path_ok_def)

lemma path_ok_content: "path_ok s p G \<Longrightarrow> content s p \<in> G"
  by (simp add: path_ok_def content_def)

text \<open>A crash leaves such contents.\<close>

lemma path_ok_crash:
  assumes "path_ok s p G" "crash s s'"
  shows "content s' p \<in> G"
proof -
  have d: "fs_dir s' p \<in> fs_disk s p" using assms(2) by (simp add: crash_def)
  then have "map_option (fs_data s) (fs_dir s' p) \<in> G" using assms(1) by (simp add: path_ok_def)
  moreover have "map_option (fs_data s') (fs_dir s' p) = map_option (fs_data s) (fs_dir s' p)"
    using assms d by (cases "fs_dir s' p") (auto simp: path_ok_def crash_def)
  ultimately show ?thesis by (simp add: content_def)
qed

lemma settled_path_ok: "settled_file s p \<Longrightarrow> path_ok s p {content s p}"
  by (simp add: settled_file_def path_ok_def content_def)

lemma spares_step:
  assumes "spares p old c" "path_ok s p G" "disk_inodes s p \<subseteq> old"
  shows "path_ok (sys c s) p G \<and> disk_inodes (sys c s) p \<subseteq> old \<and> content (sys c s) p = content s p"
proof -
  have i: "i \<in> old" if "fs_dir s p = Some i" for i using assms(2,3) that by (auto simp: path_ok_def disk_inodes_def)
  have data: "map_option (fs_data (sys c s)) d = map_option (fs_data s) d" if "d \<in> fs_disk s p" for d
    using assms(1,3) that by (cases c; cases d) (auto simp: disk_inodes_def)
  have "fs_dir (sys c s) p = fs_dir s p" "fs_disk (sys c s) p \<subseteq> fs_disk s p" "fs_dir s p \<in> fs_disk (sys c s) p"
    "old \<inter> fs_flushed s \<subseteq> fs_flushed (sys c s)"
    using assms(1,2) by (cases c; auto simp: path_ok_def)+
  then show ?thesis using assms(2,3) data unfolding path_ok_def disk_inodes_def content_def
    by (auto simp: subset_iff) 
qed

lemma spares_run:
  "\<forall>c \<in> set tr. spares p old c \<Longrightarrow> path_ok s p G \<Longrightarrow> disk_inodes s p \<subseteq> old
     \<Longrightarrow> path_ok (run_sys tr s) p G \<and> disk_inodes (run_sys tr s) p \<subseteq> old \<and> content (run_sys tr s) p = content s p"
proof (induction tr arbitrary: s)
  case (Cons c tr)
  have "path_ok (sys c s) p G \<and> disk_inodes (sys c s) p \<subseteq> old \<and> content (sys c s) p = content s p"
    by (rule spares_step) (use Cons.prems in simp_all)
  then show ?case using Cons.IH[of "sys c s"] Cons.prems(1) by simp
qed simp

lemma create_loop_name:
  "create_loop F persist env i n = Some (tmp, fd) \<Longrightarrow> \<exists>j. tmp = temp_name F persist env j \<and> fe_create env j = CR_FD fd \<and> i \<le> j \<and> j < i + n"
  by (induction n arbitrary: i) (fastforce split: create_res.splits if_splits)+

lemma temp_name_fresh [simp]: "temp_name F persist env i \<noteq> persist" "persist \<noteq> temp_name F persist env i"
  by (simp_all add: temp_name_def ascii_def)

lemma run_writes:
  "\<forall>c \<in> set tr. \<exists>xs. c = SC_WRITE fd xs \<Longrightarrow>
     fs_dir (run_sys tr s) = fs_dir s \<and> fs_disk (run_sys tr s) = fs_disk s \<and> fs_data (run_sys tr s) fd = fs_data s fd @ written tr"
  by (induction tr arbitrary: s) auto

lemma sync_parent_calls: "c \<in> set (ea_sync_parent P env p) \<Longrightarrow> \<exists>d. c = SC_SYNC_DIR d"
  by (auto simp: ea_sync_parent_def split: platform.splits option.splits if_splits)

lemma platform_replace_cases:
  "ea_platform_replace POSIX env tmp p = (NGX_OK, [SC_RENAME tmp p]) \<or> ea_platform_replace POSIX env tmp p = (NGX_ERROR, [])"
  by (simp add: ea_platform_replace_def)

text \<open>Everything up to the flush of a complete file.\<close>

definition filled :: "fs \<Rightarrow> bytes \<Rightarrow> nat \<Rightarrow> bytes \<Rightarrow> fs \<Rightarrow> bool" where
  "filled s tmp fd data t \<longleftrightarrow> fs_dir t = (fs_dir s)(tmp := Some fd) \<and> fd \<in> fs_flushed t \<and> fs_data t fd = data"

lemma filled_run:
  assumes "\<forall>c \<in> set ws. \<exists>xs. c = SC_WRITE fd xs" "written ws = data"
  shows "filled s tmp fd data (run_sys (SC_CREATE tmp fd # ws @ [SC_FSYNC fd]) s)"
  using run_writes[OF assms(1)] assms(2) by (simp add: filled_def)

lemma write_file_cases:
  assumes "ea_write_file fuel POSIX F env data p = (rc, tr)"
  obtains (nothing) "tr = []" "rc = Some NGX_ERROR"
  | (given_up) j tmp fd ws tl where "fe_create env j = CR_FD fd" "tmp = temp_name F p env j" "\<forall>c \<in> set ws. \<exists>xs. c = SC_WRITE fd xs"
      "tr = SC_CREATE tmp fd # ws @ tl" "rc = None \<and> tl = [] \<or> rc = Some NGX_ERROR \<and> (tl = unlink_temp env tmp \<or> tl = SC_FSYNC fd # unlink_temp env tmp)"
  | (replaced) j tmp fd ws where "fe_create env j = CR_FD fd" "tmp = temp_name F p env j" "\<forall>c \<in> set ws. \<exists>xs. c = SC_WRITE fd xs"
      "written ws = data" "rc = Some NGX_OK"
      "tr = (SC_CREATE tmp fd # ws @ [SC_FSYNC fd]) @ SC_RENAME tmp p # ea_sync_parent POSIX env p"
proof (cases "fe_alloc env")
  case False
  show ?thesis by (rule nothing) (use False assms in \<open>simp_all add: ea_write_file_def\<close>)
next
  case al: True
  show ?thesis
  proof (cases "create_loop F p env 0 8")
    case None
    show ?thesis by (rule nothing) (use None al assms in \<open>simp_all add: ea_write_file_def\<close>)
  next
    case (Some r)
    obtain tmp fd where r: "r = (tmp, fd)" by fastforce
    obtain j where j: "fe_create env j = CR_FD fd" "tmp = temp_name F p env j"
      using create_loop_name Some r by blast
    obtain rc1 ws where w: "ea_write_all fuel POSIX (fe_write env) fd 0 data = (rc1, ws)" by fastforce
    note sh = write_all_shape[OF w]
    then have ws: "\<forall>c \<in> set ws. \<exists>xs. c = SC_WRITE fd xs" by blast
    consider "rc1 = None" | "rc1 = Some NGX_ERROR" | "rc1 = Some NGX_OK" using sh by blast
    then show ?thesis
    proof cases
      case 1
      show ?thesis by (rule given_up[OF j ws, of "[]"]) (use 1 al Some r w assms in \<open>simp_all add: ea_write_file_def\<close>)
    next
      case 2
      show ?thesis by (rule given_up[OF j ws, of "unlink_temp env tmp"]) (use 2 al Some r w assms in \<open>simp_all add: ea_write_file_def\<close>)
    next
      case 3
      have wr: "written ws = data" using sh 3 by auto
      obtain rc2 tl where f: "finish_file POSIX env fd tmp p = (rc2, tl)" by fastforce
      have e: "rc = Some rc2" "tr = SC_CREATE tmp fd # ws @ tl" using al Some r w 3 f assms by (simp_all add: ea_write_file_def)
      show ?thesis
      proof (cases "rc2 = NGX_OK")
        case True
        then have "tl = SC_FSYNC fd # SC_RENAME tmp p # ea_sync_parent POSIX env p"
          using f platform_replace_cases[of env tmp p] by (auto simp: finish_file_def split: if_splits prod.splits)
        then show ?thesis using replaced[OF j ws wr] e True by simp
      next
        case False
        then have "rc2 = NGX_ERROR \<and> (tl = unlink_temp env tmp \<or> tl = SC_FSYNC fd # unlink_temp env tmp)"
          using f platform_replace_cases[of env tmp p] by (auto simp: finish_file_def split: if_splits prod.splits)
        then show ?thesis using given_up[OF j ws, of tl] e by blast
      qed
    qed
  qed
qed

lemma spares_writes: "\<forall>c \<in> set ws. \<exists>xs. c = SC_WRITE fd xs \<Longrightarrow> fd \<notin> old \<Longrightarrow> \<forall>c \<in> set ws. spares p old c"
  by auto

text \<open>On POSIX, at every moment of the write the path holds its old contents or the whole new ones, and so it does
  after a crash.\<close>

lemma rename_complete:
  assumes "path_ok t p G" "fs_dir t tmp = Some fd" "fd \<in> fs_flushed t" "fs_data t fd = data" "tmp \<noteq> p"
  shows "path_ok (sys (SC_RENAME tmp p) t) p (insert (Some data) G)" "content (sys (SC_RENAME tmp p) t) p = Some data"
  using assms by (auto simp: path_ok_def content_def)

lemma sync_keeps:
  assumes "\<forall>c \<in> set tr. \<exists>d. c = SC_SYNC_DIR d" "path_ok s p G"
  shows "path_ok (run_sys tr s) p G" "content (run_sys tr s) p = content s p"
proof -
  have "\<forall>c \<in> set tr. spares p (disk_inodes s p) c" using assms(1) by auto
  from spares_run[OF this assms(2) order_refl]
  show "path_ok (run_sys tr s) p G" "content (run_sys tr s) p = content s p" by simp_all
qed

lemma write_file_held:
  assumes ok: "path_ok s p G" and doc: "creates_doc F p env s" and w: "ea_write_file fuel POSIX F env data p = (rc, tr)"
  shows "path_ok (run_sys (take n tr) s) p (insert (Some data) G)"
    and "content (run_sys (take n tr) s) p \<in> {content s p, Some data}"
    and "content (run_sys tr s) p = (if rc = Some NGX_OK then Some data else content s p)"
proof -
  let ?old = "disk_inodes s p"
  have quiet: "path_ok (run_sys (take m ts) s) p G \<and> content (run_sys (take m ts) s) p = content s p"
    if "\<forall>c \<in> set ts. spares p ?old c" for ts m
    using spares_run[OF _ ok order_refl, of "take m ts"] that by (meson in_set_takeD)
  have sp: "\<forall>c \<in> set (SC_CREATE (temp_name F p env j) fd # ws @ tl). spares p ?old c"
    if "fe_create env j = CR_FD fd" "\<forall>c \<in> set ws. \<exists>xs. c = SC_WRITE fd xs" "\<forall>c \<in> set tl. spares p ?old c" for j fd ws tl
    using doc that by (auto simp: creates_doc_def disk_inodes_def)
  have still: "path_ok (run_sys (take n tr) s) p (insert (Some data) G) \<and> content (run_sys (take n tr) s) p \<in> {content s p, Some data}
      \<and> content (run_sys tr s) p = (if rc = Some NGX_OK then Some data else content s p)"
    if "\<forall>c \<in> set tr. spares p ?old c" "rc \<noteq> Some NGX_OK"
    using quiet[OF that(1), of n] quiet[OF that(1), of "length tr"] that(2) path_ok_mono[OF _ subset_insertI] by auto
  have "path_ok (run_sys (take n tr) s) p (insert (Some data) G) \<and> content (run_sys (take n tr) s) p \<in> {content s p, Some data}
      \<and> content (run_sys tr s) p = (if rc = Some NGX_OK then Some data else content s p)"
  proof (rule write_file_cases[OF w])
    assume "tr = []" "rc = Some NGX_ERROR"
    then show ?thesis using still by simp
  next
    fix j tmp fd ws tl
    assume a: "fe_create env j = CR_FD fd" "tmp = temp_name F p env j" "\<forall>c \<in> set ws. \<exists>xs. c = SC_WRITE fd xs"
      "tr = SC_CREATE tmp fd # ws @ tl" "rc = None \<and> tl = [] \<or> rc = Some NGX_ERROR \<and> (tl = unlink_temp env tmp \<or> tl = SC_FSYNC fd # unlink_temp env tmp)"
    have "\<forall>c \<in> set tl. spares p ?old c" using a(2,5) by (auto simp: unlink_temp_def)
    then have "\<forall>c \<in> set tr. spares p ?old c" using sp[OF a(1,3)] a(2,4) by simp
    then show ?thesis using still a(5) by auto
  next
    fix j tmp fd ws
    assume a: "fe_create env j = CR_FD fd" "tmp = temp_name F p env j" "\<forall>c \<in> set ws. \<exists>xs. c = SC_WRITE fd xs"
      "written ws = data" "rc = Some NGX_OK"
      "tr = (SC_CREATE tmp fd # ws @ [SC_FSYNC fd]) @ SC_RENAME tmp p # ea_sync_parent POSIX env p"
    let ?a = "SC_CREATE tmp fd # ws @ [SC_FSYNC fd]" and ?t = "ea_sync_parent POSIX env p"
    have q: "\<forall>c \<in> set ?a. spares p ?old c" using sp[OF a(1,3), of "[SC_FSYNC fd]"] a(2) by simp
    have "filled s tmp fd data (run_sys ?a s)" by (rule filled_run[OF a(3,4)])
    then have r: "path_ok (sys (SC_RENAME tmp p) (run_sys ?a s)) p (insert (Some data) G)"
      "content (sys (SC_RENAME tmp p) (run_sys ?a s)) p = Some data"
      using rename_complete[of "run_sys ?a s" p G tmp fd data] quiet[OF q, of "length ?a"] a(2) by (auto simp: filled_def)
    have after: "path_ok (run_sys (?a @ SC_RENAME tmp p # take m ?t) s) p (insert (Some data) G)
        \<and> content (run_sys (?a @ SC_RENAME tmp p # take m ?t) s) p = Some data" for m
      using sync_keeps[OF _ r(1), of "take m ?t"] r(2) sync_parent_calls by (fastforce dest: in_set_takeD)
    show ?thesis
    proof (cases "n \<le> length ?a")
      case True
      then have "take n tr = take n ?a" by (simp only: a(6) take_append) simp
      then show ?thesis using quiet[OF q, of n] after[of "length ?t"] a(5,6) path_ok_mono[OF _ subset_insertI] by auto
    next
      case False
      then obtain m where "n = Suc (length ?a + m)" using less_imp_Suc_add not_le by metis
      then have "take n tr = ?a @ SC_RENAME tmp p # take m ?t" by (simp only: a(6) take_append) simp
      then show ?thesis using after[of m] after[of "length ?t"] a(5,6) by simp
    qed
  qed
  then show "path_ok (run_sys (take n tr) s) p (insert (Some data) G)" "content (run_sys (take n tr) s) p \<in> {content s p, Some data}"
    "content (run_sys tr s) p = (if rc = Some NGX_OK then Some data else content s p)" by blast+
qed

text \<open>A write that flushed the directory too is safe on the disk; one that ended leaves no other name.\<close>

lemma write_file_durable:
  assumes "ea_write_file fuel POSIX F env data p = (Some NGX_OK, tr)" "path_ok s p G" "creates_doc F p env s"
    and "fe_dir_open env" "fe_dir_sync env" "parent_of p \<noteq> None"
  shows "settled_file (run_sys tr s) p"
proof -
  obtain d where d: "parent_of p = Some d" using assms(6) by blast
  have e: "ea_sync_parent POSIX env p = [SC_SYNC_DIR d]" using assms(4,5) d by (simp add: ea_sync_parent_def)
  obtain tr' where "tr = tr' @ [SC_SYNC_DIR d]"
    using assms(1) by (rule write_file_cases) (auto simp: e)
  then have "fs_disk (run_sys tr s) p = {fs_dir (run_sys tr s) p}" using d by simp
  moreover have "path_ok (run_sys (take (length tr) tr) s) p (insert (Some data) G)" by (rule write_file_held(1)[OF assms(2,3,1)])
  ultimately show ?thesis by (auto simp: settled_file_def path_ok_def)
qed

lemma sync_dir_names: "\<forall>c \<in> set tr. \<exists>d. c = SC_SYNC_DIR d \<Longrightarrow> fs_dir (run_sys tr s) = fs_dir s"
  by (induction tr arbitrary: s) auto

lemma write_file_clean:
  assumes w: "ea_write_file fuel POSIX F env data p = (rc, tr)" and doc: "creates_doc F p env s" and "rc \<noteq> None" "fe_unlink env" "q \<noteq> p"
  shows "fs_dir (run_sys tr s) q = fs_dir s q"
  using w
proof (rule write_file_cases)
  fix j tmp fd ws tl
  assume a: "fe_create env j = CR_FD fd" "tmp = temp_name F p env j" "\<forall>c \<in> set ws. \<exists>xs. c = SC_WRITE fd xs"
    "tr = SC_CREATE tmp fd # ws @ tl" "rc = None \<and> tl = [] \<or> rc = Some NGX_ERROR \<and> (tl = unlink_temp env tmp \<or> tl = SC_FSYNC fd # unlink_temp env tmp)"
  have "fs_dir s tmp = None" using doc a(1,2) by (simp add: creates_doc_def)
  then show ?thesis using a(4,5) run_writes[OF a(3)] assms(3,4) by (auto simp: unlink_temp_def)
next
  fix j tmp fd ws
  assume a: "fe_create env j = CR_FD fd" "tmp = temp_name F p env j" "\<forall>c \<in> set ws. \<exists>xs. c = SC_WRITE fd xs"
    "tr = (SC_CREATE tmp fd # ws @ [SC_FSYNC fd]) @ SC_RENAME tmp p # ea_sync_parent POSIX env p"
  have "fs_dir s tmp = None" using doc a(1,2) by (simp add: creates_doc_def)
  then show ?thesis using a(4) run_writes[OF a(3)] sync_dir_names[of "ea_sync_parent POSIX env p"] sync_parent_calls assms(5) by auto
qed simp

text \<open>The name of the temporary file fits in its buffer, with the terminating zero.\<close>

lemma temp_name_fits:
  assumes "length (nf_pid F) \<le> 20" "\<And>x. length (nf_hex F x) \<le> 16"
  shows "length (temp_name F persist env i) + 1 \<le> length persist + 64"
  using assms(1) assms(2)[of "xor (xor (fst (fe_rnd env i)) (push_bit 24 (snd (fe_rnd env i)))) (push_bit 48 (of_nat i))"]
  by (simp add: temp_name_def ascii_def)

end
