(* ===== verification/EA_Adapter.thy ===== *)
theory EA_Adapter
  imports EA_RedisRun EA_File
begin

text \<open>
  The binding of hiredis to nginx's event loop, from the creation of an asynchronous context to its end:
  the hooks hiredis calls, the handlers nginx calls, and the pointers between the worker, the context
  and the connection.  A use of a connection that was given back, or of a context that was freed, is
  undefined behaviour.
\<close>

section \<open>Data\<close>

text \<open>The fields of an \<^verbatim>\<open>ngx_event_t\<close> and of an \<^verbatim>\<open>ngx_connection_t\<close> the module uses.  \<open>cn_ours\<close>: its handlers and its
  data are the module's.  \<open>cn_used\<close>: it is taken from nginx's free connections.\<close>

record event_st =
  ev_active :: bool
  ev_ready :: bool
  ev_timer_set :: bool
  ev_posted :: bool

record conn_st =
  cn_fd :: int
  cn_read :: event_st
  cn_write :: event_st
  cn_ours :: bool
  cn_used :: bool

text \<open>An asynchronous context of hiredis: its socket, whether its event hooks are set, whether it exists, and
  whether it has been connected.\<close>

record ctx_st =
  cx_fd :: int
  cx_hooks :: bool
  cx_live :: bool
  cx_connected :: bool

text \<open>The adapter inside the worker; \<open>ad_timeout\<close> is the delay of its timer while it is set.\<close>

record adapter =
  ad_context :: "nat option"
  ad_conn :: "nat option"
  ad_timeout :: "64 word option"

record rstate =
  rs_worker :: worker
  rs_ad :: adapter
  rs_conns :: "nat \<Rightarrow> conn_st"
  rs_ctxs :: "nat \<Rightarrow> ctx_st"

text \<open>What the module uses of nginx's event loop: \<^verbatim>\<open>ngx_handle_read_event\<close> and \<^verbatim>\<open>ngx_handle_write_event\<close> (do they
  succeed, and the event then), \<^verbatim>\<open>ngx_del_event\<close>, \<^verbatim>\<open>ngx_get_connection\<close>, \<^verbatim>\<open>ngx_free_connection\<close>.\<close>

record evloop =
  el_add_read :: "event_st \<Rightarrow> bool \<times> event_st"
  el_add_write :: "event_st \<Rightarrow> bool \<times> event_st"
  el_del :: "event_st \<Rightarrow> event_st"
  el_get :: "(nat \<Rightarrow> conn_st) \<Rightarrow> int \<Rightarrow> (nat \<times> conn_st) option"
  el_free :: "conn_st \<Rightarrow> conn_st"

definition quiet :: "event_st \<Rightarrow> bool" where
  "quiet e \<longleftrightarrow> \<not> ev_active e \<and> \<not> ev_timer_set e \<and> \<not> ev_posted e"

definition evloop_doc :: "evloop \<Rightarrow> bool" where
  "evloop_doc L \<longleftrightarrow>
     (\<forall>e. \<not> ev_active (el_del L e) \<and> ev_timer_set (el_del L e) = ev_timer_set e \<and> ev_posted (el_del L e) = ev_posted e)
   \<and> (\<forall>cs fd i c. el_get L cs fd = Some (i, c) \<longrightarrow>
        \<not> cn_used (cs i) \<and> cn_used c \<and> cn_fd c = fd \<and> quiet (cn_read c) \<and> quiet (cn_write c))
   \<and> (\<forall>c. cn_read (el_free L c) = cn_read c \<and> cn_write (el_free L c) = cn_write c \<and> cn_ours (el_free L c) = cn_ours c)"

section \<open>The hooks\<close>

definition the_conn :: "rstate \<Rightarrow> nat \<Rightarrow> conn_st option" where
  "the_conn s i = (if cn_used (rs_conns s i) then Some (rs_conns s i) else None)"

definition put_conn :: "nat \<Rightarrow> conn_st \<Rightarrow> rstate \<Rightarrow> rstate" where
  "put_conn i c s = s \<lparr> rs_conns := (rs_conns s)(i := c) \<rparr>"

definition not_ready :: "rstate \<Rightarrow> rstate" where
  "not_ready s = s \<lparr> rs_worker := rs_worker s \<lparr> wk_ready := False \<rparr> \<rparr>"

text \<open>\<^verbatim>\<open>struct timeval\<close> to \<^verbatim>\<open>ngx_msec_t\<close>, which wraps.\<close>

definition timer_msec :: "int \<Rightarrow> int \<Rightarrow> 64 word" where
  "timer_msec sec usec =
     (let t = word_of_int sec * 1000 + word_of_int usec div 1000 in if t = 0 then 1 else t)"

definition ea_redis_schedule_timer :: "int \<Rightarrow> int \<Rightarrow> rstate \<Rightarrow> rstate" where
  "ea_redis_schedule_timer sec usec s =
     (if ad_conn (rs_ad s) = None then s
      else let s = (if ad_timeout (rs_ad s) \<noteq> None then s \<lparr> rs_ad := rs_ad s \<lparr> ad_timeout := None \<rparr> \<rparr> else s)
           in s \<lparr> rs_ad := rs_ad s \<lparr> ad_timeout := Some (timer_msec sec usec) \<rparr> \<rparr>)"

definition ea_redis_add_read :: "evloop \<Rightarrow> rstate \<Rightarrow> rstate option" where
  "ea_redis_add_read L s =
     (case ad_conn (rs_ad s) of
        None \<Rightarrow> Some s
      | Some i \<Rightarrow> do {
          c \<leftarrow> the_conn s i;
          if ev_active (cn_read c) then Some s
          else let (ok, e) = el_add_read L (cn_read c);
                   s = put_conn i (c \<lparr> cn_read := e \<rparr>) s
               in Some (if ok then s else not_ready s)
        })"

definition ea_redis_del_read :: "evloop \<Rightarrow> rstate \<Rightarrow> rstate option" where
  "ea_redis_del_read L s =
     (case ad_conn (rs_ad s) of
        None \<Rightarrow> Some s
      | Some i \<Rightarrow> do {
          c \<leftarrow> the_conn s i;
          Some (if ev_active (cn_read c) then put_conn i (c \<lparr> cn_read := el_del L (cn_read c) \<rparr>) s else s)
        })"

definition ea_redis_add_write :: "evloop \<Rightarrow> rstate \<Rightarrow> rstate option" where
  "ea_redis_add_write L s =
     (case ad_conn (rs_ad s) of
        None \<Rightarrow> Some s
      | Some i \<Rightarrow> do {
          c \<leftarrow> the_conn s i;
          let s = (if ev_active (cn_write c) then s
                   else let (ok, e) = el_add_write L (cn_write c);
                            s = put_conn i (c \<lparr> cn_write := e \<rparr>) s
                        in if ok then s else not_ready s);
          c \<leftarrow> the_conn s i;
          Some (if ev_ready (cn_write c) then put_conn i (c \<lparr> cn_write := cn_write c \<lparr> ev_posted := True \<rparr> \<rparr>) s else s)
        })"

definition ea_redis_del_write :: "evloop \<Rightarrow> rstate \<Rightarrow> rstate option" where
  "ea_redis_del_write L s =
     (case ad_conn (rs_ad s) of
        None \<Rightarrow> Some s
      | Some i \<Rightarrow> do {
          c \<leftarrow> the_conn s i;
          Some (if ev_active (cn_write c) then put_conn i (c \<lparr> cn_write := el_del L (cn_write c) \<rparr>) s else s)
        })"

text \<open>One event of a connection that goes: out of the loop, out of the timers, out of the posted events.\<close>

definition drop_event :: "evloop \<Rightarrow> event_st \<Rightarrow> event_st" where
  "drop_event L e =
     (let e = (if ev_active e then el_del L e else e);
          e = (if ev_timer_set e then e \<lparr> ev_timer_set := False \<rparr> else e)
      in if ev_posted e then e \<lparr> ev_posted := False \<rparr> else e)"

definition ea_redis_cleanup :: "evloop \<Rightarrow> rstate \<Rightarrow> rstate option" where
  "ea_redis_cleanup L s =
     (let conn = ad_conn (rs_ad s);
          s = s \<lparr> rs_ad := rs_ad s \<lparr> ad_context := None, ad_conn := None \<rparr> \<rparr>
      in case conn of
           None \<Rightarrow> Some s
         | Some i \<Rightarrow> do {
             c \<leftarrow> the_conn s i;
             let c = c \<lparr> cn_read := drop_event L (cn_read c), cn_write := drop_event L (cn_write c) \<rparr>;
             let s = (if ad_timeout (rs_ad s) \<noteq> None then s \<lparr> rs_ad := rs_ad s \<lparr> ad_timeout := None \<rparr> \<rparr> else s);
             Some (put_conn i ((el_free L c) \<lparr> cn_fd := -1 \<rparr>) s)
           })"

text \<open>The context gets the hooks, the connection the handlers, and the adapter both.\<close>

definition ea_redis_attach :: "evloop \<Rightarrow> nat \<Rightarrow> rstate \<Rightarrow> ngx_rc \<times> rstate" where
  "ea_redis_attach L ac s =
     (if cx_hooks (rs_ctxs s ac) then (NGX_ERROR, s)
      else case el_get L (rs_conns s) (cx_fd (rs_ctxs s ac)) of
             None \<Rightarrow> (NGX_ERROR, s)
           | Some (i, c) \<Rightarrow> (NGX_OK,
               (put_conn i (c \<lparr> cn_ours := True \<rparr>) s)
                 \<lparr> rs_ad := rs_ad s \<lparr> ad_context := Some ac, ad_conn := Some i \<rparr>,
                   rs_ctxs := (rs_ctxs s)(ac := (rs_ctxs s ac) \<lparr> cx_hooks := True \<rparr>) \<rparr>))"

section \<open>What hiredis does when it is called\<close>

text \<open>The hooks and the callbacks of the module, in any order.  The callbacks of requests, and the commands
  of requests that go on, touch the breaker, the sequence and the calls only (\<open>request_hook\<close>
  below); the others are the operations of the worker.\<close>

datatype hook =
    HK_ADD_READ | HK_DEL_READ | HK_ADD_WRITE | HK_DEL_WRITE | HK_TIMER int int
  | HK_CONNECT bool bool bool bool | HK_HANDSHAKE "redis_reply option"
  | HK_REQUEST nat time "64 word" "hcall list"

definition on_worker :: "(worker \<Rightarrow> worker) \<Rightarrow> rstate \<Rightarrow> rstate" where
  "on_worker f s = s \<lparr> rs_worker := f (rs_worker s) \<rparr>"

definition on_ctx :: "nat \<Rightarrow> (ctx_st \<Rightarrow> ctx_st) \<Rightarrow> rstate \<Rightarrow> rstate" where
  "on_ctx a f s = s \<lparr> rs_ctxs := (rs_ctxs s)(a := f (rs_ctxs s a)) \<rparr>"

definition set_request :: "nat \<Rightarrow> time \<Rightarrow> 64 word \<Rightarrow> hcall list \<Rightarrow> worker \<Rightarrow> worker" where
  "set_request n bu sq cs w = w \<lparr> wk_failures := n, wk_breaker_until := bu, wk_sequence := sq, wk_calls := cs \<rparr>"

text \<open>\<open>C\<close> has the configuration, the script and the number formatting of the worker.\<close>

type_synonym rcontext = "redis_conf \<times> bytes \<times> (int \<Rightarrow> bytes)"

fun run_hook :: "evloop \<Rightarrow> rcontext \<Rightarrow> nat \<Rightarrow> hook \<Rightarrow> rstate \<Rightarrow> rstate option" where
  "run_hook L C a HK_ADD_READ s = (if cx_hooks (rs_ctxs s a) then ea_redis_add_read L s else Some s)"
| "run_hook L C a HK_DEL_READ s = (if cx_hooks (rs_ctxs s a) then ea_redis_del_read L s else Some s)"
| "run_hook L C a HK_ADD_WRITE s = (if cx_hooks (rs_ctxs s a) then ea_redis_add_write L s else Some s)"
| "run_hook L C a HK_DEL_WRITE s = (if cx_hooks (rs_ctxs s a) then ea_redis_del_write L s else Some s)"
| "run_hook L C a (HK_TIMER sec usec) s = Some (if cx_hooks (rs_ctxs s a) then ea_redis_schedule_timer sec usec s else s)"
| "run_hook L (rcf, script, fmt) a (HK_CONNECT ok q_auth q_select q_script) s =
     Some (on_ctx a (\<lambda>x. x \<lparr> cx_connected := cx_connected x \<or> ok \<rparr>)
             (on_worker (ea_redis_connect_callback rcf script fmt ok q_auth q_select q_script) s))"
| "run_hook L C a (HK_HANDSHAKE reply) s = Some (on_worker (ea_redis_handshake_callback a reply) s)"
| "run_hook L C a (HK_REQUEST n bu sq cs) s = Some (on_worker (set_request n bu sq cs) s)"

fun run_hooks :: "evloop \<Rightarrow> rcontext \<Rightarrow> nat \<Rightarrow> hook list \<Rightarrow> rstate \<Rightarrow> rstate option" where
  "run_hooks L C a [] s = Some s"
| "run_hooks L C a (h # hs) s = do { s \<leftarrow> run_hook L C a h s; run_hooks L C a hs s }"

text \<open>The end of a context: the cleanup hook; then, for one that has been connected, the disconnect callback.\<close>

definition free_ctx :: "evloop \<Rightarrow> nat \<Rightarrow> nat \<Rightarrow> rstate \<Rightarrow> rstate option" where
  "free_ctx L a rnd s = do {
     s \<leftarrow> (if cx_hooks (rs_ctxs s a) then ea_redis_cleanup L s else Some s);
     let s = (if cx_connected (rs_ctxs s a) then on_worker (ea_redis_disconnect_callback rnd) s else s);
     Some (on_ctx a (\<lambda>x. x \<lparr> cx_live := False \<rparr>) s)
   }"

text \<open>A call of hiredis on a context: some hooks and callbacks, and perhaps its end.\<close>

type_synonym outcome = "hook list \<times> nat option"

definition hiredis_call :: "evloop \<Rightarrow> rcontext \<Rightarrow> nat \<Rightarrow> outcome \<Rightarrow> rstate \<Rightarrow> rstate option" where
  "hiredis_call L C a out s =
     (if \<not> cx_live (rs_ctxs s a) then None
      else do {
        s \<leftarrow> run_hooks L C a (fst out) s;
        case snd out of None \<Rightarrow> Some s | Some rnd \<Rightarrow> free_ctx L a rnd s
      })"

section \<open>The handlers\<close>

text \<open>What the system says of a socket: \<^verbatim>\<open>poll\<close> and whether \<^verbatim>\<open>POLLIN\<close> is set, \<^verbatim>\<open>ngx_socket_nread\<close> and the number it stores.\<close>

record sock =
  sk_poll :: int
  sk_pollin :: bool
  sk_nread :: int
  sk_available :: int

definition ea_win32_socket_readable :: "sock \<Rightarrow> ngx_rc" where
  "ea_win32_socket_readable k =
     (if sk_nread k = -1 then NGX_ERROR else if sk_available k > 0 then NGX_OK else NGX_AGAIN)"

definition ea_platform_socket_readable :: "platform \<Rightarrow> sock \<Rightarrow> ngx_rc" where
  "ea_platform_socket_readable P k =
     (case P of WIN32 \<Rightarrow> ea_win32_socket_readable k
      | POSIX \<Rightarrow> if sk_poll k > 0 \<and> sk_pollin k then NGX_OK else NGX_AGAIN)"

text \<open>\<open>h k\<close> is what hiredis does in the \<open>k\<close>-th round, \<open>io k fd\<close> what the system says then.  The result
  says whether the loop has come to its end within the fuel.\<close>

fun read_drain ::
  "nat \<Rightarrow> platform \<Rightarrow> evloop \<Rightarrow> rcontext \<Rightarrow> (nat \<Rightarrow> outcome) \<Rightarrow> (nat \<Rightarrow> int \<Rightarrow> sock) \<Rightarrow> nat \<Rightarrow> nat \<Rightarrow> rstate
     \<Rightarrow> (bool \<times> rstate) option" where
  "read_drain 0 P L C h io k i s = Some (False, s)"
| "read_drain (Suc fuel) P L C h io k i s =
     (case ad_context (rs_ad s) of
        None \<Rightarrow> Some (True, s)
      | Some a \<Rightarrow> do {
          s \<leftarrow> hiredis_call L C a (h k) s;
          if ad_context (rs_ad s) = None then Some (True, s)
          else do {
            c \<leftarrow> the_conn s i;
            if ea_platform_socket_readable P (io k (cn_fd c)) \<noteq> NGX_OK then Some (True, s)
            else read_drain fuel P L C h io (Suc k) i s
          }
        })"

text \<open>The handlers find the adapter in the data of the connection.\<close>

definition ea_redis_read_handler ::
  "nat \<Rightarrow> platform \<Rightarrow> evloop \<Rightarrow> rcontext \<Rightarrow> (nat \<Rightarrow> outcome) \<Rightarrow> (nat \<Rightarrow> int \<Rightarrow> sock) \<Rightarrow> nat \<Rightarrow> rstate
     \<Rightarrow> (bool \<times> rstate) option" where
  "ea_redis_read_handler fuel P L C h io i s =
     (if \<not> cn_ours (rs_conns s i) then None else read_drain fuel P L C h io 0 i s)"

definition ea_redis_write_handler :: "evloop \<Rightarrow> rcontext \<Rightarrow> outcome \<Rightarrow> nat \<Rightarrow> rstate \<Rightarrow> rstate option" where
  "ea_redis_write_handler L C out i s =
     (if \<not> cn_ours (rs_conns s i) then None
      else case ad_context (rs_ad s) of None \<Rightarrow> Some s | Some a \<Rightarrow> hiredis_call L C a out s)"

definition ea_redis_timeout_handler :: "evloop \<Rightarrow> rcontext \<Rightarrow> outcome \<Rightarrow> rstate \<Rightarrow> rstate option" where
  "ea_redis_timeout_handler L C out s =
     (case ad_context (rs_ad s) of None \<Rightarrow> Some s | Some a \<Rightarrow> hiredis_call L C a out s)"

section \<open>The start and the end of a connection\<close>

text \<open>A new context from \<^verbatim>\<open>redisAsyncConnect\<close>.\<close>

definition new_ctx :: "int \<Rightarrow> ctx_st" where
  "new_ctx fd = \<lparr> cx_fd = fd, cx_hooks = False, cx_live = True, cx_connected = False \<rparr>"

text \<open>The part of \<^verbatim>\<open>redis_connect\<close> that concerns the context, for what \<^verbatim>\<open>redisAsyncConnect\<close> and TLS give: the
  adapter is attached unless TLS fails, and a context without adapter is freed again.  The rest, in
  \<open>ea_redis_connect\<close>, only needs to know whether the attachment succeeded.\<close>

definition connect_ctx :: "evloop \<Rightarrow> redis_conf \<Rightarrow> int \<Rightarrow> conn \<Rightarrow> rstate \<Rightarrow> conn \<times> rstate" where
  "connect_ctx L rcf fd c s =
     (case c of
        CONN ac ssl_ok session_ok _ \<Rightarrow>
          let s = on_ctx ac (\<lambda>_. new_ctx fd) s;
              tls_ok = (rd_tls rcf \<longrightarrow> (wk_ssl (rs_worker s) \<or> ssl_ok) \<and> session_ok);
              (rc, s) = (if tls_ok then ea_redis_attach L ac s else (NGX_ERROR, s));
              s = (if rc = NGX_OK then s else on_ctx ac (\<lambda>x. x \<lparr> cx_live := False \<rparr>) s)
          in (CONN ac ssl_ok session_ok (rc = NGX_OK), s)
      | _ \<Rightarrow> (c, s))"

text \<open>The timer's handler, and the start of a process, whose memory of the worker is zero.\<close>

definition reconnect_fires :: "evloop \<Rightarrow> redis_conf \<Rightarrow> int \<Rightarrow> conn \<Rightarrow> nat \<Rightarrow> rstate \<Rightarrow> rstate" where
  "reconnect_fires L rcf fd c rnd s =
     (let s = on_worker (\<lambda>w. w \<lparr> wk_timer := None \<rparr>) s;
          (c, s) = (if wk_exiting (rs_worker s) then (c, s) else connect_ctx L rcf fd c s)
      in on_worker (ea_redis_reconnect rcf c rnd) s)"

definition process_starts :: "evloop \<Rightarrow> redis_conf \<Rightarrow> 64 word \<Rightarrow> int \<Rightarrow> conn \<Rightarrow> nat \<Rightarrow> rstate \<Rightarrow> rstate" where
  "process_starts L rcf nonce fd c rnd s =
     (let s = s \<lparr> rs_worker := worker0 nonce, rs_ad := \<lparr> ad_context = None, ad_conn = None, ad_timeout = None \<rparr> \<rparr>;
          (c, s) = connect_ctx L rcf fd c s
      in on_worker (\<lambda>_. ea_redis_init_process rcf nonce c rnd) s)"

text \<open>The connect callback is set last; hiredis then asks for the first write event.\<close>

definition after_connect :: "evloop \<Rightarrow> rcontext \<Rightarrow> hook list \<Rightarrow> rstate \<Rightarrow> rstate option" where
  "after_connect L C hs s =
     (case ad_context (rs_ad s) of None \<Rightarrow> Some s | Some a \<Rightarrow> hiredis_call L C a (hs, None) s)"

text \<open>The end of the process: the worker's context, if it has one, is freed.\<close>

definition process_ends :: "evloop \<Rightarrow> rcontext \<Rightarrow> nat \<Rightarrow> rstate \<Rightarrow> rstate option" where
  "process_ends L C rnd s =
     (let s' = on_worker ea_redis_exit_process s
      in case wk_context (rs_worker s) of
           None \<Rightarrow> Some s'
         | Some a \<Rightarrow> hiredis_call L C a ([], Some rnd) s')"

end
