(* ===== verification/EA_Attach.thy ===== *)
theory EA_Attach
  imports EA_Adapter EA_Remote
begin

text \<open>
  All interleavings of the handlers of the Redis connection, of the requests that send commands, of its
  start, loss and renewal, and of whatever else nginx does with its connections.  No pointer of the
  module is used after its object is gone, with one exception at the end of the process.
\<close>

section \<open>The worker\<close>

text \<open>A request that sends a command, or gets its answer, changes what \<open>HK_REQUEST\<close> changes.\<close>

definition request_change :: "worker \<Rightarrow> worker \<Rightarrow> bool" where
  "request_change w w' \<longleftrightarrow> (\<exists>n bu sq cs. w' = set_request n bu sq cs w)"

lemma request_changeI:
  "wk_context w' = wk_context w \<Longrightarrow> wk_ssl w' = wk_ssl w \<Longrightarrow> wk_timer w' = wk_timer w \<Longrightarrow> wk_nonce w' = wk_nonce w
   \<Longrightarrow> wk_backoff w' = wk_backoff w \<Longrightarrow> wk_ready w' = wk_ready w \<Longrightarrow> wk_exiting w' = wk_exiting w \<Longrightarrow> request_change w w'"
  unfolding request_change_def set_request_def
  by (intro exI[of _ "wk_failures w'"] exI[of _ "wk_breaker_until w'"] exI[of _ "wk_sequence w'"] exI[of _ "wk_calls w'"]) simp

lemma failure_change: "ea_redis_record_failure w now = Some w' \<Longrightarrow> request_change w w'"
  by (rule request_changeI) (auto simp: ea_redis_record_failure_def Let_def split: if_splits Option.bind_splits)

lemma request_change_simps [simp]:
  "request_change w w" "request_change w (w \<lparr> wk_failures := n \<rparr>)" "request_change w (w \<lparr> wk_calls := cs \<rparr>)"
  "request_change (w \<lparr> wk_calls := cs \<rparr>) w' = request_change w w'" "request_change w (evalsha fmt sha z ev bl a b c w)"
  by (auto intro: request_changeI simp: evalsha_def Let_def) (auto simp: request_change_def set_request_def)

lemma check_change: "ea_redis_check rcf z now alloc queue_ok w ctx = Some (rc, w', ctx', parked) \<Longrightarrow> request_change w w'"
  by (erule check_shape) (auto dest: failure_change)

lemma reply_change: "ea_redis_check_callback E z now reply w ctx = Some (w', ctx') \<Longrightarrow> request_change w w'"
  by (drule reply_shape) (auto dest: failure_change)

lemma record_change: "ea_redis_record fmt sha rcf z now alloc w ctx = Some (w', ctx') \<Longrightarrow> request_change w w'"
  by (erule record_shape) simp_all

lemma record_reply_change: "ea_redis_record_callback script now reply w = Some w' \<Longrightarrow> request_change w w'"
  by (auto simp: ea_redis_record_callback_def dest: failure_change
      split: option.splits redis_reply.splits list.splits if_splits)

lemma request_hook:
  assumes "worker_step E fmt sha script rcf (t, w) l (now, w')" "l \<in> {WL_CHECK, WL_REPLY, WL_RECORD, WL_RECORD_REPLY}"
  shows "request_change w w'"
  using assms by (elim worker_stepE) (auto dest: check_change reply_change record_change record_reply_change)

section \<open>Attached and detached\<close>

text \<open>Nothing of the loop refers to a connection of the module other than \<open>exc\<close>.\<close>

definition others_quiet :: "nat option \<Rightarrow> rstate \<Rightarrow> bool" where
  "others_quiet exc s \<longleftrightarrow>
     (\<forall>i. cn_ours (rs_conns s i) \<and> exc \<noteq> Some i \<longrightarrow> quiet (cn_read (rs_conns s i)) \<and> quiet (cn_write (rs_conns s i)))"

text \<open>Context and connection exist and belong together.\<close>

definition linked :: "nat \<Rightarrow> nat \<Rightarrow> rstate \<Rightarrow> bool" where
  "linked a i s \<longleftrightarrow> ad_context (rs_ad s) = Some a \<and> ad_conn (rs_ad s) = Some i
     \<and> cx_live (rs_ctxs s a) \<and> cx_hooks (rs_ctxs s a)
     \<and> cn_used (rs_conns s i) \<and> cn_ours (rs_conns s i) \<and> cn_fd (rs_conns s i) = cx_fd (rs_ctxs s a)
     \<and> others_quiet (Some i) s"

definition attached :: "nat \<Rightarrow> nat \<Rightarrow> rstate \<Rightarrow> bool" where
  "attached a i s \<longleftrightarrow> linked a i s \<and> wk_context (rs_worker s) = Some a \<and> wk_timer (rs_worker s) = None
     \<and> (wk_ready (rs_worker s) \<longrightarrow> cx_connected (rs_ctxs s a))"

definition detached :: "rstate \<Rightarrow> bool" where
  "detached s \<longleftrightarrow> ad_context (rs_ad s) = None \<and> ad_conn (rs_ad s) = None \<and> ad_timeout (rs_ad s) = None
     \<and> \<not> wk_ready (rs_worker s) \<and> others_quiet None s"

definition rinv :: "rstate \<Rightarrow> bool" where
  "rinv s \<longleftrightarrow> (\<exists>a i. attached a i s) \<or> detached s"

lemma others_quiet_simps [simp]:
  "others_quiet exc (on_worker f s) = others_quiet exc s" "others_quiet exc (not_ready s) = others_quiet exc s"
  "others_quiet exc (on_ctx a g s) = others_quiet exc s" "others_quiet exc (s \<lparr> rs_ad := ad \<rparr>) = others_quiet exc s"
  "others_quiet (Some i) (put_conn i c s) = others_quiet (Some i) s"
  by (auto simp: others_quiet_def on_worker_def not_ready_def on_ctx_def put_conn_def)

lemma state_simps [simp]:
  "rs_worker (on_worker f s) = f (rs_worker s)" "rs_ad (on_worker f s) = rs_ad s" "rs_conns (on_worker f s) = rs_conns s"
  "rs_ctxs (on_worker f s) = rs_ctxs s"
  "rs_worker (not_ready s) = (rs_worker s) \<lparr> wk_ready := False \<rparr>" "rs_ad (not_ready s) = rs_ad s" "rs_conns (not_ready s) = rs_conns s"
  "rs_ctxs (not_ready s) = rs_ctxs s"
  "rs_worker (on_ctx a g s) = rs_worker s" "rs_ad (on_ctx a g s) = rs_ad s" "rs_conns (on_ctx a g s) = rs_conns s"
  "rs_ctxs (on_ctx a g s) = (rs_ctxs s)(a := g (rs_ctxs s a))"
  "rs_worker (put_conn i c s) = rs_worker s" "rs_ad (put_conn i c s) = rs_ad s" "rs_conns (put_conn i c s) = (rs_conns s)(i := c)"
  "rs_ctxs (put_conn i c s) = rs_ctxs s"
  by (simp_all add: on_worker_def not_ready_def on_ctx_def put_conn_def)

lemma attached_put:
  "attached a i s \<Longrightarrow> cn_used c \<Longrightarrow> cn_ours c \<Longrightarrow> cn_fd c = cn_fd (rs_conns s i) \<Longrightarrow> attached a i (put_conn i c s)"
  by (simp add: attached_def linked_def)

lemma attached_not_ready: "attached a i s \<Longrightarrow> attached a i (not_ready s)"
  by (simp add: attached_def linked_def)

lemma attached_worker:
  "attached a i s \<Longrightarrow> wk_context (f (rs_worker s)) = Some a \<Longrightarrow> wk_timer (f (rs_worker s)) = None
   \<Longrightarrow> (wk_ready (f (rs_worker s)) \<Longrightarrow> cx_connected (rs_ctxs s a)) \<Longrightarrow> attached a i (on_worker f s)"
  by (simp add: attached_def linked_def)

lemma attached_timer: "attached a i s \<Longrightarrow> attached a i (ea_redis_schedule_timer sec usec s)"
  by (simp add: attached_def linked_def ea_redis_schedule_timer_def)

lemma attachedD:
  assumes "attached a i s"
  shows "ad_context (rs_ad s) = Some a" "ad_conn (rs_ad s) = Some i" "cx_live (rs_ctxs s a)" "cx_hooks (rs_ctxs s a)"
    "the_conn s i = Some (rs_conns s i)" "wk_context (rs_worker s) = Some a" "wk_timer (rs_worker s) = None"
    "cn_ours (rs_conns s i)" "cn_used (rs_conns s i)" "cn_fd (rs_conns s i) = cx_fd (rs_ctxs s a)"
    "wk_ready (rs_worker s) \<Longrightarrow> cx_connected (rs_ctxs s a)" "others_quiet (Some i) s"
  using assms by (simp_all add: attached_def linked_def the_conn_def)

section \<open>A call of hiredis\<close>

lemma add_write_ok:
  assumes "attached a i s"
  shows "\<exists>s'. ea_redis_add_write L s = Some s' \<and> attached a i s'"
proof -
  let ?c = "rs_conns s i"
  obtain ok e where e: "el_add_write L (cn_write ?c) = (ok, e)" by fastforce
  define s1 where "s1 = (if ev_active (cn_write ?c) then s
     else if ok then put_conn i (?c \<lparr> cn_write := e \<rparr>) s else not_ready (put_conn i (?c \<lparr> cn_write := e \<rparr>) s))"
  have a1: "attached a i s1"
    using assms attached_put[OF assms] attachedD(8,9)[OF assms] by (auto simp: s1_def intro!: attached_not_ready)
  let ?d = "rs_conns s1 i"
  have "(if ev_active (cn_write ?c) then s
         else let (ok, e) = el_add_write L (cn_write ?c); s = put_conn i (?c \<lparr> cn_write := e \<rparr>) s in if ok then s else not_ready s) = s1"
    by (simp add: s1_def e Let_def)
  then have "ea_redis_add_write L s = Some (if ev_ready (cn_write ?d) then put_conn i (?d \<lparr> cn_write := cn_write ?d \<lparr> ev_posted := True \<rparr> \<rparr>) s1 else s1)"
    using attachedD(5)[OF a1] attachedD(2,5)[OF assms] by (simp only: ea_redis_add_write_def option.case Option.bind.bind_lunit Let_def)
  then show ?thesis using a1 attached_put[OF a1] attachedD(8,9)[OF a1] by simp
qed

lemma hook_ok:
  assumes "attached a i s"
  shows "\<exists>s'. run_hook L C a h s = Some s' \<and> attached a i s'"
proof -
  note d = attachedD[OF assms]
  obtain rcf script fmt where C: "C = (rcf, script, fmt)" by (metis prod_cases3)
  show ?thesis
  proof (cases h)
    case HK_ADD_READ
    then show ?thesis using d attached_put[OF assms] attached_not_ready assms
      by (auto simp: ea_redis_add_read_def Let_def split: prod.split)
  next
    case HK_DEL_READ
    then show ?thesis using d attached_put[OF assms] assms by (auto simp: ea_redis_del_read_def)
  next
    case HK_ADD_WRITE
    then show ?thesis using d add_write_ok[OF assms] by simp
  next
    case HK_DEL_WRITE
    then show ?thesis using d attached_put[OF assms] assms by (auto simp: ea_redis_del_write_def)
  next
    case (HK_TIMER sec usec)
    then show ?thesis using d attached_timer[OF assms] by simp
  next
    case (HK_CONNECT ok q1 q2 q3)
    let ?f = "ea_redis_connect_callback rcf script fmt ok q1 q2 q3"
    have f: "wk_context (?f w) = wk_context w" "wk_timer (?f w) = wk_timer w" "wk_ready (?f w) \<Longrightarrow> ok" for w
      by (auto simp: ea_redis_connect_callback_def Let_def split: option.split if_splits)
    let ?s = "on_ctx a (\<lambda>x. x \<lparr> cx_connected := cx_connected x \<or> ok \<rparr>) s"
    have "attached a i ?s" using assms by (simp add: attached_def linked_def)
    then have "attached a i (on_worker ?f ?s)" by (rule attached_worker) (use d f in auto)
    moreover have "on_worker ?f ?s = on_ctx a (\<lambda>x. x \<lparr> cx_connected := cx_connected x \<or> ok \<rparr>) (on_worker ?f s)"
      by (simp add: on_worker_def on_ctx_def)
    ultimately show ?thesis using HK_CONNECT C by simp
  next
    case (HK_HANDSHAKE r)
    have "attached a i (on_worker (ea_redis_handshake_callback a r) s)"
      by (rule attached_worker[OF assms]) (use d in \<open>auto simp: ea_redis_handshake_callback_def split: option.splits redis_reply.splits\<close>)
    then show ?thesis using HK_HANDSHAKE by simp
  next
    case (HK_REQUEST n bu sq cs)
    have "attached a i (on_worker (set_request n bu sq cs) s)"
      by (rule attached_worker[OF assms]) (use d in \<open>auto simp: set_request_def\<close>)
    then show ?thesis using HK_REQUEST by simp
  qed
qed

lemma hooks_ok: "attached a i s \<Longrightarrow> \<exists>s'. run_hooks L C a hs s = Some s' \<and> attached a i s'"
proof (induction hs arbitrary: s)
  case (Cons h hs)
  then show ?case using hook_ok[OF Cons.prems, of L C h] by fastforce
qed simp

lemma drop_event_quiet: "evloop_doc L \<Longrightarrow> quiet (drop_event L e)"
  by (auto simp: evloop_doc_def quiet_def drop_event_def Let_def)

lemma cleanup_ok:
  assumes "linked a i s" "evloop_doc L"
  shows "\<exists>s'. ea_redis_cleanup L s = Some s' \<and> ad_context (rs_ad s') = None \<and> ad_conn (rs_ad s') = None
     \<and> ad_timeout (rs_ad s') = None \<and> others_quiet None s' \<and> rs_worker s' = rs_worker s \<and> rs_ctxs s' = rs_ctxs s"
proof -
  let ?c = "rs_conns s i"
  let ?c' = "?c \<lparr> cn_read := drop_event L (cn_read ?c), cn_write := drop_event L (cn_write ?c) \<rparr>"
  let ?f = "(el_free L ?c') \<lparr> cn_fd := -1 \<rparr>"
  have f: "quiet (cn_read ?f)" "quiet (cn_write ?f)"
    using assms(2) drop_event_quiet[OF assms(2)] by (simp_all add: evloop_doc_def)
  have l: "ad_conn (rs_ad s) = Some i" "cn_used ?c" "others_quiet (Some i) s" using assms(1) by (simp_all add: linked_def)
  have "others_quiet None (put_conn i ?f s')" if "rs_conns s' = rs_conns s" for s'
    using l(3) f that by (auto simp: others_quiet_def)
  then show ?thesis using l by (simp add: ea_redis_cleanup_def the_conn_def Let_def)
qed

lemma disconnect_callback_eq [simp]:
  "wk_context (ea_redis_disconnect_callback rnd w) = None" "\<not> wk_ready (ea_redis_disconnect_callback rnd w)"
  "wk_exiting (ea_redis_disconnect_callback rnd w) = wk_exiting w"
  by (simp_all add: ea_redis_disconnect_callback_def ea_redis_arm_reconnect_def Let_def)

lemma free_ok:
  assumes "linked a i s" "wk_ready (rs_worker s) \<longrightarrow> cx_connected (rs_ctxs s a)" "evloop_doc L"
  shows "\<exists>s'. free_ctx L a rnd s = Some s' \<and> detached s' \<and> \<not> cx_live (rs_ctxs s' a)
     \<and> rs_worker s' = (if cx_connected (rs_ctxs s a) then ea_redis_disconnect_callback rnd (rs_worker s) else rs_worker s)"
proof -
  obtain s1 where s1: "ea_redis_cleanup L s = Some s1" "ad_context (rs_ad s1) = None" "ad_conn (rs_ad s1) = None"
    "ad_timeout (rs_ad s1) = None" "others_quiet None s1" "rs_worker s1 = rs_worker s" "rs_ctxs s1 = rs_ctxs s"
    using cleanup_ok[OF assms(1,3)] by blast
  have "cx_hooks (rs_ctxs s a)" using assms(1) by (simp add: linked_def)
  then show ?thesis using s1 assms(2) by (auto simp: free_ctx_def detached_def)
qed

lemma call_ok:
  assumes "attached a i s" "evloop_doc L"
  shows "\<exists>s'. hiredis_call L C a out s = Some s'
     \<and> (if snd out = None then attached a i s' else detached s' \<and> \<not> cx_live (rs_ctxs s' a))"
proof -
  obtain s1 where s1: "run_hooks L C a (fst out) s = Some s1" "attached a i s1" using hooks_ok[OF assms(1)] by blast
  show ?thesis
  proof (cases "snd out")
    case None
    then show ?thesis using s1 attachedD(3)[OF assms(1)] by (simp add: hiredis_call_def)
  next
    case (Some rnd)
    have "linked a i s1" "wk_ready (rs_worker s1) \<longrightarrow> cx_connected (rs_ctxs s1 a)" using s1(2) by (simp_all add: attached_def)
    from free_ok[OF this assms(2), of rnd] show ?thesis using s1 Some attachedD(3)[OF assms(1)] by (auto simp: hiredis_call_def)
  qed
qed

lemma call_inv:
  assumes "attached a i s" "evloop_doc L" "hiredis_call L C a out s = Some s'"
  shows "rinv s' \<and> (ad_context (rs_ad s') = None \<longleftrightarrow> snd out \<noteq> None) \<and> (snd out = None \<longrightarrow> attached a i s')"
proof (cases "snd out")
  case None
  then have a: "attached a i s'" using call_ok[OF assms(1,2), of C out] assms(3) by simp
  then have "rinv s'" unfolding rinv_def by blast
  then show ?thesis using None a attachedD(1)[OF a] by simp
next
  case (Some rnd)
  then have "detached s'" using call_ok[OF assms(1,2), of C out] assms(3) by simp
  then show ?thesis using Some by (simp add: rinv_def detached_def)
qed

section \<open>The read handler\<close>

text \<open>\<open>n\<close> rounds of the loop, from the \<open>k\<close>-th on, without its conditions.\<close>

fun rounds :: "evloop \<Rightarrow> rcontext \<Rightarrow> (nat \<Rightarrow> outcome) \<Rightarrow> nat \<Rightarrow> nat \<Rightarrow> nat \<Rightarrow> rstate \<Rightarrow> rstate option" where
  "rounds L C h a k 0 s = Some s"
| "rounds L C h a k (Suc n) s = do { s \<leftarrow> hiredis_call L C a (h k) s; rounds L C h a (Suc k) n s }"

lemma hook_fd: "run_hook L C a h s = Some s' \<Longrightarrow> cx_fd (rs_ctxs s' x) = cx_fd (rs_ctxs s x)"
  by (cases C; cases h)
     (auto simp: ea_redis_add_read_def ea_redis_del_read_def ea_redis_add_write_def ea_redis_del_write_def
        ea_redis_schedule_timer_def Let_def split: option.splits if_splits prod.splits Option.bind_splits)

lemma hooks_fd: "run_hooks L C a hs s = Some s' \<Longrightarrow> cx_fd (rs_ctxs s' x) = cx_fd (rs_ctxs s x)"
  by (induction hs arbitrary: s) (auto split: Option.bind_splits dest!: hook_fd)

lemma call_fd: "hiredis_call L C a (hs, None) s = Some s' \<Longrightarrow> cx_fd (rs_ctxs s' x) = cx_fd (rs_ctxs s x)"
  by (auto simp: hiredis_call_def split: if_splits Option.bind_splits dest: hooks_fd)

text \<open>\<open>ok j\<close>: the probe of the \<open>j\<close>-th round finds the socket readable.  The loop stops after the first round that
  ends the context or leaves nothing to read.\<close>

definition drained :: "evloop \<Rightarrow> rcontext \<Rightarrow> (nat \<Rightarrow> outcome) \<Rightarrow> (nat \<Rightarrow> bool) \<Rightarrow> nat \<Rightarrow> nat \<Rightarrow> nat \<Rightarrow> rstate \<Rightarrow> rstate \<Rightarrow> bool" where
  "drained L C h ok a k n s s' \<longleftrightarrow> rounds L C h a k (Suc n) s = Some s' \<and> (\<forall>j < n. ok (k + j))
     \<and> (ad_context (rs_ad s') = None \<or> \<not> ok (k + n))"

lemma drained_Suc:
  assumes "hiredis_call L C a (h k) s = Some s1" "ok k" "drained L C h ok a (Suc k) n s1 s'"
  shows "drained L C h ok a k (Suc n) s s'"
proof -
  have "ok (k + j)" if "j < Suc n" for j
    using assms(2,3) that by (cases j) (simp_all add: drained_def)
  then show ?thesis using assms(1,3) by (simp add: drained_def)
qed

lemma drain_ok:
  assumes "attached a i s" "evloop_doc L" "cx_fd (rs_ctxs s a) = fd"
  shows "\<exists>e s'. read_drain fuel P L C h io k i s = Some (e, s') \<and> rinv s'
     \<and> (if e then \<exists>n < fuel. drained L C h (\<lambda>j. ea_platform_socket_readable P (io j fd) = NGX_OK) a k n s s'
        else \<forall>j < fuel. ea_platform_socket_readable P (io (k + j) fd) = NGX_OK)"
  using assms(1,3)
proof (induction fuel arbitrary: k s)
  case 0
  then have "rinv s" unfolding rinv_def by blast
  then show ?case by (intro exI[of _ False]) simp
next
  case (Suc fuel)
  let ?ok = "\<lambda>j. ea_platform_socket_readable P (io j fd) = NGX_OK"
  let ?run = "read_drain (Suc fuel) P L C h io k i s"
  note d = attachedD[OF Suc.prems(1)]
  obtain s1 where c: "hiredis_call L C a (h k) s = Some s1" using call_ok[OF Suc.prems(1) assms(2)] by blast
  note inv = call_inv[OF Suc.prems(1) assms(2) c]
  have done1: ?case if "?run = Some (True, s1)" "ad_context (rs_ad s1) = None \<or> \<not> ?ok k"
  proof -
    have "drained L C h ?ok a k 0 s s1" using c that(2) by (simp add: drained_def)
    then show ?thesis using that(1) inv by fastforce
  qed
  show ?case
  proof (cases "ad_context (rs_ad s1) = None")
    case True
    then have "?run = Some (True, s1)" using c d(1) by simp
    then show ?thesis using True done1 by blast
  next
    case False
    then have at: "attached a i s1" "snd (h k) = None" using inv by simp_all
    then have f1: "cx_fd (rs_ctxs s1 a) = fd" using call_fd[of L C a "fst (h k)" s s1 a] c Suc.prems(2) by (metis prod.collapse)
    then have "cn_fd (rs_conns s1 i) = fd" using attachedD(10)[OF at(1)] by simp
    then have run: "?run = (if \<not> ?ok k then Some (True, s1) else read_drain fuel P L C h io (Suc k) i s1)"
      using False c d(1) attachedD(1,5)[OF at(1)] by simp
    show ?thesis
    proof (cases "?ok k")
      case no: False
      then show ?thesis using run done1 by simp
    next
      case ok: True
      from Suc.IH[OF at(1) f1, of "Suc k"] obtain e s' where r: "read_drain fuel P L C h io (Suc k) i s1 = Some (e, s')" "rinv s'"
        "if e then \<exists>n < fuel. drained L C h ?ok a (Suc k) n s1 s' else \<forall>j < fuel. ?ok (Suc k + j)" by blast
      have "if e then \<exists>n < Suc fuel. drained L C h ?ok a k n s s' else \<forall>j < Suc fuel. ?ok (k + j)"
      proof (cases e)
        case True
        then obtain n where "n < fuel" "drained L C h ?ok a (Suc k) n s1 s'" using r(3) by auto
        then show ?thesis using True drained_Suc[where ok = ?ok and h = h and k = k, OF c ok] by fastforce
      next
        case False
        have "?ok (k + j)" if "j < Suc fuel" for j using False r(3) ok that by (cases j) simp_all
        then show ?thesis using False by simp
      qed
      moreover have "?run = Some (e, s')" using run ok r(1) by simp
      ultimately show ?thesis using r(2) by blast
    qed
  qed
qed

end
