(* ===== verification/EA_Link.thy ===== *)
theory EA_Link
  imports EA_Attach
begin

text \<open>
  The Redis connection as a step relation, and its properties: no use of a connection or context that is
  gone while the process runs, the read handler leaves nothing unread, and what a failed connect does.
\<close>

section \<open>The system\<close>

text \<open>nginx takes a posted event off its queue, or an expired timer out of the tree, and calls the handler.\<close>

definition take_read :: "nat \<Rightarrow> rstate \<Rightarrow> rstate" where
  "take_read i s = (let c = rs_conns s i in put_conn i (c \<lparr> cn_read := cn_read c \<lparr> ev_posted := False \<rparr> \<rparr>) s)"

definition take_write :: "nat \<Rightarrow> rstate \<Rightarrow> rstate" where
  "take_write i s = (let c = rs_conns s i in put_conn i (c \<lparr> cn_write := cn_write c \<lparr> ev_posted := False \<rparr> \<rparr>) s)"

definition take_timeout :: "rstate \<Rightarrow> rstate" where
  "take_timeout s = s \<lparr> rs_ad := rs_ad s \<lparr> ad_timeout := None \<rparr> \<rparr>"

text \<open>An event of the module reaches its handler only when something of it is registered.\<close>

definition read_comes :: "nat \<Rightarrow> rstate \<Rightarrow> bool" where
  "read_comes i s \<longleftrightarrow> cn_ours (rs_conns s i) \<and> \<not> quiet (cn_read (rs_conns s i))"

definition write_comes :: "nat \<Rightarrow> rstate \<Rightarrow> bool" where
  "write_comes i s \<longleftrightarrow> cn_ours (rs_conns s i) \<and> \<not> quiet (cn_write (rs_conns s i))"

text \<open>The rest of nginx: events become ready or posted; connections that are not the adapter's are taken, used and
  given back, with other handlers.\<close>

definition nginx_moves :: "rstate \<Rightarrow> (nat \<Rightarrow> conn_st) \<Rightarrow> bool" where
  "nginx_moves s cs \<longleftrightarrow> (\<forall>i. let c = rs_conns s i; c' = cs i in
     if ad_conn (rs_ad s) = Some i then cn_used c' = cn_used c \<and> cn_ours c' = cn_ours c \<and> cn_fd c' = cn_fd c
     else cn_ours c' \<longrightarrow> cn_ours c \<and> cn_read c' = cn_read c \<and> cn_write c' = cn_write c)"

text \<open>\<^verbatim>\<open>redisAsyncConnect\<close> gives a context that did not exist.\<close>

definition conn_new :: "conn \<Rightarrow> rstate \<Rightarrow> bool" where
  "conn_new c s \<longleftrightarrow> (case c of CONN ac _ _ _ \<Rightarrow> \<not> cx_live (rs_ctxs s ac) | _ \<Rightarrow> True)"

datatype rlabel = RL_READ | RL_WRITE | RL_TIMEOUT | RL_REQUEST | RL_RECONNECT | RL_NGINX | RL_EXIT

inductive rstep :: "platform \<Rightarrow> rcontext \<Rightarrow> rstate \<Rightarrow> rlabel \<Rightarrow> rstate \<Rightarrow> bool" for P C where
  rs_read: "evloop_doc L \<Longrightarrow> read_comes i s \<Longrightarrow> ea_redis_read_handler fuel P L C h io i (take_read i s) = Some (True, s')
     \<Longrightarrow> rstep P C s RL_READ s'"
| rs_write: "evloop_doc L \<Longrightarrow> write_comes i s \<Longrightarrow> ea_redis_write_handler L C out i (take_write i s) = Some s'
     \<Longrightarrow> rstep P C s RL_WRITE s'"
| rs_timeout: "evloop_doc L \<Longrightarrow> ad_timeout (rs_ad s) \<noteq> None \<Longrightarrow> ea_redis_timeout_handler L C out (take_timeout s) = Some s'
     \<Longrightarrow> rstep P C s RL_TIMEOUT s'"
| rs_request: "evloop_doc L \<Longrightarrow> ea_redis_available (rs_worker s) now \<Longrightarrow> wk_context (rs_worker s) = Some a
     \<Longrightarrow> hiredis_call L C a out s = Some s' \<Longrightarrow> rstep P C s RL_REQUEST s'"
| rs_reconnect: "evloop_doc L \<Longrightarrow> wk_timer (rs_worker s) \<noteq> None \<Longrightarrow> conn_new c s
     \<Longrightarrow> after_connect L C hs (reconnect_fires L (fst C) fd c rnd s) = Some s' \<Longrightarrow> rstep P C s RL_RECONNECT s'"
| rs_nginx: "nginx_moves s cs \<Longrightarrow> rstep P C s RL_NGINX (s \<lparr> rs_conns := cs \<rparr>)"
| rs_exit: "evloop_doc L \<Longrightarrow> process_ends L C rnd s = Some s' \<Longrightarrow> rstep P C s RL_EXIT s'"

inductive_cases rstepE: "rstep P C s l s'"

text \<open>A worker process after its start.\<close>

definition process_started :: "rcontext \<Rightarrow> rstate \<Rightarrow> bool" where
  "process_started C s \<longleftrightarrow> (\<exists>L nonce fd c rnd hs s0. evloop_doc L \<and> (\<forall>i. \<not> cn_ours (rs_conns s0 i)) \<and> conn_new c s0
     \<and> after_connect L C hs (process_starts L (fst C) nonce fd c rnd s0) = Some s)"

section \<open>Every step keeps the invariant\<close>

lemma taken [simp]:
  "rs_ad (take_read i s) = rs_ad s" "rs_ad (take_write i s) = rs_ad s" "ad_context (rs_ad (take_timeout s)) = ad_context (rs_ad s)"
  "cn_ours (rs_conns (take_read i s) i) = cn_ours (rs_conns s i)" "cn_ours (rs_conns (take_write i s) i) = cn_ours (rs_conns s i)"
  "rs_ctxs (take_read i s) = rs_ctxs s" "rs_ctxs (take_write i s) = rs_ctxs s" "rs_ctxs (take_timeout s) = rs_ctxs s"
  by (simp_all add: take_read_def take_write_def take_timeout_def Let_def)

lemma attached_taken:
  assumes "attached a i s"
  shows "attached a i (take_read i s)" "attached a i (take_write i s)" "attached a i (take_timeout s)"
  using assms attachedD[OF assms] unfolding take_read_def take_write_def Let_def
  by (simp_all add: attached_put take_timeout_def) (simp add: attached_def linked_def)

lemma comes_attached:
  assumes "rinv s" "read_comes i s \<or> write_comes i s"
  obtains a where "attached a i s"
proof -
  have "\<not> detached s" using assms(2) by (auto simp: detached_def others_quiet_def read_comes_def write_comes_def)
  then obtain a j where a: "attached a j s" using assms(1) by (auto simp: rinv_def)
  then have "i = j" using attachedD(12)[OF a] assms(2) by (auto simp: others_quiet_def read_comes_def write_comes_def)
  then show ?thesis using a that by blast
qed

lemma ready_attached:
  assumes "rinv s" "wk_ready (rs_worker s)" "wk_context (rs_worker s) = Some a"
  obtains i where "attached a i s"
proof -
  have "\<not> detached s" using assms(2) by (simp add: detached_def)
  then obtain b i where b: "attached b i s" using assms(1) by (auto simp: rinv_def)
  then have "b = a" using attachedD(6)[OF b] assms(3) by simp
  then show ?thesis using b that by blast
qed

lemma attach_ok:
  assumes "evloop_doc L" "detached s" "\<not> cx_hooks (rs_ctxs s ac)" "cx_live (rs_ctxs s ac)"
    "ea_redis_attach L ac s = (rc, s')"
  shows "rs_worker s' = rs_worker s \<and>
     (if rc = NGX_OK then (\<exists>i. linked ac i s') \<and> cx_connected (rs_ctxs s' ac) = cx_connected (rs_ctxs s ac) else s' = s)"
proof (cases "el_get L (rs_conns s) (cx_fd (rs_ctxs s ac))")
  case None
  then show ?thesis using assms(3,5) by (auto simp: ea_redis_attach_def)
next
  case (Some p)
  obtain i c where p: "p = (i, c)" by fastforce
  have c: "cn_used c" "cn_fd c = cx_fd (rs_ctxs s ac)" using assms(1) Some p by (simp_all add: evloop_doc_def)
  have "others_quiet (Some i) s" using assms(2) by (auto simp: detached_def others_quiet_def)
  then have "others_quiet (Some i) (put_conn i c s')" if "rs_conns s' = rs_conns s" for c s'
    using that by (auto simp: others_quiet_def)
  then show ?thesis using assms(3-5) Some p c
    by (auto simp: ea_redis_attach_def linked_def others_quiet_def)
qed

lemma connect_ctx_ok:
  assumes "evloop_doc L" "detached s" "connect_ctx L rcf fd c s = (c', s')"
  shows "rs_worker s' = rs_worker s \<and>
     ((\<exists>ac ssl_ok session_ok i. c' = CONN ac ssl_ok session_ok True
         \<and> (rd_tls rcf \<longrightarrow> (wk_ssl (rs_worker s) \<or> ssl_ok) \<and> session_ok) \<and> linked ac i s' \<and> \<not> cx_connected (rs_ctxs s' ac))
      \<or> (\<forall>ac ssl_ok session_ok. c' \<noteq> CONN ac ssl_ok session_ok True) \<and> detached s')"
proof (cases c)
  case (CONN ac ssl_ok session_ok x)
  define s1 where "s1 = on_ctx ac (\<lambda>_. new_ctx fd) s"
  have s1: "detached s1" "\<not> cx_hooks (rs_ctxs s1 ac)" "cx_live (rs_ctxs s1 ac)" "\<not> cx_connected (rs_ctxs s1 ac)" "rs_worker s1 = rs_worker s"
    using assms(2) by (simp_all add: s1_def new_ctx_def detached_def)
  let ?tls = "rd_tls rcf \<longrightarrow> (wk_ssl (rs_worker s) \<or> ssl_ok) \<and> session_ok"
  obtain rc s2 where at: "(if ?tls then ea_redis_attach L ac s1 else (NGX_ERROR, s1)) = (rc, s2)" by fastforce
  have r: "connect_ctx L rcf fd c s = (CONN ac ssl_ok session_ok (rc = NGX_OK),
      if rc = NGX_OK then s2 else on_ctx ac (\<lambda>x. x \<lparr> cx_live := False \<rparr>) s2)"
    using at by (simp add: connect_ctx_def CONN Let_def s1(5) flip: s1_def)
  show ?thesis
  proof (cases "rc = NGX_OK")
    case True
    then have t: "?tls" "ea_redis_attach L ac s1 = (NGX_OK, s2)" using at by (auto split: if_splits)
    from attach_ok[OF assms(1) s1(1-3) t(2)] show ?thesis using r True assms(3) s1 t(1) by auto
  next
    case False
    have "s2 = s1" using False at attach_ok[OF assms(1) s1(1-3), of rc s2] by (auto split: if_splits)
    then show ?thesis using r False assms(3) s1 by (auto simp: detached_def)
  qed
qed (use assms in \<open>auto simp: connect_ctx_def\<close>)

text \<open>The worker after a connect, as the timer's handler or the start of the process does it.\<close>

lemma connect_worker_ok:
  assumes "rd_tls rcf \<longrightarrow> (wk_ssl w \<or> ssl_ok) \<and> session_ok"
  shows "\<exists>ssl. ea_redis_connect rcf (CONN ac ssl_ok session_ok True) w = (NGX_OK, w \<lparr> wk_ssl := ssl, wk_context := Some ac \<rparr>)"
proof (cases "rd_tls rcf")
  case False
  then show ?thesis by (intro exI[of _ "wk_ssl w"]) (simp add: ea_redis_connect_def)
next
  case True
  then show ?thesis using assms by (intro exI[of _ True]) (auto simp: ea_redis_connect_def)
qed

lemma connect_worker_fails:
  assumes "\<forall>ac ssl_ok session_ok. c \<noteq> CONN ac ssl_ok session_ok True" "ea_redis_connect rcf c w = (rc, w')"
  shows "rc \<noteq> NGX_OK \<and> wk_context w' = wk_context w \<and> wk_ready w' = wk_ready w"
  using assms by (auto simp: ea_redis_connect_def Let_def split: conn.splits if_splits)

lemma arm_eq [simp]:
  "wk_context (ea_redis_arm_reconnect rnd w) = wk_context w" "wk_ready (ea_redis_arm_reconnect rnd w) = wk_ready w"
  by (simp_all add: ea_redis_arm_reconnect_def Let_def)

text \<open>Both handlers of a connect, for a worker that is not ready and has no timer.\<close>

definition connect_or_arm :: "redis_conf \<Rightarrow> conn \<Rightarrow> nat \<Rightarrow> worker \<Rightarrow> worker" where
  "connect_or_arm rcf c rnd w = (case ea_redis_connect rcf c w of (NGX_OK, w) \<Rightarrow> w | (_, w) \<Rightarrow> ea_redis_arm_reconnect rnd w)"

lemma connect_or_arm_ok:
  assumes "evloop_doc L" "detached s" "wk_timer (rs_worker s) = None" "connect_ctx L rcf fd c s = (c', s')"
  shows "rinv (on_worker (connect_or_arm rcf c' rnd) s')"
proof -
  have w: "rs_worker s' = rs_worker s" "\<not> wk_ready (rs_worker s)" using connect_ctx_ok[OF assms(1,2,4)] assms(2) by (simp_all add: detached_def)
  consider ac ssl_ok session_ok i where "c' = CONN ac ssl_ok session_ok True"
      "rd_tls rcf \<longrightarrow> (wk_ssl (rs_worker s) \<or> ssl_ok) \<and> session_ok" "linked ac i s'"
    | "\<forall>ac ssl_ok session_ok. c' \<noteq> CONN ac ssl_ok session_ok True" "detached s'"
    using connect_ctx_ok[OF assms(1,2,4)] by blast
  then show ?thesis
  proof cases
    case (1 ac ssl_ok session_ok i)
    obtain ssl where "ea_redis_connect rcf c' (rs_worker s) = (NGX_OK, (rs_worker s) \<lparr> wk_ssl := ssl, wk_context := Some ac \<rparr>)"
      using connect_worker_ok[OF 1(2)] 1(1) by blast
    then have "attached ac i (on_worker (connect_or_arm rcf c' rnd) s')"
      using 1(3) w assms(3) by (simp add: attached_def linked_def connect_or_arm_def)
    then show ?thesis unfolding rinv_def by blast
  next
    case 2
    obtain rc w' where "ea_redis_connect rcf c' (rs_worker s) = (rc, w')" by fastforce
    note f = connect_worker_fails[OF 2(1) this] this
    have "connect_or_arm rcf c' rnd (rs_worker s) = ea_redis_arm_reconnect rnd w'"
      using f by (cases rc) (simp_all add: connect_or_arm_def)
    then have "detached (on_worker (connect_or_arm rcf c' rnd) s')" using 2(2) w f by (simp add: detached_def)
    then show ?thesis by (simp add: rinv_def)
  qed
qed

lemma fires_inv:
  assumes "evloop_doc L" "rinv s" "wk_timer (rs_worker s) \<noteq> None"
  shows "rinv (reconnect_fires L rcf fd c rnd s)"
proof -
  let ?s = "on_worker (\<lambda>w. w \<lparr> wk_timer := None \<rparr>) s"
  have "detached s" using assms(2,3) attachedD(7) by (auto simp: rinv_def)
  then have d: "detached ?s" by (simp add: detached_def)
  show ?thesis
  proof (cases "wk_exiting (rs_worker s)")
    case True
    then have "reconnect_fires L rcf fd c rnd s = ?s"
      by (simp add: reconnect_fires_def ea_redis_reconnect_def Let_def on_worker_def)
    then show ?thesis using d by (simp add: rinv_def)
  next
    case False
    obtain c' s' where c: "connect_ctx L rcf fd c ?s = (c', s')" by fastforce
    have "rs_worker s' = rs_worker ?s" using connect_ctx_ok[OF assms(1) d c] by blast
    then have "reconnect_fires L rcf fd c rnd s = on_worker (connect_or_arm rcf c' rnd) s'"
      using False c by (simp add: reconnect_fires_def ea_redis_reconnect_def connect_or_arm_def Let_def on_worker_def)
    then show ?thesis using connect_or_arm_ok[OF assms(1) d _ c] by simp
  qed
qed

lemma start_inv:
  assumes "evloop_doc L" "\<forall>i. \<not> cn_ours (rs_conns s i)"
  shows "rinv (process_starts L rcf nonce fd c rnd s)"
proof -
  let ?s = "s \<lparr> rs_worker := worker0 nonce, rs_ad := \<lparr> ad_context = None, ad_conn = None, ad_timeout = None \<rparr> \<rparr>"
  have d: "detached ?s" using assms(2) by (simp add: detached_def others_quiet_def worker0_def)
  obtain c' s' where c: "connect_ctx L rcf fd c ?s = (c', s')" by fastforce
  have "rs_worker s' = worker0 nonce" using connect_ctx_ok[OF assms(1) d c] by simp
  then have "process_starts L rcf nonce fd c rnd s = on_worker (connect_or_arm rcf c' rnd) s'"
    using c by (simp add: process_starts_def ea_redis_init_process_def connect_or_arm_def Let_def on_worker_def)
  then show ?thesis using connect_or_arm_ok[OF assms(1) d _ c] by (simp add: worker0_def)
qed

lemma after_connect_inv:
  assumes "rinv s" "evloop_doc L"
  shows "\<exists>s'. after_connect L C hs s = Some s' \<and> rinv s'"
proof (cases "ad_context (rs_ad s)")
  case None
  then show ?thesis using assms(1) by (simp add: after_connect_def)
next
  case (Some a)
  then obtain b i where b: "attached b i s" using assms(1) by (auto simp: rinv_def detached_def)
  then have a: "attached a i s" using attachedD(1)[OF b] Some by simp
  obtain s' where "hiredis_call L C a (hs, None) s = Some s'" using call_ok[OF a assms(2)] by blast
  then show ?thesis using Some call_inv[OF a assms(2)] by (simp add: after_connect_def)
qed

lemma free_detached:
  assumes "detached s" "free_ctx L a rnd s = Some s'"
  shows "detached s'"
  using assms by (auto simp: free_ctx_def ea_redis_cleanup_def detached_def Let_def split: if_splits)

lemma ends_inv:
  assumes "evloop_doc L" "rinv s" "process_ends L C rnd s = Some s'"
  shows "rinv s'"
proof -
  let ?s = "on_worker ea_redis_exit_process s"
  have r: "wk_ready (rs_worker ?s) = wk_ready (rs_worker s)"
    by (simp add: ea_redis_exit_process_def Let_def split: option.split)
  have "detached s'"
  proof (cases "detached s")
    case True
    then have d: "detached ?s" using r by (simp add: detached_def)
    then show ?thesis using assms(3) free_detached[OF d]
      by (auto simp: process_ends_def hiredis_call_def Let_def split: option.splits if_splits)
  next
    case False
    then obtain a i where a: "attached a i s" using assms(2) by (auto simp: rinv_def)
    have l: "linked a i ?s" "wk_ready (rs_worker ?s) \<longrightarrow> cx_connected (rs_ctxs ?s a)"
      using a r by (simp_all add: attached_def linked_def)
    show ?thesis using free_ok[OF l assms(1), of rnd] assms(3) attachedD(3,6)[OF a]
      by (auto simp: process_ends_def hiredis_call_def Let_def)
  qed
  then show ?thesis by (simp add: rinv_def)
qed

lemma nginx_inv:
  assumes "rinv s" "nginx_moves s cs"
  shows "rinv (s \<lparr> rs_conns := cs \<rparr>)"
proof (cases "detached s")
  case True
  then have "detached (s \<lparr> rs_conns := cs \<rparr>)"
    using assms(2) by (fastforce simp: detached_def others_quiet_def nginx_moves_def Let_def)
  then show ?thesis by (simp add: rinv_def)
next
  case False
  then obtain a i where a: "attached a i s" using assms(1) by (auto simp: rinv_def)
  note d = attachedD[OF a]
  have m: "let c = rs_conns s j; c' = cs j in
     if i = j then cn_used c' = cn_used c \<and> cn_ours c' = cn_ours c \<and> cn_fd c' = cn_fd c
     else cn_ours c' \<longrightarrow> cn_ours c \<and> cn_read c' = cn_read c \<and> cn_write c' = cn_write c" for j
    using assms(2) d(2) unfolding nginx_moves_def by simp
  have "others_quiet (Some i) (s \<lparr> rs_conns := cs \<rparr>)"
    using d(12) m by (fastforce simp: others_quiet_def Let_def)
  then have "attached a i (s \<lparr> rs_conns := cs \<rparr>)" using a m[of i] by (simp add: attached_def linked_def Let_def)
  then show ?thesis unfolding rinv_def by blast
qed

lemma timeout_attached:
  assumes "rinv s" "ad_timeout (rs_ad s) \<noteq> None"
  obtains a i where "attached a i s"
  using assms by (auto simp: rinv_def detached_def)

text \<open>The handlers, on what an attached connection gives them.\<close>

lemma handlers_attached:
  assumes "attached a i s"
  shows "ea_redis_write_handler L C out i (take_write i s) = hiredis_call L C a out (take_write i s)"
    "ea_redis_timeout_handler L C out (take_timeout s) = hiredis_call L C a out (take_timeout s)"
    "ea_redis_read_handler fuel P L C h io i (take_read i s) = read_drain fuel P L C h io 0 i (take_read i s)"
  using attachedD[OF assms] by (simp_all add: ea_redis_write_handler_def ea_redis_timeout_handler_def ea_redis_read_handler_def)

lemma rstep_inv:
  assumes "rinv s" "rstep P C s l s'"
  shows "rinv s'"
  using assms(2)
proof (cases rule: rstep.cases)
  case (rs_read L i fuel h io)
  obtain a where a: "attached a i s" using comes_attached[OF assms(1)] rs_read by blast
  from drain_ok[OF attached_taken(1)[OF a] rs_read(2) refl, of fuel P C h io 0] show ?thesis
    using rs_read handlers_attached(3)[OF a, of fuel P L C h io] by (auto simp del: split_paired_Ex)
next
  case (rs_write L i out)
  obtain a where a: "attached a i s" using comes_attached[OF assms(1)] rs_write by blast
  show ?thesis using call_inv[OF attached_taken(2)[OF a] rs_write(2)] rs_write handlers_attached(1)[OF a, of L C out] by simp
next
  case (rs_timeout L out)
  obtain a i where a: "attached a i s" using timeout_attached[OF assms(1) rs_timeout(3)] by blast
  show ?thesis using call_inv[OF attached_taken(3)[OF a] rs_timeout(2)] rs_timeout handlers_attached(2)[OF a, of L C out] by simp
next
  case (rs_request L now a out)
  obtain i where "attached a i s" using ready_attached[OF assms(1)] rs_request by (auto simp: ea_redis_available_def)
  from call_inv[OF this rs_request(2,5)] show ?thesis by simp
next
  case (rs_reconnect L c hs fd rnd)
  from fires_inv[OF rs_reconnect(2) assms(1) rs_reconnect(3), of "fst C" fd c rnd]
  show ?thesis using after_connect_inv[OF _ rs_reconnect(2), of _ C hs] rs_reconnect(5) by fastforce
next
  case (rs_nginx cs)
  then show ?thesis using nginx_inv[OF assms(1)] by simp
next
  case (rs_exit L rnd)
  then show ?thesis using ends_inv[OF _ assms(1)] by blast
qed

interpretation rd: invariant_system "rstep P C" rinv
  by unfold_locales (rule rstep_inv)

lemma started_inv: "process_started C s \<Longrightarrow> rinv s"
  unfolding process_started_def using start_inv after_connect_inv by (metis option.inject)

lemma reached_inv: "process_started C s0 \<Longrightarrow> run (rstep P C) s0 tr s \<Longrightarrow> rinv s"
  using rd.run_inv started_inv by blast

section \<open>An example\<close>

definition ref_loop :: evloop where
  "ref_loop = \<lparr>
     el_add_read = (\<lambda>e. (True, e \<lparr> ev_active := True \<rparr>)),
     el_add_write = (\<lambda>e. (True, e \<lparr> ev_active := True \<rparr>)),
     el_del = (\<lambda>e. e \<lparr> ev_active := False \<rparr>),
     el_get = (\<lambda>cs fd. if cn_used (cs 0) then None
        else let e = \<lparr> ev_active = False, ev_ready = False, ev_timer_set = False, ev_posted = False \<rparr>
             in Some (0, \<lparr> cn_fd = fd, cn_read = e, cn_write = e, cn_ours = False, cn_used = True \<rparr>)),
     el_free = (\<lambda>c. c \<lparr> cn_used := False \<rparr>) \<rparr>"

lemma ref_loop_doc: "evloop_doc ref_loop"
  by (auto simp: evloop_doc_def ref_loop_def quiet_def Let_def split: if_splits)

abbreviation ex_rc :: rcontext where
  "ex_rc \<equiv> (ex_rcf, [], ref_fmt)"

text \<open>A process that has just asked for the connection, which is not there yet.\<close>

definition ex_event :: "bool \<Rightarrow> event_st" where
  "ex_event active = \<lparr> ev_active = active, ev_ready = False, ev_timer_set = False, ev_posted = False \<rparr>"

definition ex_link :: rstate where
  "ex_link = \<lparr> rs_worker = (worker0 9) \<lparr> wk_context := Some 0 \<rparr>,
     rs_ad = \<lparr> ad_context = Some 0, ad_conn = Some 0, ad_timeout = None \<rparr>,
     rs_conns = (\<lambda>i. if i = 0 then \<lparr> cn_fd = 5, cn_read = ex_event True, cn_write = ex_event True, cn_ours = True, cn_used = True \<rparr>
                     else \<lparr> cn_fd = -1, cn_read = ex_event False, cn_write = ex_event False, cn_ours = False, cn_used = False \<rparr>),
     rs_ctxs = (\<lambda>a. if a = 0 then \<lparr> cx_fd = 5, cx_hooks = True, cx_live = True, cx_connected = False \<rparr>
                    else \<lparr> cx_fd = 0, cx_hooks = False, cx_live = False, cx_connected = False \<rparr>) \<rparr>"

lemma ex_link_started: "process_started ex_rc ex_link"
proof -
  let ?s0 = "\<lparr> rs_worker = worker0 0, rs_ad = \<lparr> ad_context = None, ad_conn = None, ad_timeout = None \<rparr>,
     rs_conns = (\<lambda>_. \<lparr> cn_fd = -1, cn_read = ex_event False, cn_write = ex_event False, cn_ours = False, cn_used = False \<rparr>),
     rs_ctxs = (\<lambda>_. \<lparr> cx_fd = 0, cx_hooks = False, cx_live = False, cx_connected = False \<rparr>) \<rparr>"
  have "after_connect ref_loop ex_rc [HK_ADD_WRITE, HK_ADD_READ] (process_starts ref_loop (fst ex_rc) 9 5 (CONN 0 True True True) 0 ?s0) = Some ex_link"
    by (simp add: after_connect_def process_starts_def connect_ctx_def ea_redis_attach_def ref_loop_def new_ctx_def on_ctx_def on_worker_def
        ea_redis_init_process_def ea_redis_connect_def hiredis_call_def ea_redis_add_write_def ea_redis_add_read_def the_conn_def put_conn_def
        ex_link_def ex_event_def ex_rcf_def worker0_def Let_def fun_eq_iff)
  then show ?thesis unfolding process_started_def
    by (intro exI[of _ ref_loop] exI[of _ 9] exI[of _ 5] exI[of _ "CONN 0 True True True"] exI[of _ 0]
          exI[of _ "[HK_ADD_WRITE, HK_ADD_READ]"] exI[of _ ?s0])
       (simp add: ref_loop_doc conn_new_def)
qed

section \<open>The properties\<close>

lemma handlers_defined:
  assumes "attached a i s" "evloop_doc L"
  shows "ea_redis_read_handler fuel P L C h io i (take_read i s) \<noteq> None"
    "ea_redis_write_handler L C out i (take_write i s) \<noteq> None"
    "ea_redis_timeout_handler L C out (take_timeout s) \<noteq> None"
    "hiredis_call L C a out s \<noteq> None"
proof -
  obtain e s' where "read_drain fuel P L C h io 0 i (take_read i s) = Some (e, s')"
    using drain_ok[OF attached_taken(1)[OF assms(1)] assms(2) refl] by blast
  then show "ea_redis_read_handler fuel P L C h io i (take_read i s) \<noteq> None" by (simp add: handlers_attached[OF assms(1)])
  have c: "attached a i t \<Longrightarrow> hiredis_call L C a out t \<noteq> None" for t
    using call_ok[OF _ assms(2)] by (metis option.discI)
  show "ea_redis_write_handler L C out i (take_write i s) \<noteq> None" "ea_redis_timeout_handler L C out (take_timeout s) \<noteq> None"
    "hiredis_call L C a out s \<noteq> None"
    using c attached_taken(2,3)[OF assms(1)] assms(1) by (simp_all only: handlers_attached[OF assms(1)] simp_thms)
qed

text \<open>C9. No use after free.  In any worker, after any interleaving of its Redis events, requests,
  reconnections and other connections, whatever hiredis does and whichever calls of the event loop fail: every read, write or timeout event
  of the module that can come, and every command a request may send, is handled without a use of a
  connection that was given back or of a context that was freed; and once the context is gone no event,
  timer or posted event of the module is left in the event loop.\<close>

theorem no_use_after_free:
  assumes "process_started C s0" "run (rstep P C) s0 tr s" "evloop_doc L"
  shows "(\<forall>fuel h io i. read_comes i s \<longrightarrow> ea_redis_read_handler fuel P L C h io i (take_read i s) \<noteq> None)
     \<and> (\<forall>out i. write_comes i s \<longrightarrow> ea_redis_write_handler L C out i (take_write i s) \<noteq> None)
     \<and> (\<forall>out. ad_timeout (rs_ad s) \<noteq> None \<longrightarrow> ea_redis_timeout_handler L C out (take_timeout s) \<noteq> None)
     \<and> (\<forall>now out. ea_redis_available (rs_worker s) now \<longrightarrow>
          (\<exists>a. wk_context (rs_worker s) = Some a \<and> hiredis_call L C a out s \<noteq> None))
     \<and> (ad_context (rs_ad s) = None \<longrightarrow> ad_timeout (rs_ad s) = None \<and> (\<forall>i. \<not> read_comes i s \<and> \<not> write_comes i s))"
proof -
  have inv: "rinv s" by (rule reached_inv[OF assms(1,2)])
  have "\<exists>a. wk_context (rs_worker s) = Some a \<and> hiredis_call L C a out s \<noteq> None" if av: "ea_redis_available (rs_worker s) now" for now out
  proof -
    obtain a where a: "wk_ready (rs_worker s)" "wk_context (rs_worker s) = Some a" using av by (auto simp: ea_redis_available_def)
    then obtain i where "attached a i s" using ready_attached[OF inv] by blast
    then show ?thesis using handlers_defined(4)[OF _ assms(3)] a(2) by blast
  qed
  moreover have "ad_timeout (rs_ad s) = None \<and> (\<forall>i. \<not> read_comes i s \<and> \<not> write_comes i s)" if "ad_context (rs_ad s) = None"
  proof -
    have n: "\<not> attached a i s" for a i using attachedD(1)[of a i s] that by auto
    then have "ad_timeout (rs_ad s) = None" using inv by (auto simp: rinv_def detached_def)
    then show ?thesis using n comes_attached[OF inv] by blast
  qed
  ultimately show ?thesis
    using handlers_defined(1-3)[OF _ assms(3)] comes_attached[OF inv] timeout_attached[OF inv] by meson
qed

theorem no_use_after_free_witness:
  "process_started ex_rc ex_link \<and> write_comes 0 ex_link
     \<and> ea_redis_write_handler ref_loop ex_rc ([HK_DEL_WRITE], Some 3) 0 (take_write 0 ex_link) \<noteq> None"
proof -
  have w: "write_comes 0 ex_link" by (simp add: write_comes_def ex_link_def ex_event_def quiet_def)
  show ?thesis
    using no_use_after_free[OF ex_link_started run_Nil ref_loop_doc, THEN conjunct2, THEN conjunct1] w ex_link_started by blast
qed

text \<open>C25. The read handler leaves nothing behind.  In any worker as above, if the probe finds the socket not
  readable in some round, then with more fuel than that the handler comes to its end; it has then called
  hiredis once per round, went on exactly as long as the probe of the connection's own socket found something to read,
  and ended with a context that is gone or a socket without anything to read, so no reply waits for an edge
  that will not come.\<close>

theorem read_handler_drains:
  assumes "process_started C s0" "run (rstep P C) s0 tr s" "evloop_doc L" "read_comes i s"
    and "\<exists>j < fuel. \<forall>fd. ea_platform_socket_readable P (io j fd) \<noteq> NGX_OK"
  shows "\<exists>a n s'. ad_context (rs_ad s) = Some a \<and> n < fuel
     \<and> ea_redis_read_handler fuel P L C h io i (take_read i s) = Some (True, s')
     \<and> rounds L C h a 0 (Suc n) (take_read i s) = Some s'
     \<and> (\<forall>j < n. ea_platform_socket_readable P (io j (cx_fd (rs_ctxs s a))) = NGX_OK)
     \<and> (ad_context (rs_ad s') = None \<or> ea_platform_socket_readable P (io n (cx_fd (rs_ctxs s a))) \<noteq> NGX_OK)"
proof -
  obtain a where a: "attached a i s" using comes_attached[OF reached_inv[OF assms(1,2)]] assms(4) by blast
  let ?ok = "\<lambda>j. ea_platform_socket_readable P (io j (cx_fd (rs_ctxs s a))) = NGX_OK"
  obtain e s' where r: "read_drain fuel P L C h io 0 i (take_read i s) = Some (e, s')"
    "if e then \<exists>n < fuel. drained L C h ?ok a 0 n (take_read i s) s' else \<forall>j < fuel. ?ok (0 + j)"
    using drain_ok[OF attached_taken(1)[OF a] assms(3), of "cx_fd (rs_ctxs s a)" fuel P C h io 0] by (simp only: taken) blast
  have e: e
  proof (rule ccontr)
    assume "\<not> e"
    then have "\<forall>j < fuel. ?ok j" using r(2) by simp
    then show False using assms(5) by blast
  qed
  then obtain n where "n < fuel" "drained L C h ?ok a 0 n (take_read i s) s'" using r(2) by auto
  then show ?thesis using r(1) e attachedD(1)[OF a] handlers_attached(3)[OF a, of fuel P L C h io]
    unfolding drained_def add_0 by (intro exI[of _ a] exI[of _ n] exI[of _ s']) simp
qed

theorem read_handler_drains_witness:
  "process_started ex_rc ex_link \<and> read_comes 0 ex_link
     \<and> (\<exists>n s'. (n::nat) < 3 \<and> ea_redis_read_handler 3 POSIX ref_loop ex_rc (\<lambda>k. ([HK_ADD_READ], None))
            (\<lambda>k fd. \<lparr> sk_poll = 1, sk_pollin = k < 2, sk_nread = 0, sk_available = 0 \<rparr>) 0 (take_read 0 ex_link) = Some (True, s'))"
proof -
  let ?io = "\<lambda>(k::nat) (fd::int). \<lparr> sk_poll = 1, sk_pollin = k < 2, sk_nread = 0, sk_available = 0 \<rparr>"
  have c: "read_comes 0 ex_link" by (simp add: read_comes_def ex_link_def ex_event_def quiet_def)
  have f: "\<exists>j < 3. \<forall>fd. ea_platform_socket_readable POSIX (?io j fd) \<noteq> NGX_OK"
    by (intro exI[of _ 2]) (simp add: ea_platform_socket_readable_def)
  show ?thesis using read_handler_drains[OF ex_link_started run_Nil ref_loop_doc c f, of "\<lambda>k. ([HK_ADD_READ], None)"] ex_link_started c
    by blast
qed

text \<open>After a failed connect: the worker keeps the pointer to a context that is gone, and no timer runs.\<close>

definition stuck :: "nat \<Rightarrow> rstate \<Rightarrow> bool" where
  "stuck a s \<longleftrightarrow> detached s \<and> wk_context (rs_worker s) = Some a \<and> wk_timer (rs_worker s) = None \<and> \<not> cx_live (rs_ctxs s a)"

lemma stuck_exit: "stuck a s \<Longrightarrow> process_ends L C rnd s = None"
  by (simp add: stuck_def process_ends_def hiredis_call_def Let_def)

lemma stuck_step:
  assumes "stuck a s" "rstep P C s l s'"
  shows "stuck a s'"
  using assms(2)
proof (cases rule: rstep.cases)
  case (rs_nginx cs)
  then have "detached s'" using assms(1) by (fastforce simp: stuck_def detached_def others_quiet_def nginx_moves_def Let_def)
  then show ?thesis using assms(1) rs_nginx by (simp add: stuck_def)
next
  case (rs_exit L rnd)
  then show ?thesis using stuck_exit[OF assms(1)] by simp
qed (use assms(1) in \<open>auto simp: stuck_def detached_def others_quiet_def read_comes_def write_comes_def ea_redis_available_def\<close>)

interpretation sk: invariant_system "rstep P C" "stuck a"
  by unfold_locales (rule stuck_step)

lemma connect_fails:
  assumes "attached a i s" "\<not> cx_connected (rs_ctxs s a)" "evloop_doc L"
    and "hiredis_call L C a ([HK_CONNECT False q_auth q_select q_script], Some rnd) s = Some s'"
  shows "stuck a s'"
proof -
  obtain rcf script fmt where C: "C = (rcf, script, fmt)" by (metis prod_cases3)
  let ?f = "ea_redis_connect_callback rcf script fmt False q_auth q_select q_script"
  let ?s = "on_ctx a (\<lambda>x. x \<lparr> cx_connected := cx_connected x \<or> False \<rparr>) (on_worker ?f s)"
  note d = attachedD[OF assms(1)]
  have f: "?f w = w \<lparr> wk_ready := False \<rparr>" for w by (simp add: ea_redis_connect_callback_def)
  have h: "free_ctx L a rnd ?s = Some s'" using assms(4) d(3) by (simp add: hiredis_call_def C)
  have "linked a i ?s" "wk_ready (rs_worker ?s) \<longrightarrow> cx_connected (rs_ctxs ?s a)"
    using assms(1) f by (simp_all add: attached_def linked_def)
  from free_ok[OF this assms(3), of rnd] h show ?thesis using assms(2) f d by (simp add: stuck_def)
qed

text \<open>C24. A failed connect is final.  Let the first event of a connection tell hiredis that the
  asynchronous connect has failed, so that it calls the connect callback with an error and then frees the
  context, which had never been connected.  Then, whatever happens afterwards in this worker, it never asks for
  a connection again and never uses Redis, and its pointer to the freed context remains: the end of the process
  frees it a second time.\<close>

theorem failed_connect_is_final:
  assumes "process_started C s0" "run (rstep P C) s0 tr s" "evloop_doc L" "write_comes i s"
    and "ad_context (rs_ad s) = Some a" "\<not> cx_connected (rs_ctxs s a)"
    and "ea_redis_write_handler L C ([HK_CONNECT False q_auth q_select q_script], Some rnd) i (take_write i s) = Some s1"
    and "run (rstep P C) s1 tr' s2"
  shows "wk_timer (rs_worker s2) = None \<and> \<not> ea_redis_available (rs_worker s2) now
     \<and> wk_context (rs_worker s2) = Some a \<and> \<not> cx_live (rs_ctxs s2 a) \<and> process_ends L' C rnd' s2 = None"
proof -
  obtain b where b: "attached b i s" using comes_attached[OF reached_inv[OF assms(1,2)]] assms(4) by blast
  then have b': "attached a i s" using attachedD(1)[OF b] assms(5) by simp
  have "stuck a s1"
    using connect_fails[OF attached_taken(2)[OF b'] _ assms(3)] assms(6,7) handlers_attached(1)[OF b'] by simp
  then have "stuck a s2" using sk.run_inv assms(8) by blast
  then show ?thesis using stuck_exit by (simp add: stuck_def detached_def ea_redis_available_def)
qed

theorem failed_connect_is_final_witness:
  "\<exists>s1. ea_redis_write_handler ref_loop ex_rc ([HK_CONNECT False True True True], Some 3) 0 (take_write 0 ex_link) = Some s1
     \<and> wk_timer (rs_worker s1) = None \<and> process_ends ref_loop ex_rc 4 s1 = None"
proof -
  have w: "write_comes 0 ex_link" by (simp add: write_comes_def ex_link_def ex_event_def quiet_def)
  have a: "ad_context (rs_ad ex_link) = Some 0" "\<not> cx_connected (rs_ctxs ex_link 0)" by (simp_all add: ex_link_def)
  obtain b where b: "attached b 0 ex_link" using comes_attached[OF started_inv[OF ex_link_started]] w by blast
  obtain s1 where s1: "ea_redis_write_handler ref_loop ex_rc ([HK_CONNECT False True True True], Some 3) 0 (take_write 0 ex_link) = Some s1"
    using handlers_defined(2)[OF b ref_loop_doc] by (metis not_None_eq)
  show ?thesis
    using failed_connect_is_final[OF ex_link_started run_Nil ref_loop_doc w a s1 run_Nil, where rnd' = 4 and L' = ref_loop] s1 by blast
qed

end
