(* ===== verification/EA_Request.thy ===== *)
theory EA_Request
  imports EA_Redis EA_Config
begin

text \<open>
  The two places where the module meets a request: the preaccess handler, which enforces bans, and
  the header filter, which counts responses; the context of a request with the anchor that lets it
  survive internal redirects, the headers of a rejection, and the three variables.
\<close>

section \<open>Data\<close>

text \<open>What a running process has: nginx, the formatting of numbers, the digest of the Redis script,
  the zones and the Redis configuration.\<close>

record 's site =
  st_ngx :: "'s ngx"
  st_fmt :: "int \<Rightarrow> bytes"
  st_sha :: bytes
  st_zones :: "zone list"
  st_redis :: redis_conf

text \<open>What it works on: the store of every zone, the Redis worker, what was logged of decisions, and the
  calls of \<^verbatim>\<open>ea_record\<close> that were made, each with the zone's index, the key and the time.  Like the calls of
  hiredis in the worker they are entered where they are made; no handler reads them.\<close>

datatype decision = DECISION "log_level option" bytes bytes bytes bytes nat time

record 's world =
  wd_stores :: "'s shctx list"
  wd_worker :: worker
  wd_log :: "decision list"
  wd_records :: "(nat \<times> bytes \<times> time) list"

text \<open>A response header; a header whose hash is zero is not sent.\<close>

record header =
  hd_key :: bytes
  hd_value :: bytes
  hd_hash :: bool

datatype cleanup = CLN_NOOP "32 word" nat | CLN_OTHER

text \<open>A request: whether it is the main request, the module's slot of \<^verbatim>\<open>r->ctx\<close> as an index into
  the contexts its pool holds, the cleanup list, the headers going out, and the references a parked
  request holds.\<close>

record request =
  rq_main :: bool
  rq_ctx :: "nat option"
  rq_pool :: "req_ctx list"
  rq_cleanup :: "cleanup list"
  rq_status :: nat
  rq_headers :: "header list"
  rq_last_modified_time :: time
  rq_last_modified :: "nat option"
  rq_parked :: nat

definition at_idx :: "'a list \<Rightarrow> nat \<Rightarrow> 'a option" where
  "at_idx xs i = (if i < length xs then Some (xs ! i) else None)"

definition put_ctx :: "nat \<Rightarrow> req_ctx \<Rightarrow> request \<Rightarrow> request" where
  "put_ctx i ctx r = r \<lparr> rq_pool := (rq_pool r)[i := ctx] \<rparr>"

definition put_store :: "nat \<Rightarrow> 's shctx \<Rightarrow> 's world \<Rightarrow> 's world" where
  "put_store i sh W = W \<lparr> wd_stores := (wd_stores W)[i := sh] \<rparr>"

text \<open>A location's flags; one that is not set is not zero.\<close>

definition conf_on :: "bool option \<Rightarrow> bool" where
  "conf_on f \<longleftrightarrow> f \<noteq> Some False"

definition conf_reject_status :: "loc_conf \<Rightarrow> nat" where
  "conf_reject_status l = (case lc_reject_status l of None \<Rightarrow> 2 ^ 64 - 1 | Some s \<Rightarrow> s)"

definition ea_log_decision ::
  "loc_conf \<Rightarrow> zone \<Rightarrow> req_ctx \<Rightarrow> bytes \<Rightarrow> bytes \<Rightarrow> 's world \<Rightarrow> 's world" where
  "ea_log_decision conf z ctx source action W =
     W \<lparr> wd_log := wd_log W @ [DECISION (lc_log_level conf) source (rx_log_key ctx) (z_name z) action
                                (rx_count ctx) (rx_blocked_until ctx)] \<rparr>"

section \<open>The context and its anchor\<close>

definition ANCHOR_MAGIC :: "32 word" where "ANCHOR_MAGIC = 0x45414e43"

definition ea_register_anchor :: "bool \<Rightarrow> nat \<Rightarrow> request \<Rightarrow> ngx_rc \<times> request" where
  "ea_register_anchor alloc_ok i r =
     (if alloc_ok then (NGX_OK, r \<lparr> rq_cleanup := CLN_NOOP ANCHOR_MAGIC i # rq_cleanup r \<rparr>) else (NGX_ERROR, r))"

fun ea_find_anchor_ctx :: "cleanup list \<Rightarrow> nat option" where
  "ea_find_anchor_ctx [] = None"
| "ea_find_anchor_ctx (CLN_OTHER # cs) = ea_find_anchor_ctx cs"
| "ea_find_anchor_ctx (CLN_NOOP magic i # cs) = (if magic \<noteq> ANCHOR_MAGIC then ea_find_anchor_ctx cs else Some i)"

definition ea_effective_dry_run :: "req_ctx \<Rightarrow> loc_conf \<Rightarrow> bool" where
  "ea_effective_dry_run ctx conf = (if rx_from_anchor ctx then rx_dry_run ctx else conf_on (lc_dry_run conf))"

text \<open>The value of the zone's key for the request, and which allocations succeed.\<close>

record prep =
  pr_value :: "bytes option"
  pr_ctx :: bool
  pr_anchor :: bool
  pr_key :: bool
  pr_log :: bool

definition new_ctx :: "loc_conf \<Rightarrow> req_ctx" where
  "new_ctx conf = \<lparr> rx_zone = None, rx_key = [], rx_log_key = [], rx_redis_events = [], rx_redis_block = [],
     rx_count = 0, rx_blocked_until = 0, rx_state = BYPASSED, rx_response_seen = False, rx_own_rejection = False,
     rx_dry_run = conf_on (lc_dry_run conf), rx_redis_pending = False, rx_redis_checked = False,
     rx_redis_blocked = False, rx_from_anchor = False \<rparr>"

definition ea_prepare_fresh :: "'s ngx \<Rightarrow> prep \<Rightarrow> loc_conf \<Rightarrow> request \<Rightarrow> nat option \<times> request" where
  "ea_prepare_fresh E p conf r =
     (case pr_value p of
        None \<Rightarrow> (None, r)
      | Some key \<Rightarrow>
          if \<not> pr_ctx p then (None, r)
          else
            let i = length (rq_pool r);
                ctx = new_ctx conf;
                r = r \<lparr> rq_pool := rq_pool r @ [ctx], rq_ctx := Some i \<rparr>;
                (rc, r) = ea_register_anchor (pr_anchor p) i r
            in if rc \<noteq> NGX_OK then (None, r)
               else if key = [] then (Some i, r)
               else if \<not> pr_key p then (None, r)
               else
                 let ctx = ctx \<lparr> rx_key := sha256 E key \<rparr> in
                 if \<not> pr_log p then (None, put_ctx i ctx r)
                 else (Some i, put_ctx i (ctx \<lparr> rx_log_key := hex_of (sha256 E key), rx_zone := lc_zone conf,
                                              rx_state := PASSED \<rparr>) r))"

definition ea_prepare_ctx :: "'s ngx \<Rightarrow> prep \<Rightarrow> loc_conf \<Rightarrow> request \<Rightarrow> (nat option \<times> request) option" where
  "ea_prepare_ctx E p conf r =
     (case rq_ctx r of
        Some i \<Rightarrow> Some (Some i, r)
      | None \<Rightarrow>
          case ea_find_anchor_ctx (rq_cleanup r) of
            Some i \<Rightarrow> do {
              ctx \<leftarrow> at_idx (rq_pool r) i;
              Some (Some i, (put_ctx i (ctx \<lparr> rx_from_anchor := True \<rparr>) r) \<lparr> rq_ctx := Some i \<rparr>)
            }
          | None \<Rightarrow>
              if \<not> conf_on (lc_enabled conf) \<or> lc_zone conf = None then Some (None, r)
              else Some (ea_prepare_fresh E p conf r))"

section \<open>Before the request is served\<close>

text \<open>A client that is banned: observed in a dry run, rejected otherwise.\<close>

definition preaccess_banned ::
  "loc_conf \<Rightarrow> zone \<Rightarrow> nat \<Rightarrow> req_ctx \<Rightarrow> bytes \<Rightarrow> bytes \<Rightarrow> 's world \<Rightarrow> request \<Rightarrow> ngx_rc \<times> 's world \<times> request" where
  "preaccess_banned conf z i ctx would rejected W r =
     (if ea_effective_dry_run ctx conf
      then let ctx = ctx \<lparr> rx_state := DRY_RUN \<rparr>
           in (NGX_DECLINED, ea_log_decision conf z ctx (ascii ''dry-run'') would W, put_ctx i ctx r)
      else let ctx = ctx \<lparr> rx_state := BLOCKED, rx_own_rejection := True \<rparr>
           in (HTTP_STATUS (conf_reject_status conf), ea_log_decision conf z ctx (ascii ''blocked'') rejected W,
               put_ctx i ctx r))"

definition preaccess_verdict ::
  "'s site \<Rightarrow> time \<Rightarrow> loc_conf \<Rightarrow> nat \<Rightarrow> zone \<Rightarrow> nat \<Rightarrow> req_ctx \<Rightarrow> 's world \<Rightarrow> request
     \<Rightarrow> (ngx_rc \<times> 's world \<times> request) option" where
  "preaccess_verdict S now conf zi z i ctx W r =
     (if rx_redis_blocked ctx
      then Some (preaccess_banned conf z i (ctx \<lparr> rx_count := z_threshold z \<rparr>)
                   (ascii ''would block (Redis)'') (ascii ''rejected (Redis)'') W r)
      else do {
        sh \<leftarrow> at_idx (wd_stores W) zi;
        (rc, out, sh) \<leftarrow> ea_is_blocked (st_ngx S) z sh (rx_key ctx) now;
        let W = put_store zi sh W;
        let ctx = ctx \<lparr> rx_count := fst out, rx_blocked_until := snd out \<rparr>;
        if rc = NGX_OK
        then Some (preaccess_banned conf z i ctx (ascii ''would block (local)'') (ascii ''rejected (local)'') W r)
        else Some (NGX_DECLINED, W, put_ctx i ctx r)
      })"

text \<open>The client is known: ask Redis first where the zone says so, unless that was done.  \<open>alloc\<close> and
  \<open>queue_ok\<close> are for the Redis check.\<close>

definition preaccess_client ::
  "'s site \<Rightarrow> (nat \<Rightarrow> bytes option) \<Rightarrow> bool \<Rightarrow> time \<Rightarrow> loc_conf \<Rightarrow> nat \<Rightarrow> zone \<Rightarrow> nat \<Rightarrow> req_ctx \<Rightarrow> 's world \<Rightarrow> request
     \<Rightarrow> (ngx_rc \<times> 's world \<times> request) option" where
  "preaccess_client S alloc queue_ok now conf zi z i ctx W r =
     (if z_redis z \<and> \<not> rx_redis_checked ctx then do {
        (rc, w, ctx, parked) \<leftarrow> ea_redis_check (st_redis S) z now alloc queue_ok (wd_worker W) ctx;
        let W = W \<lparr> wd_worker := w \<rparr>;
        let r = put_ctx i ctx (if parked then r \<lparr> rq_parked := rq_parked r + 1 \<rparr> else r);
        if rc = NGX_AGAIN then Some (NGX_AGAIN, W, r) else preaccess_verdict S now conf zi z i ctx W r
      } else preaccess_verdict S now conf zi z i ctx W r)"

definition ea_preaccess ::
  "'s site \<Rightarrow> prep \<Rightarrow> (nat \<Rightarrow> bytes option) \<Rightarrow> bool \<Rightarrow> time \<Rightarrow> loc_conf \<Rightarrow> 's world \<Rightarrow> request
     \<Rightarrow> (ngx_rc \<times> 's world \<times> request) option" where
  "ea_preaccess S p alloc queue_ok now conf W r =
     (if \<not> rq_main r then Some (NGX_DECLINED, W, r)
      else do {
        (c, r) \<leftarrow> ea_prepare_ctx (st_ngx S) p conf r;
        case c of
          None \<Rightarrow> Some (if conf_on (lc_enabled conf) \<and> lc_zone conf \<noteq> None then HTTP_STATUS 500 else NGX_DECLINED, W, r)
        | Some i \<Rightarrow> do {
            ctx \<leftarrow> at_idx (rq_pool r) i;
            case rx_zone ctx of
              None \<Rightarrow> Some (NGX_DECLINED, W, r)
            | Some zi \<Rightarrow> do {
                z \<leftarrow> at_idx (st_zones S) zi;
                preaccess_client S alloc queue_ok now conf zi z i ctx W r
              }
          }
      })"

text \<open>The answer of Redis for a parked request; the resumed phases run the handler again.\<close>

definition ea_check_reply ::
  "'s site \<Rightarrow> redis_reply option \<Rightarrow> time \<Rightarrow> 's world \<Rightarrow> request \<Rightarrow> ('s world \<times> request) option" where
  "ea_check_reply S reply now W r =
     (case rq_ctx r of
        None \<Rightarrow> Some (W, r \<lparr> rq_parked := rq_parked r - 1 \<rparr>)
      | Some i \<Rightarrow> do {
          ctx \<leftarrow> at_idx (rq_pool r) i;
          zi \<leftarrow> rx_zone ctx;
          z \<leftarrow> at_idx (st_zones S) zi;
          (w, ctx) \<leftarrow> ea_redis_check_callback (st_ngx S) z now reply (wd_worker W) ctx;
          Some (W \<lparr> wd_worker := w \<rparr>, (put_ctx i ctx r) \<lparr> rq_parked := rq_parked r - 1 \<rparr>)
        })"

section \<open>The headers of a rejection\<close>

definition ea_add_header :: "bool \<Rightarrow> bytes \<Rightarrow> bytes \<Rightarrow> request \<Rightarrow> ngx_rc \<times> request" where
  "ea_add_header push_ok key val r =
     (if push_ok then (NGX_OK, r \<lparr> rq_headers := rq_headers r @ [\<lparr> hd_key = key, hd_value = val, hd_hash = True \<rparr>] \<rparr>)
      else (NGX_ERROR, r))"

definition drop_last_modified :: "request \<Rightarrow> request option" where
  "drop_last_modified r =
     (case rq_last_modified r of
        None \<Rightarrow> Some (r \<lparr> rq_last_modified_time := -1 \<rparr>)
      | Some i \<Rightarrow> do {
          h \<leftarrow> at_idx (rq_headers r) i;
          Some (r \<lparr> rq_last_modified_time := -1, rq_headers := (rq_headers r)[i := h \<lparr> hd_hash := False \<rparr>],
                    rq_last_modified := None \<rparr>)
        })"

text \<open>\<open>push1\<close>, \<open>push2\<close>, \<open>alloc_ok\<close>: the two header slots and the buffer can be had.\<close>

definition ea_add_reject_headers ::
  "(int \<Rightarrow> bytes) \<Rightarrow> bool \<Rightarrow> bool \<Rightarrow> bool \<Rightarrow> time \<Rightarrow> req_ctx \<Rightarrow> request \<Rightarrow> (ngx_rc \<times> request) option" where
  "ea_add_reject_headers fmt push1 alloc_ok push2 now ctx r = do {
     r \<leftarrow> drop_last_modified r;
     let (rc, r) = ea_add_header push1 (ascii ''Cache-Control'') (ascii ''private, no-store'') r;
     if rc \<noteq> NGX_OK then Some (NGX_ERROR, r)
     else if (rq_status r = 429 \<or> rq_status r = 503) \<and> rx_blocked_until ctx > now then do {
       retry \<leftarrow> t_sub (rx_blocked_until ctx) now;
       let retry = (if retry < 1 then 1 else retry);
       if \<not> alloc_ok then Some (NGX_ERROR, r)
       else Some (ea_add_header push2 (ascii ''Retry-After'') (fmt retry) r)
     }
     else Some (NGX_OK, r)
   }"

section \<open>When the response's headers are sent\<close>

text \<open>The next filter, an abort of the response, or its replacement by a special one.\<close>

datatype hf_result = HF_NEXT | HF_ERROR | HF_FINALIZE nat

definition filter_dry_run ::
  "'s site \<Rightarrow> time \<Rightarrow> loc_conf \<Rightarrow> nat \<Rightarrow> zone \<Rightarrow> nat \<Rightarrow> req_ctx \<Rightarrow> 's world \<Rightarrow> request
     \<Rightarrow> (hf_result \<times> 's world \<times> request) option" where
  "filter_dry_run S now conf zi z i ctx W r = do {
     sh \<leftarrow> at_idx (wd_stores W) zi;
     (cnt, bu, would_block) \<leftarrow> ea_peek (st_ngx S) z sh (rx_key ctx) now;
     let ctx = ctx \<lparr> rx_count := cnt, rx_blocked_until := bu, rx_state := DRY_RUN \<rparr>;
     Some (HF_NEXT,
       (if would_block
        then ea_log_decision conf z ctx (ascii ''dry-run'') (ascii ''would block (threshold reached)'') W else W),
       put_ctx i ctx r)
   }"

text \<open>The call of \<^verbatim>\<open>ea_record\<close> on the zone's store.\<close>

definition call_record ::
  "'s site \<Rightarrow> time \<Rightarrow> nat \<Rightarrow> zone \<Rightarrow> req_ctx \<Rightarrow> 's world \<Rightarrow> (ngx_rc \<times> (nat \<times> time) \<times> 's world) option" where
  "call_record S now zi z ctx W = do {
     sh \<leftarrow> at_idx (wd_stores W) zi;
     (rc, out, sh) \<leftarrow> ea_record (st_ngx S) z sh (rx_key ctx) now (rx_count ctx, rx_blocked_until ctx);
     Some (rc, out, (put_store zi sh W) \<lparr> wd_records := wd_records W @ [(zi, rx_key ctx, now)] \<rparr>)
   }"

definition filter_record ::
  "'s site \<Rightarrow> (nat \<Rightarrow> bytes option) \<Rightarrow> time \<Rightarrow> loc_conf \<Rightarrow> nat \<Rightarrow> zone \<Rightarrow> nat \<Rightarrow> req_ctx \<Rightarrow> 's world \<Rightarrow> request
     \<Rightarrow> (hf_result \<times> 's world \<times> request) option" where
  "filter_record S alloc now conf zi z i ctx W r = do {
     (rc, out, W) \<leftarrow> call_record S now zi z ctx W;
     let ctx = ctx \<lparr> rx_count := fst out, rx_blocked_until := snd out \<rparr>;
     (w, ctx) \<leftarrow> (if z_redis z then ea_redis_record (st_fmt S) (st_sha S) (st_redis S) z now alloc (wd_worker W) ctx
                 else Some (wd_worker W, ctx));
     let W = W \<lparr> wd_worker := w \<rparr>;
     if rc = NGX_ERROR then
       if z_on_full_reject z
       then let ctx = ctx \<lparr> rx_state := BLOCKED, rx_own_rejection := True, rx_response_seen := False \<rparr>
            in Some (HF_FINALIZE (conf_reject_status conf),
                     ea_log_decision conf z ctx (ascii ''blocked'') (ascii ''rejected (zone full)'') W, put_ctx i ctx r)
       else Some (HF_NEXT, W, put_ctx i ctx r)
     else if rc = NGX_BUSY then
       let ctx = ctx \<lparr> rx_state := BLOCKED \<rparr>
       in Some (HF_NEXT, ea_log_decision conf z ctx (ascii ''blocked'') (ascii ''threshold reached'') W, put_ctx i ctx r)
     else Some (HF_NEXT, W, put_ctx i (ctx \<lparr> rx_state := COUNTED \<rparr>) r)
   }"

text \<open>Which allocations succeed while the headers of a rejection are added.\<close>

record fmem =
  fm_push1 :: bool
  fm_retry :: bool
  fm_push2 :: bool

text \<open>The response of a client is seen for the first time.  The context is marked before it is
  looked at; a context that came from the anchor keeps its origin's dry run.\<close>

definition mark_seen :: "loc_conf \<Rightarrow> req_ctx \<Rightarrow> req_ctx" where
  "mark_seen conf ctx =
     (let ctx = ctx \<lparr> rx_response_seen := True \<rparr>
      in if \<not> rx_from_anchor ctx then ctx \<lparr> rx_dry_run := conf_on (lc_dry_run conf) \<rparr> else ctx)"

definition filter_client ::
  "'s site \<Rightarrow> fmem \<Rightarrow> (nat \<Rightarrow> bytes option) \<Rightarrow> time \<Rightarrow> loc_conf \<Rightarrow> nat \<Rightarrow> zone \<Rightarrow> nat \<Rightarrow> req_ctx \<Rightarrow> 's world \<Rightarrow> request
     \<Rightarrow> (hf_result \<times> 's world \<times> request) option" where
  "filter_client S fm alloc now conf zi z i ctx W r = do {
     let ctx = mark_seen conf ctx;
     let r = put_ctx i ctx r;
     if rx_own_rejection ctx then do {
       (rc, r) \<leftarrow> ea_add_reject_headers (st_fmt S) (fm_push1 fm) (fm_retry fm) (fm_push2 fm) now ctx r;
       Some (if rc \<noteq> NGX_OK then HF_ERROR else HF_NEXT, W, r)
     }
     else if rx_state ctx = DRY_RUN then Some (HF_NEXT, W, r)
     else do {
       m \<leftarrow> ea_status_matches (z_statuses z) (rq_status r);
       if \<not> m then Some (HF_NEXT, W, r)
       else if rx_dry_run ctx then filter_dry_run S now conf zi z i ctx W r
       else filter_record S alloc now conf zi z i ctx W r
     }
   }"

definition ea_header_filter ::
  "'s site \<Rightarrow> prep \<Rightarrow> fmem \<Rightarrow> (nat \<Rightarrow> bytes option) \<Rightarrow> time \<Rightarrow> loc_conf \<Rightarrow> 's world \<Rightarrow> request
     \<Rightarrow> (hf_result \<times> 's world \<times> request) option" where
  "ea_header_filter S p fm alloc now conf W r =
     (if \<not> rq_main r then Some (HF_NEXT, W, r)
      else do {
        (c, r) \<leftarrow> ea_prepare_ctx (st_ngx S) p conf r;
        case c of
          None \<Rightarrow> Some (HF_NEXT, W, r)
        | Some i \<Rightarrow> do {
            ctx \<leftarrow> at_idx (rq_pool r) i;
            case rx_zone ctx of
              None \<Rightarrow> Some (HF_NEXT, W, r)
            | Some zi \<Rightarrow>
                if rx_response_seen ctx then Some (HF_NEXT, W, r)
                else do {
                  z \<leftarrow> at_idx (st_zones S) zi;
                  filter_client S fm alloc now conf zi z i ctx W r
                }
          }
      })"

section \<open>Variables\<close>

definition get_req_ctx :: "request \<Rightarrow> req_ctx option option" where
  "get_req_ctx r = (case rq_ctx r of None \<Rightarrow> Some None | Some i \<Rightarrow> map_option Some (at_idx (rq_pool r) i))"

definition state_name :: "req_state \<Rightarrow> bytes" where
  "state_name s = (case s of BYPASSED \<Rightarrow> ascii ''BYPASSED'' | PASSED \<Rightarrow> ascii ''PASSED'' | COUNTED \<Rightarrow> ascii ''COUNTED''
     | BLOCKED \<Rightarrow> ascii ''BLOCKED'' | DRY_RUN \<Rightarrow> ascii ''DRY_RUN'')"

definition ea_variable_status :: "request \<Rightarrow> bytes option" where
  "ea_variable_status r = do {
     c \<leftarrow> get_req_ctx r;
     Some (case c of None \<Rightarrow> state_name BYPASSED | Some ctx \<Rightarrow> state_name (rx_state ctx))
   }"

text \<open>The other two need a buffer: \<open>None\<close> of the inner option is the error.\<close>

definition ea_variable_count :: "(int \<Rightarrow> bytes) \<Rightarrow> bool \<Rightarrow> request \<Rightarrow> bytes option option" where
  "ea_variable_count fmt alloc_ok r = do {
     c \<leftarrow> get_req_ctx r;
     Some (if \<not> alloc_ok then None else Some (fmt (case c of None \<Rightarrow> 0 | Some ctx \<Rightarrow> int (rx_count ctx))))
   }"

definition ea_variable_blocked_until :: "(int \<Rightarrow> bytes) \<Rightarrow> bool \<Rightarrow> request \<Rightarrow> bytes option option" where
  "ea_variable_blocked_until fmt alloc_ok r = do {
     c \<leftarrow> get_req_ctx r;
     Some (if \<not> alloc_ok then None else Some (fmt (case c of None \<Rightarrow> 0 | Some ctx \<Rightarrow> rx_blocked_until ctx)))
   }"

end
