(* ===== verification/EA_Serve.thy ===== *)
theory EA_Serve
  imports EA_Request EA_RedisRun
begin

text \<open>
  The life of a request: what its context keeps through every handler, redirect and reply, the
  invariant of the process it runs in, and all interleavings of its steps as a step relation.
\<close>

section \<open>The governing context\<close>

text \<open>The context that an anchor keeps; after the first preparation it is the only one with a zone.\<close>

abbreviation anchor :: "request \<Rightarrow> nat option" where
  "anchor r \<equiv> ea_find_anchor_ctx (rq_cleanup r)"

definition govern :: "request \<Rightarrow> req_ctx option" where
  "govern r = (case anchor r of None \<Rightarrow> None | Some a \<Rightarrow> Some (rq_pool r ! a))"

definition until_ok :: "time \<Rightarrow> bool" where
  "until_ok u \<longleftrightarrow> 0 \<le> u \<and> u < 2 ^ 63"

lemma until_ok_0 [simp]: "until_ok 0"
  by (simp add: until_ok_def)

definition ctx_ok :: "'s site \<Rightarrow> req_ctx \<Rightarrow> bool" where
  "ctx_ok S c \<longleftrightarrow> until_ok (rx_blocked_until c) \<and> (case rx_zone c of
     None \<Rightarrow> \<not> rx_own_rejection c \<and> \<not> rx_redis_pending c
   | Some zi \<Rightarrow> zi < length (st_zones S) \<and> length (rx_key c) = DIGEST_LEN \<and> cache_ok (st_redis S) (st_zones S ! zi) c
       \<and> (rx_redis_pending c \<longrightarrow> \<not> rx_redis_checked c \<and> z_redis (st_zones S ! zi)))"

definition rq_inv :: "'s site \<Rightarrow> request \<Rightarrow> bool" where
  "rq_inv S r \<longleftrightarrow> (\<forall>i. rq_ctx r = Some i \<longrightarrow> i < length (rq_pool r))
     \<and> (\<forall>i. rq_last_modified r = Some i \<longrightarrow> i < length (rq_headers r))
     \<and> (\<forall>c \<in> set (rq_pool r). ctx_ok S c)
     \<and> (\<forall>a. anchor r = Some a \<longrightarrow> a < length (rq_pool r))
     \<and> (\<forall>j < length (rq_pool r). anchor r \<noteq> Some j \<longrightarrow> rx_zone (rq_pool r ! j) = None)
     \<and> (\<forall>a j. anchor r = Some a \<and> rq_ctx r = Some j \<longrightarrow> j = a)"

lemma rq_invD:
  assumes "rq_inv S r"
  shows "rq_ctx r = Some i \<Longrightarrow> i < length (rq_pool r)" "rq_last_modified r = Some i \<Longrightarrow> i < length (rq_headers r)"
    "i < length (rq_pool r) \<Longrightarrow> ctx_ok S (rq_pool r ! i)" "anchor r = Some a \<Longrightarrow> a < length (rq_pool r)"
    "i < length (rq_pool r) \<Longrightarrow> anchor r \<noteq> Some i \<Longrightarrow> rx_zone (rq_pool r ! i) = None"
    "anchor r = Some a \<Longrightarrow> rq_ctx r = Some j \<Longrightarrow> j = a"
proof -
  show "rq_ctx r = Some i \<Longrightarrow> i < length (rq_pool r)" using assms by (simp add: rq_inv_def)
  show "rq_last_modified r = Some i \<Longrightarrow> i < length (rq_headers r)" using assms by (simp add: rq_inv_def)
  show "i < length (rq_pool r) \<Longrightarrow> ctx_ok S (rq_pool r ! i)" using assms nth_mem unfolding rq_inv_def by blast
  show "anchor r = Some a \<Longrightarrow> a < length (rq_pool r)" using assms by (simp add: rq_inv_def)
  show "i < length (rq_pool r) \<Longrightarrow> anchor r \<noteq> Some i \<Longrightarrow> rx_zone (rq_pool r ! i) = None" using assms by (simp add: rq_inv_def)
  show "anchor r = Some a \<Longrightarrow> rq_ctx r = Some j \<Longrightarrow> j = a" using assms by (simp add: rq_inv_def)
qed

text \<open>How a context may change.\<close>

definition later :: "req_ctx \<Rightarrow> req_ctx \<Rightarrow> bool" where
  "later c c' \<longleftrightarrow> rx_zone c' = rx_zone c \<and> rx_key c' = rx_key c \<and> rx_log_key c' = rx_log_key c
     \<and> (rx_own_rejection c \<longrightarrow> rx_own_rejection c')
     \<and> (rx_response_seen c \<longrightarrow> rx_response_seen c' \<or> rx_own_rejection c')
     \<and> (rx_from_anchor c \<longrightarrow> rx_from_anchor c' \<and> rx_dry_run c' = rx_dry_run c)
     \<and> (rx_redis_pending c \<or> rx_redis_checked c \<longrightarrow> rx_redis_pending c' \<or> rx_redis_checked c')"

lemma later_refl [simp]: "later c c"
  by (simp add: later_def)

lemma later_trans: "later c c' \<Longrightarrow> later c' c'' \<Longrightarrow> later c c''"
  by (auto simp: later_def)

definition evolves :: "request \<Rightarrow> request \<Rightarrow> bool" where
  "evolves r r' \<longleftrightarrow> (case anchor r of
      None \<Rightarrow> True
    | Some a \<Rightarrow> anchor r' = Some a \<and> later (rq_pool r ! a) (rq_pool r' ! a))"

lemma evolves_refl [simp]: "evolves r r"
  by (simp add: evolves_def split: option.split)

lemma evolves_trans: "evolves r r' \<Longrightarrow> evolves r' r'' \<Longrightarrow> evolves r r''"
  by (auto simp: evolves_def split: option.splits intro: later_trans)

lemma evolves_govern: "evolves r r' \<Longrightarrow> govern r = Some c \<Longrightarrow> \<exists>c'. govern r' = Some c' \<and> later c c'"
  by (auto simp: evolves_def govern_def split: option.splits)

section \<open>Preparing a context\<close>

lemma put_ctx_sel [simp]:
  "rq_ctx (put_ctx i c r) = rq_ctx r" "rq_cleanup (put_ctx i c r) = rq_cleanup r" "rq_main (put_ctx i c r) = rq_main r"
  "rq_status (put_ctx i c r) = rq_status r" "rq_headers (put_ctx i c r) = rq_headers r"
  "rq_last_modified (put_ctx i c r) = rq_last_modified r" "rq_parked (put_ctx i c r) = rq_parked r"
  "rq_last_modified_time (put_ctx i c r) = rq_last_modified_time r"
  "length (rq_pool (put_ctx i c r)) = length (rq_pool r)"
  "i < length (rq_pool r) \<Longrightarrow> rq_pool (put_ctx i c r) ! i = c"
  "i \<noteq> j \<Longrightarrow> rq_pool (put_ctx i c r) ! j = rq_pool r ! j"
  by (simp_all add: put_ctx_def)

lemma put_ctx_inv:
  assumes "rq_inv S r" "anchor r = Some i" "ctx_ok S c"
  shows "rq_inv S (put_ctx i c r)"
proof -
  have "set ((rq_pool r)[i := c]) \<subseteq> insert c (set (rq_pool r))" by (rule set_update_subset_insert)
  then have "\<forall>c' \<in> set (rq_pool (put_ctx i c r)). ctx_ok S c'"
    using assms(1,3) by (auto simp: put_ctx_def rq_inv_def)
  moreover have "rx_zone (rq_pool (put_ctx i c r) ! j) = None" if "j < length (rq_pool r)" "anchor r \<noteq> Some j" for j
    using that assms(2) rq_invD(5)[OF assms(1) that] by (cases "i = j") auto
  ultimately show ?thesis using assms(1) unfolding rq_inv_def by simp
qed

lemma put_ctx_evolves:
  assumes "rq_inv S r" "anchor r = Some i" "later (rq_pool r ! i) c"
  shows "evolves r (put_ctx i c r)"
  using rq_invD(4)[OF assms(1,2)] assms(2,3) by (simp add: evolves_def)

lemma govern_put_ctx: "rq_inv S r \<Longrightarrow> anchor r = Some i \<Longrightarrow> govern (put_ctx i c r) = Some c"
  using rq_invD(4)[of S r i] by (simp add: govern_def)

text \<open>What preparing leaves alone.\<close>

definition same_rest :: "request \<Rightarrow> request \<Rightarrow> bool" where
  "same_rest r r' \<longleftrightarrow> rq_main r' = rq_main r \<and> rq_status r' = rq_status r \<and> rq_headers r' = rq_headers r
     \<and> rq_last_modified_time r' = rq_last_modified_time r \<and> rq_last_modified r' = rq_last_modified r
     \<and> rq_parked r' = rq_parked r"

lemma same_rest_simps [simp]: "same_rest r r" "same_rest r (put_ctx i c r') = same_rest r r'"
  by (simp_all add: same_rest_def)

definition conf_ok :: "'s site \<Rightarrow> loc_conf \<Rightarrow> bool" where
  "conf_ok S conf \<longleftrightarrow> loc_ok (st_zones S) conf \<and> merged conf"

lemma find_anchor_new [simp]: "ea_find_anchor_ctx (CLN_NOOP ANCHOR_MAGIC i # cs) = Some i"
  by simp

lemma rq_inv_append:
  assumes "rq_inv S r" "rq_ctx r = None" "anchor r = None" "ctx_ok S c" "rx_zone c = None"
  shows "rq_inv S (r \<lparr> rq_pool := rq_pool r @ [c], rq_ctx := Some (length (rq_pool r)) \<rparr>)"
  using assms by (auto simp: rq_inv_def nth_append)

lemma rq_inv_anchor:
  assumes "rq_inv S r" "anchor r = None" "ctx_ok S c"
  shows "rq_inv S (r \<lparr> rq_pool := rq_pool r @ [c], rq_ctx := Some (length (rq_pool r)),
                       rq_cleanup := CLN_NOOP ANCHOR_MAGIC (length (rq_pool r)) # rq_cleanup r \<rparr>)"
  using assms by (auto simp: rq_inv_def nth_append)

text \<open>A fresh context: not made, made but not anchored, or anchored, with a zone only when complete.\<close>

definition fresh_full :: "'s ngx \<Rightarrow> loc_conf \<Rightarrow> bytes \<Rightarrow> req_ctx" where
  "fresh_full E conf key = (new_ctx conf) \<lparr> rx_key := sha256 E key, rx_log_key := hex_of (sha256 E key),
     rx_zone := lc_zone conf, rx_state := PASSED \<rparr>"

lemma prepare_fresh_cases:
  obtains (none) "ea_prepare_fresh E p conf r = (None, r)"
  | (bare) "ea_prepare_fresh E p conf r = (None, r \<lparr> rq_pool := rq_pool r @ [new_ctx conf], rq_ctx := Some (length (rq_pool r)) \<rparr>)"
  | (partial) c x where "ea_prepare_fresh E p conf r = (c, r \<lparr> rq_pool := rq_pool r @ [x], rq_ctx := Some (length (rq_pool r)),
      rq_cleanup := CLN_NOOP ANCHOR_MAGIC (length (rq_pool r)) # rq_cleanup r \<rparr>)"
      "rx_zone x = None" "\<not> rx_own_rejection x" "\<not> rx_redis_pending x" "\<not> rx_response_seen x" "rx_blocked_until x = 0"
      "c = None \<or> c = Some (length (rq_pool r)) \<and> pr_value p = Some []"
  | (full) key where "ea_prepare_fresh E p conf r = (Some (length (rq_pool r)),
      r \<lparr> rq_pool := rq_pool r @ [fresh_full E conf key], rq_ctx := Some (length (rq_pool r)),
          rq_cleanup := CLN_NOOP ANCHOR_MAGIC (length (rq_pool r)) # rq_cleanup r \<rparr>)"
      "pr_value p = Some key" "key \<noteq> []"
proof (cases "pr_value p = None \<or> \<not> pr_ctx p")
  case True
  then have "ea_prepare_fresh E p conf r = (None, r)" by (auto simp: ea_prepare_fresh_def split: option.split)
  then show ?thesis using none by blast
next
  case False
  then obtain key where k: "pr_value p = Some key" "pr_ctx p" by auto
  consider (a) "\<not> pr_anchor p" | (b) "pr_anchor p" "key = []" | (c) "pr_anchor p" "key \<noteq> []" "\<not> pr_key p"
    | (d) "pr_anchor p" "key \<noteq> []" "pr_key p" "\<not> pr_log p" | (e) "pr_anchor p" "key \<noteq> []" "pr_key p" "pr_log p" by blast
  then show ?thesis
  proof cases
    case a
    then show ?thesis using bare k by (simp add: ea_prepare_fresh_def ea_register_anchor_def Let_def)
  next
    case b
    then show ?thesis using partial[of "Some (length (rq_pool r))" "new_ctx conf"] k
      by (simp add: ea_prepare_fresh_def ea_register_anchor_def Let_def new_ctx_def)
  next
    case c
    then show ?thesis using partial[of None "new_ctx conf"] k
      by (simp add: ea_prepare_fresh_def ea_register_anchor_def Let_def new_ctx_def)
  next
    case d
    then show ?thesis using partial[of None "(new_ctx conf) \<lparr> rx_key := sha256 E key \<rparr>"] k
      by (simp add: ea_prepare_fresh_def ea_register_anchor_def Let_def new_ctx_def put_ctx_def)
  next
    case e
    then show ?thesis using full[of key] k
      by (simp add: ea_prepare_fresh_def ea_register_anchor_def Let_def new_ctx_def put_ctx_def fresh_full_def)
  qed
qed

text \<open>What preparing gives.\<close>

definition prepared :: "'s site \<Rightarrow> request \<Rightarrow> nat option \<Rightarrow> request \<Rightarrow> bool" where
  "prepared S r c r' \<longleftrightarrow> rq_inv S r' \<and> evolves r r' \<and> same_rest r r'
     \<and> (\<forall>i. rq_ctx r = Some i \<longrightarrow> r' = r)
     \<and> (\<forall>i. c = Some i \<longrightarrow> rq_ctx r' = Some i)
     \<and> (\<forall>x. govern r = Some x \<longrightarrow> govern r' = Some x \<or> govern r' = Some (x \<lparr> rx_from_anchor := True \<rparr>))
     \<and> (\<forall>x. govern r = None \<and> govern r' = Some x \<longrightarrow> \<not> rx_redis_pending x \<and> \<not> rx_response_seen x \<and> \<not> rx_own_rejection x)"

lemma prepared_same: "rq_inv S r \<Longrightarrow> (\<And>i. c = Some i \<Longrightarrow> rq_ctx r = Some i) \<Longrightarrow> prepared S r c r"
  by (auto simp: prepared_def)

lemma prepared_anchor:
  assumes "rq_inv S r" "rq_ctx r = None" "anchor r = Some a"
  shows "prepared S r (Some a) ((put_ctx a ((rq_pool r ! a) \<lparr> rx_from_anchor := True \<rparr>) r) \<lparr> rq_ctx := Some a \<rparr>)"
proof -
  let ?c = "(rq_pool r ! a) \<lparr> rx_from_anchor := True \<rparr>"
  let ?r = "put_ctx a ?c r"
  have a: "a < length (rq_pool r)" using rq_invD(4)[OF assms(1,3)] .
  have "ctx_ok S ?c" using rq_invD(3)[OF assms(1) a] by (simp add: ctx_ok_def cache_ok_def split: option.splits)
  then have inv: "rq_inv S ?r" using put_ctx_inv assms(1,3) by blast
  then have "rq_inv S (?r \<lparr> rq_ctx := Some a \<rparr>)" using a assms(3) by (simp add: rq_inv_def)
  moreover have "evolves r (?r \<lparr> rq_ctx := Some a \<rparr>)" using a assms(3) by (simp add: evolves_def later_def)
  ultimately show ?thesis using assms a by (simp add: prepared_def govern_def same_rest_def)
qed

lemma prepared_fresh:
  assumes "rq_inv S r" "rq_ctx r = None" "anchor r = None" "conf_ok S conf" "digest_doc (st_ngx S)" "lc_zone conf \<noteq> None"
  shows "prepared S r (fst (ea_prepare_fresh (st_ngx S) p conf r)) (snd (ea_prepare_fresh (st_ngx S) p conf r))"
proof (cases rule: prepare_fresh_cases[of "st_ngx S" p conf r])
  case none
  then show ?thesis using prepared_same[OF assms(1), of None] by simp
next
  case bare
  have "ctx_ok S (new_ctx conf)" "rx_zone (new_ctx conf) = None" by (simp_all add: ctx_ok_def new_ctx_def)
  from rq_inv_append[OF assms(1-3) this] show ?thesis
    using bare assms(2,3) by (simp add: prepared_def evolves_def same_rest_def govern_def)
next
  case (partial c x)
  have "ctx_ok S x" using partial by (simp add: ctx_ok_def)
  from rq_inv_anchor[OF assms(1,3) this] partial assms(2,3) show ?thesis
    by (auto simp: prepared_def evolves_def same_rest_def govern_def new_ctx_def)
next
  case (full key)
  obtain zi where zi: "lc_zone conf = Some zi" using assms(6) by blast
  then have "zi < length (st_zones S)" using assms(4) by (simp add: conf_ok_def loc_ok_def)
  then have "ctx_ok S (fresh_full (st_ngx S) conf key)"
    using zi assms(5) by (simp add: ctx_ok_def fresh_full_def new_ctx_def cache_ok_def digest_doc_def scan_consts)
  from rq_inv_anchor[OF assms(1,3) this] full assms(2,3) show ?thesis
    by (simp add: prepared_def evolves_def same_rest_def govern_def fresh_full_def new_ctx_def)
qed

lemma prepare_ok:
  assumes "rq_inv S r" "conf_ok S conf" "digest_doc (st_ngx S)"
  obtains c r' where "ea_prepare_ctx (st_ngx S) p conf r = Some (c, r')" "prepared S r c r'"
proof (cases "rq_ctx r")
  case (Some i)
  then show ?thesis using that[of "Some i" r] prepared_same[OF assms(1)] by (simp add: ea_prepare_ctx_def)
next
  case ctx: None
  show ?thesis
  proof (cases "anchor r")
    case (Some a)
    then have "a < length (rq_pool r)" using rq_invD(4) assms(1) by blast
    then show ?thesis using that prepared_anchor[OF assms(1) ctx Some] ctx Some
      by (simp add: ea_prepare_ctx_def at_idx_def)
  next
    case None
    show ?thesis
    proof (cases "\<not> conf_on (lc_enabled conf) \<or> lc_zone conf = None")
      case True
      then show ?thesis using that[of None r] prepared_same[OF assms(1)] ctx None by (simp add: ea_prepare_ctx_def)
    next
      case False
      then have z: "lc_zone conf \<noteq> None" by simp
      from prepared_fresh[OF assms(1) ctx None assms(2,3) z, of p] False ctx None show ?thesis
        using that[of "fst (ea_prepare_fresh (st_ngx S) p conf r)" "snd (ea_prepare_fresh (st_ngx S) p conf r)"] z
        by (simp add: ea_prepare_ctx_def)
    qed
  qed
qed

lemma prepared_run:
  assumes "prepared S r (Some i) r'" "rx_zone (rq_pool r' ! i) = Some zi"
  shows "anchor r' = Some i" "i < length (rq_pool r')" "zi < length (st_zones S)" "length (rx_key (rq_pool r' ! i)) = DIGEST_LEN"
    "cache_ok (st_redis S) (st_zones S ! zi) (rq_pool r' ! i)" "govern r' = Some (rq_pool r' ! i)" "rq_ctx r' = Some i"
proof -
  have inv: "rq_inv S r'" and ctx: "rq_ctx r' = Some i" using assms(1) by (simp_all add: prepared_def)
  show i: "i < length (rq_pool r')" "rq_ctx r' = Some i" using rq_invD(1)[OF inv ctx] ctx by simp_all
  show a: "anchor r' = Some i" using rq_invD(5)[OF inv i(1)] assms(2) by (cases "anchor r' = Some i") auto
  then show "govern r' = Some (rq_pool r' ! i)" by (simp add: govern_def)
  show "zi < length (st_zones S)" "length (rx_key (rq_pool r' ! i)) = DIGEST_LEN"
    "cache_ok (st_redis S) (st_zones S ! zi) (rq_pool r' ! i)"
    using rq_invD(3)[OF inv i(1)] assms(2) by (simp_all add: ctx_ok_def)
qed

section \<open>The process\<close>

definition world_inv :: "'s site \<Rightarrow> time \<Rightarrow> 's world \<Rightarrow> bool" where
  "world_inv S t W \<longleftrightarrow> length (wd_stores W) = length (st_zones S)
     \<and> (\<forall>i < length (st_zones S). wf_sh (st_ngx S) (st_zones S ! i) (wd_stores W ! i))
     \<and> wk_inv (t, wd_worker W)"

text \<open>The documented behaviour of what is outside, and what the configuration guarantees.\<close>

definition site_ok :: "'s site \<Rightarrow> bool" where
  "site_ok S \<longleftrightarrow> store_doc (st_ngx S) \<and> digest_doc (st_ngx S) \<and> fmt_doc (st_fmt S) \<and> zones_ok (st_zones S)"

lemma site_zone:
  assumes "site_ok S" "i < length (st_zones S)"
  shows "wf_zone (st_zones S ! i)" "length (z_statuses (st_zones S ! i)) = STATUS_BYTES"
  using assms nth_mem[OF assms(2)] by (auto simp: site_ok_def zones_ok_def config_ok_def)

text \<open>One store changes, by operations of the zone's engine, and the worker may; the stores of the
  other zones do not.\<close>

definition world_step :: "'s site \<Rightarrow> time \<Rightarrow> nat \<Rightarrow> 's world \<Rightarrow> 's world \<Rightarrow> bool" where
  "world_step S now zi W W' \<longleftrightarrow> length (wd_stores W') = length (wd_stores W)
     \<and> (\<forall>j. j \<noteq> zi \<longrightarrow> wd_stores W' ! j = wd_stores W ! j)
     \<and> (zi < length (st_zones S) \<longrightarrow>
          (\<exists>tr. zone_run (st_ngx S) (st_zones S ! zi) (now, wd_stores W ! zi) tr (now, wd_stores W' ! zi)))
     \<and> (wd_worker W' = wd_worker W \<or> request_side now (wd_worker W) (wd_worker W'))"

lemma worker_later: "wk_inv (t, w) \<Longrightarrow> t \<le> now \<Longrightarrow> wk_inv (now, w)"
  using breaker_mono[of t w now] by (simp add: wk_inv_def)

lemma worker_request_side: "wk_inv (t, w) \<Longrightarrow> t \<le> now \<Longrightarrow> request_side now w w' \<Longrightarrow> wk_inv (now, w')"
  using kept_request[of w now w'] by (simp add: wk_inv_def kept_def)

lemma run_append: "run step s' tr' s'' \<Longrightarrow> run step s tr s' \<Longrightarrow> run step s (tr @ tr') s''"
proof (induction rule: run.induct)
  case (run_snoc s1 tr1 s2 l s3)
  then have "run step s (tr @ tr1) s2" by blast
  from run.run_snoc[OF this run_snoc(2)] show ?case by simp
qed simp

lemma site_zone_inv:
  "site_ok S \<Longrightarrow> world_inv S t W \<Longrightarrow> i < length (st_zones S) \<Longrightarrow>
   zone_inv (st_ngx S) (st_zones S ! i) (u, wd_stores W ! i)"
  using site_zone(1)[of S i] by (auto simp: zone_inv_def world_inv_def site_ok_def)

lemma world_step_inv:
  assumes "site_ok S" "world_inv S t W" "t \<le> now" "world_step S now zi W W'"
  shows "world_inv S now W'"
proof -
  have w: "wk_inv (t, wd_worker W)" using assms(2) by (simp add: world_inv_def)
  have wk: "wk_inv (now, wd_worker W')"
    using assms(4) worker_later[OF w assms(3)] worker_request_side[OF w assms(3)] by (auto simp: world_step_def)
  have "wf_sh (st_ngx S) (st_zones S ! i) (wd_stores W' ! i)" if i: "i < length (st_zones S)" for i
  proof (cases "i = zi")
    case True
    then obtain tr where "zone_run (st_ngx S) (st_zones S ! i) (now, wd_stores W ! i) tr (now, wd_stores W' ! i)"
      using assms(4) i by (auto simp: world_step_def)
    from zn.run_inv[OF this site_zone_inv[OF assms(1,2) i]] show ?thesis by (simp add: zone_inv_def)
  next
    case False
    then show ?thesis using assms(2,4) i by (simp add: world_inv_def world_step_def)
  qed
  then show ?thesis using assms(2,4) wk by (simp add: world_inv_def world_step_def)
qed

lemma world_step_refl: "world_step S now zi W W"
  by (auto simp: world_step_def intro: run_Nil)

lemma world_step_store:
  assumes "world_inv S t W" "zi < length (st_zones S)"
    and "zone_step (st_ngx S) (st_zones S ! zi) (now, wd_stores W ! zi) l (now, sh')"
  shows "world_step S now zi W (W \<lparr> wd_stores := (wd_stores W)[zi := sh'] \<rparr>)"
proof -
  have "zone_run (st_ngx S) (st_zones S ! zi) (now, wd_stores W ! zi) [] (now, wd_stores W ! zi)" by (rule run_Nil)
  from run_snoc[OF this assms(3)] show ?thesis using assms(1,2) by (auto simp: world_step_def world_inv_def)
qed

lemma log_sel [simp]:
  "wd_stores (ea_log_decision conf z c a b W) = wd_stores W" "wd_worker (ea_log_decision conf z c a b W) = wd_worker W"
  "wd_records (ea_log_decision conf z c a b W) = wd_records W"
  by (simp_all add: ea_log_decision_def)

lemma put_store_sel [simp]:
  "wd_stores (put_store i sh W) = (wd_stores W)[i := sh]" "wd_worker (put_store i sh W) = wd_worker W"
  "wd_log (put_store i sh W) = wd_log W" "wd_records (put_store i sh W) = wd_records W"
  by (simp_all add: put_store_def)

section \<open>The handlers are defined\<close>

text \<open>A decision about a client changes only what the variables show and the rejection flag.\<close>

definition decided :: "req_ctx \<Rightarrow> req_ctx \<Rightarrow> bool" where
  "decided c c' \<longleftrightarrow> (\<exists>n u s b. c' = c \<lparr> rx_count := n, rx_blocked_until := u, rx_state := s,
     rx_own_rejection := rx_own_rejection c \<or> b \<rparr>)"

lemma decidedI:
  "decided c (c \<lparr> rx_count := n, rx_blocked_until := u, rx_state := s, rx_own_rejection := True \<rparr>)"
  "decided c (c \<lparr> rx_count := n, rx_blocked_until := u, rx_state := s \<rparr>)"
  "decided c (c \<lparr> rx_count := n, rx_blocked_until := u \<rparr>)"
  "decided c (c \<lparr> rx_count := n, rx_state := s, rx_own_rejection := True \<rparr>)"
  "decided c (c \<lparr> rx_count := n, rx_state := s \<rparr>)"
proof -
  let ?u = "rx_blocked_until c" and ?s = "rx_state c"
  show "decided c (c \<lparr> rx_count := n, rx_blocked_until := u, rx_state := s, rx_own_rejection := True \<rparr>)"
    unfolding decided_def by (rule exI[of _ n], rule exI[of _ u], rule exI[of _ s], rule exI[of _ True]) simp
  show "decided c (c \<lparr> rx_count := n, rx_blocked_until := u, rx_state := s \<rparr>)"
    unfolding decided_def by (rule exI[of _ n], rule exI[of _ u], rule exI[of _ s], rule exI[of _ False]) simp
  show "decided c (c \<lparr> rx_count := n, rx_blocked_until := u \<rparr>)"
    unfolding decided_def by (rule exI[of _ n], rule exI[of _ u], rule exI[of _ ?s], rule exI[of _ False]) simp
  show "decided c (c \<lparr> rx_count := n, rx_state := s, rx_own_rejection := True \<rparr>)"
    unfolding decided_def by (rule exI[of _ n], rule exI[of _ ?u], rule exI[of _ s], rule exI[of _ True]) simp
  show "decided c (c \<lparr> rx_count := n, rx_state := s \<rparr>)"
    unfolding decided_def by (rule exI[of _ n], rule exI[of _ ?u], rule exI[of _ s], rule exI[of _ False]) simp
qed

lemma decided_keeps:
  assumes "decided c c'"
  shows "later c c'" "rx_redis_pending c' = rx_redis_pending c" "rx_zone c' = rx_zone c"
    "rx_response_seen c' = rx_response_seen c" "rx_zone c = Some zi \<Longrightarrow> ctx_ok S c \<Longrightarrow> until_ok (rx_blocked_until c') \<Longrightarrow> ctx_ok S c'"
    "rx_redis_checked c' = rx_redis_checked c"
proof -
  obtain n u s b where c': "c' = c \<lparr> rx_count := n, rx_blocked_until := u, rx_state := s,
     rx_own_rejection := rx_own_rejection c \<or> b \<rparr>" using assms by (auto simp: decided_def)
  show "later c c'" "rx_redis_pending c' = rx_redis_pending c" "rx_zone c' = rx_zone c"
    "rx_response_seen c' = rx_response_seen c" "rx_redis_checked c' = rx_redis_checked c"
    by (simp_all add: c' later_def)
  show "rx_zone c = Some zi \<Longrightarrow> ctx_ok S c \<Longrightarrow> until_ok (rx_blocked_until c') \<Longrightarrow> ctx_ok S c'"
    by (simp add: c' ctx_ok_def cache_ok_def)
qed

lemma banned_shape:
  fixes c :: req_ctx and W :: "'s world" and n :: nat and u :: time
  defines "c1 \<equiv> c \<lparr> rx_count := n, rx_blocked_until := u \<rparr>"
  shows "\<exists>W' ctx'. preaccess_banned conf z i c1 a b W r
       = ((if ea_effective_dry_run c conf then NGX_DECLINED else HTTP_STATUS (conf_reject_status conf)), W', put_ctx i ctx' r)
     \<and> wd_stores W' = wd_stores W \<and> wd_worker W' = wd_worker W \<and> decided c ctx'
     \<and> rx_own_rejection ctx' = (rx_own_rejection c \<or> \<not> ea_effective_dry_run c conf) \<and> rx_blocked_until ctx' = u"
proof -
  have e: "ea_effective_dry_run c1 conf = ea_effective_dry_run c conf" by (simp add: ea_effective_dry_run_def c1_def)
  show ?thesis
  proof (cases "ea_effective_dry_run c conf")
    case True
    let ?c = "c1 \<lparr> rx_state := DRY_RUN \<rparr>"
    have "preaccess_banned conf z i c1 a b W r = (NGX_DECLINED, ea_log_decision conf z ?c (ascii ''dry-run'') a W, put_ctx i ?c r)"
      using True e by (simp add: preaccess_banned_def Let_def)
    moreover have "decided c ?c" unfolding c1_def by (rule decidedI)
    moreover have "rx_own_rejection ?c = rx_own_rejection c" "rx_blocked_until ?c = u" by (simp_all add: c1_def)
    ultimately show ?thesis using True
      by (intro exI[of _ "ea_log_decision conf z ?c (ascii ''dry-run'') a W"] exI[of _ ?c]) simp
  next
    case False
    let ?c = "c1 \<lparr> rx_state := BLOCKED, rx_own_rejection := True \<rparr>"
    have "preaccess_banned conf z i c1 a b W r
        = (HTTP_STATUS (conf_reject_status conf), ea_log_decision conf z ?c (ascii ''blocked'') b W, put_ctx i ?c r)"
      using False e by (simp add: preaccess_banned_def Let_def)
    moreover have "decided c ?c" unfolding c1_def by (rule decidedI)
    moreover have "rx_own_rejection ?c" "rx_blocked_until ?c = u" by (simp_all add: c1_def)
    ultimately show ?thesis using False
      by (intro exI[of _ "ea_log_decision conf z ?c (ascii ''blocked'') b W"] exI[of _ ?c]) simp
  qed
qed

lemma zabs_ban: "wf_sh E z sh \<Longrightarrow> c \<in> set (zabs sh) \<Longrightarrow> until_ok (c_ban c)"
  by (auto simp: until_ok_def zabs_def absn_def wf_sh_def wf_node_def ran_def dom_def subset_iff)

lemma is_blocked_until:
  assumes "a_is_blocked z now k cs = (rc, out, zabs sh)" "wf_sh E z sh"
  shows "until_ok (snd out)"
proof (cases "a_find_touch z now k cs")
  case (Pair f rest)
  show ?thesis
  proof (cases f)
    case None
    then show ?thesis using assms(1) Pair by (auto simp: a_is_blocked_def)
  next
    case (Some c)
    show ?thesis
    proof (cases "now < c_ban c")
      case True
      then have "snd out = c_ban c" "zabs sh = c # rest" using assms(1) Pair Some
        by (auto simp: a_is_blocked_def client_is_blocked_def)
      then show ?thesis using zabs_ban[OF assms(2)] by simp
    next
      case False
      then have "snd out = 0" using assms(1) Pair Some by (auto simp: a_is_blocked_def client_is_blocked_def Let_def)
      then show ?thesis by simp
    qed
  qed
qed

text \<open>The verdict: of Redis, or of the zone's store.\<close>

lemma verdict_ok:
  assumes S: "site_ok S" and zi: "zi < length (st_zones S)" and W: "world_inv S t W" and now: "t \<le> now" "clock_ok now"
    and u: "until_ok (rx_blocked_until c)" and key: "length (rx_key c) = DIGEST_LEN"
  shows "\<exists>rc W' ctx'. preaccess_verdict S now conf zi (st_zones S ! zi) i c W r = Some (rc, W', put_ctx i ctx' r)
     \<and> world_step S now zi W W' \<and> wd_worker W' = wd_worker W \<and> decided c ctx' \<and> rc \<noteq> NGX_AGAIN
     \<and> (ea_effective_dry_run c conf \<longrightarrow> rc = NGX_DECLINED \<and> rx_own_rejection ctx' = rx_own_rejection c)
     \<and> (rc = NGX_DECLINED \<or> rc = HTTP_STATUS (conf_reject_status conf) \<and> rx_own_rejection ctx')
     \<and> until_ok (rx_blocked_until ctx')"
proof (cases "rx_redis_blocked c")
  case True
  define c1 where "c1 = c \<lparr> rx_count := z_threshold (st_zones S ! zi), rx_blocked_until := rx_blocked_until c \<rparr>"
  have e: "c \<lparr> rx_count := z_threshold (st_zones S ! zi) \<rparr> = c1" by (simp add: c1_def)
  obtain W' ctx' where "preaccess_banned conf (st_zones S ! zi) i c1 (ascii ''would block (Redis)'')
      (ascii ''rejected (Redis)'') W r
      = ((if ea_effective_dry_run c conf then NGX_DECLINED else HTTP_STATUS (conf_reject_status conf)), W', put_ctx i ctx' r)"
    and w: "wd_stores W' = wd_stores W" "wd_worker W' = wd_worker W" "decided c ctx'"
    "rx_own_rejection ctx' = (rx_own_rejection c \<or> \<not> ea_effective_dry_run c conf)" "rx_blocked_until ctx' = rx_blocked_until c"
    unfolding c1_def using banned_shape by fast
  then have "preaccess_verdict S now conf zi (st_zones S ! zi) i c W r = Some
      ((if ea_effective_dry_run c conf then NGX_DECLINED else HTTP_STATUS (conf_reject_status conf)), W', put_ctx i ctx' r)"
    using True by (simp add: preaccess_verdict_def e)
  then show ?thesis using world_step_refl[of S now zi W] w u by (auto simp: world_step_def)
next
  case False
  have doc: "store_doc (st_ngx S)" using S by (simp add: site_ok_def)
  define sh where "sh = wd_stores W ! zi"
  have sh: "at_idx (wd_stores W) zi = Some sh" "wf_sh (st_ngx S) (st_zones S ! zi) sh"
    using W zi by (simp_all add: world_inv_def at_idx_def sh_def)
  obtain rc out sh' where b: "ea_is_blocked (st_ngx S) (st_zones S ! zi) sh (rx_key c) now = Some (rc, out, sh')"
    "wf_sh (st_ngx S) (st_zones S ! zi) sh'"
    "(rc, out, zabs sh') = a_is_blocked (st_zones S ! zi) now (rx_key c) (zabs sh)"
    using is_blocked_refines[OF doc site_zone(1)[OF S zi] sh(2) now(2)] by blast
  have uo: "until_ok (snd out)" using is_blocked_until[OF b(3)[symmetric] b(2)] .
  have ws: "world_step S now zi W (put_store zi sh' W)"
    using world_step_store[OF W zi step_is_blocked[OF order_refl now(2) key b(1)[unfolded sh_def]]] by (simp add: put_store_def)
  show ?thesis
  proof (cases "rc = NGX_OK")
    case True
    define c1 where "c1 = c \<lparr> rx_count := fst out, rx_blocked_until := snd out \<rparr>"
    obtain W' ctx' where "preaccess_banned conf (st_zones S ! zi) i c1 (ascii ''would block (local)'')
        (ascii ''rejected (local)'') (put_store zi sh' W) r
        = ((if ea_effective_dry_run c conf then NGX_DECLINED else HTTP_STATUS (conf_reject_status conf)), W', put_ctx i ctx' r)"
      and w: "wd_stores W' = wd_stores (put_store zi sh' W)" "wd_worker W' = wd_worker (put_store zi sh' W)" "decided c ctx'"
      "rx_own_rejection ctx' = (rx_own_rejection c \<or> \<not> ea_effective_dry_run c conf)" "rx_blocked_until ctx' = snd out"
      unfolding c1_def using banned_shape by fast
    then have "preaccess_verdict S now conf zi (st_zones S ! zi) i c W r = Some
        ((if ea_effective_dry_run c conf then NGX_DECLINED else HTTP_STATUS (conf_reject_status conf)), W', put_ctx i ctx' r)"
      using True False sh(1) b(1) by (simp add: preaccess_verdict_def c1_def)
    then show ?thesis using ws w uo by (auto simp: world_step_def)
  next
    case F: False
    have "preaccess_verdict S now conf zi (st_zones S ! zi) i c W r
        = Some (NGX_DECLINED, put_store zi sh' W, put_ctx i (c \<lparr> rx_count := fst out, rx_blocked_until := snd out \<rparr>) r)"
      using F False sh(1) b(1) by (simp add: preaccess_verdict_def)
    then show ?thesis using ws uo decidedI(3)[where c = c and n = "fst out" and u = "snd out"]
      by (intro exI[of _ NGX_DECLINED] exI[of _ "put_store zi sh' W"]
            exI[of _ "c \<lparr> rx_count := fst out, rx_blocked_until := snd out \<rparr>"]) simp
  qed
qed

text \<open>The Redis check: already waiting, declined, or asked now.\<close>

definition redis_touched :: "req_ctx \<Rightarrow> req_ctx \<Rightarrow> bool" where
  "redis_touched c c' \<longleftrightarrow> (\<exists>ev bl p k. c' = c \<lparr> rx_redis_events := ev, rx_redis_block := bl, rx_redis_pending := p,
     rx_redis_checked := k \<rparr>)"

lemma redis_touched_keeps:
  assumes "redis_touched c c'"
  shows "rx_zone c' = rx_zone c" "rx_key c' = rx_key c" "rx_log_key c' = rx_log_key c"
    "rx_own_rejection c' = rx_own_rejection c" "rx_response_seen c' = rx_response_seen c"
    "rx_from_anchor c' = rx_from_anchor c" "rx_dry_run c' = rx_dry_run c" "rx_redis_blocked c' = rx_redis_blocked c"
    "ea_effective_dry_run c' conf = ea_effective_dry_run c conf" "rx_state c' = rx_state c"
    "rx_blocked_until c' = rx_blocked_until c"
  using assms by (auto simp: redis_touched_def ea_effective_dry_run_def)

definition check_result :: "redis_conf \<Rightarrow> zone \<Rightarrow> req_ctx \<Rightarrow> ngx_rc \<Rightarrow> req_ctx \<Rightarrow> bool \<Rightarrow> bool" where
  "check_result rcf z c rc c' parked \<longleftrightarrow> redis_touched c c' \<and> cache_ok rcf z c'
     \<and> (if rc = NGX_AGAIN then rx_redis_pending c' \<and> parked = (\<not> rx_redis_pending c) \<and> rx_redis_checked c' = rx_redis_checked c
        else rc = NGX_DECLINED \<and> \<not> parked \<and> \<not> rx_redis_pending c \<and> \<not> rx_redis_pending c' \<and> rx_redis_checked c')"

lemma redis_touchedI:
  "redis_touched c c"
  "redis_touched c (c \<lparr> rx_redis_checked := k \<rparr>)"
  "redis_touched c (c \<lparr> rx_redis_events := ev, rx_redis_block := bl, rx_redis_pending := p \<rparr>)"
  "redis_touched c (c \<lparr> rx_redis_events := ev, rx_redis_block := bl, rx_redis_pending := p, rx_redis_checked := k \<rparr>)"
proof -
  have r: "c = c \<lparr> rx_redis_events := rx_redis_events c, rx_redis_block := rx_redis_block c,
      rx_redis_pending := rx_redis_pending c, rx_redis_checked := rx_redis_checked c \<rparr>" by simp
  show "redis_touched c c" unfolding redis_touched_def using r by blast
  have "c \<lparr> rx_redis_checked := k \<rparr> = c \<lparr> rx_redis_events := rx_redis_events c, rx_redis_block := rx_redis_block c,
      rx_redis_pending := rx_redis_pending c, rx_redis_checked := k \<rparr>" by simp
  then show "redis_touched c (c \<lparr> rx_redis_checked := k \<rparr>)" unfolding redis_touched_def by blast
  have "c \<lparr> rx_redis_events := ev, rx_redis_block := bl, rx_redis_pending := p \<rparr>
      = c \<lparr> rx_redis_events := ev, rx_redis_block := bl, rx_redis_pending := p, rx_redis_checked := rx_redis_checked c \<rparr>" by simp
  then show "redis_touched c (c \<lparr> rx_redis_events := ev, rx_redis_block := bl, rx_redis_pending := p \<rparr>)"
    unfolding redis_touched_def by blast
  show "redis_touched c (c \<lparr> rx_redis_events := ev, rx_redis_block := bl, rx_redis_pending := p, rx_redis_checked := k \<rparr>)"
    unfolding redis_touched_def by blast
qed

lemma check_ok:
  assumes "alloc_doc alloc" "cache_ok rcf z c" "clock_ok now"
  obtains rc w' c' parked where "ea_redis_check rcf z now alloc queue_ok w c = Some (rc, w', c', parked)"
    "check_result rcf z c rc c' parked" "rx_redis_pending c \<Longrightarrow> w' = w"
proof -
  have f: "\<exists>w'. ea_redis_record_failure v now = Some w'" for v
    using record_failure_total[of now v] clock_okD[OF assms(3)] by simp
  consider (pend) "rx_redis_pending c" | (unav) "\<not> rx_redis_pending c" "\<not> ea_redis_available w now"
    | (go) "\<not> rx_redis_pending c" "ea_redis_available w now" by blast
  then show ?thesis
  proof cases
    case pend
    then show ?thesis using that[of NGX_AGAIN w c False] assms(2) redis_touchedI(1)
      by (simp add: ea_redis_check_def check_result_def)
  next
    case unav
    then show ?thesis using that[of NGX_DECLINED w "c \<lparr> rx_redis_checked := True \<rparr>" False] assms(2) redis_touchedI(2)
      by (simp add: ea_redis_check_def check_result_def cache_ok_def)
  next
    case go
    obtain rc1 c1 ev bl where k: "ea_redis_keys rcf z alloc c = Some (rc1, c1, ev, bl)"
      and r: "rc1 = NGX_OK \<and> c1 = c \<lparr> rx_redis_events := ev, rx_redis_block := bl \<rparr> \<and> cache_ok rcf z c1 \<or> rc1 = NGX_ERROR \<and> c1 = c"
      using redis_keys_exact[OF assms(1,2)] by blast
    show ?thesis
    proof (cases "rc1 = NGX_OK")
      case False
      then show ?thesis using that[of NGX_DECLINED w "c \<lparr> rx_redis_checked := True \<rparr>" False] assms(2) redis_touchedI(2) go k r
        by (simp add: ea_redis_check_def check_result_def cache_ok_def)
    next
      case True
      then have c1: "c1 = c \<lparr> rx_redis_events := ev, rx_redis_block := bl \<rparr>" "cache_ok rcf z c1" using r by auto
      show ?thesis
      proof (cases queue_ok)
        case q: True
        then show ?thesis
          using that[of NGX_AGAIN "call_redis (H_COMMAND [ascii ''GET'', bl]) w" "c1 \<lparr> rx_redis_pending := True \<rparr>" True]
            True go k c1 redis_touchedI(3)[where c = c and ev = ev and bl = bl and p = True]
          by (simp add: ea_redis_check_def check_result_def cache_ok_def)
      next
        case q: False
        obtain w' where w': "ea_redis_record_failure (call_redis (H_COMMAND [ascii ''GET'', bl]) w) now = Some w'"
          using f by blast
        then show ?thesis
          using that[of NGX_DECLINED w' "c1 \<lparr> rx_redis_pending := False, rx_redis_checked := True \<rparr>" False]
            True go k c1 q redis_touchedI(4)[where c = c and ev = ev and bl = bl and p = False and k = True]
          by (simp add: ea_redis_check_def check_result_def cache_ok_def)
      qed
    qed
  qed
qed

lemma put_ctx_twice [simp]: "put_ctx i c (put_ctx i c' r) = put_ctx i c r"
  by (simp add: put_ctx_def)

lemma put_ctx_parked: "put_ctx i c (r \<lparr> rq_parked := n \<rparr>) = (put_ctx i c r) \<lparr> rq_parked := n \<rparr>"
  by (simp add: put_ctx_def)

lemma parked_same: "r \<lparr> rq_parked := rq_parked r \<rparr> = r"
  by simp

text \<open>What the part of the preaccess handler that knows the client gives: a new context for it, and a
  reference exactly if Redis was asked.\<close>

definition client_result :: "'s site \<Rightarrow> time \<Rightarrow> loc_conf \<Rightarrow> nat \<Rightarrow> req_ctx \<Rightarrow> 's world \<Rightarrow> ngx_rc \<Rightarrow> 's world \<Rightarrow> req_ctx \<Rightarrow> nat \<Rightarrow> bool" where
  "client_result S now conf zi c W rc W' c' k \<longleftrightarrow> world_step S now zi W W' \<and> later c c' \<and> ctx_ok S c'
     \<and> rx_zone c' = Some zi \<and> rx_response_seen c' = rx_response_seen c
     \<and> (k = 0 \<and> rx_redis_pending c' = rx_redis_pending c
        \<or> k = 1 \<and> rc = NGX_AGAIN \<and> \<not> rx_redis_pending c \<and> \<not> rx_redis_checked c \<and> rx_redis_pending c')
     \<and> (rc = NGX_AGAIN \<longrightarrow> rx_redis_pending c' \<and> rx_own_rejection c' = rx_own_rejection c)
     \<and> (rc = NGX_AGAIN \<or> rc = NGX_DECLINED \<or> rc = HTTP_STATUS (conf_reject_status conf) \<and> rx_own_rejection c')
     \<and> (ea_effective_dry_run c conf \<longrightarrow> rx_own_rejection c' = rx_own_rejection c \<and> (rc = NGX_AGAIN \<or> rc = NGX_DECLINED))"

lemma redis_touched_later:
  "redis_touched c c' \<Longrightarrow> rx_redis_pending c' \<or> rx_redis_checked c' \<Longrightarrow> later c c'"
  by (auto simp: later_def redis_touched_keeps)

lemma world_step_worker:
  "wd_worker W = w \<or> request_side now (wd_worker W) w \<Longrightarrow> world_step S now zi W (W \<lparr> wd_worker := w \<rparr>)"
  by (auto simp: world_step_def intro: run_Nil)

lemma world_step_then:
  assumes "world_step S now zi W W'" "world_step S now zi W' W''" "wd_worker W'' = wd_worker W' \<or> wd_worker W' = wd_worker W"
  shows "world_step S now zi W W''"
proof -
  have "\<exists>tr. zone_run (st_ngx S) (st_zones S ! zi) (now, wd_stores W ! zi) tr (now, wd_stores W'' ! zi)"
    if zi: "zi < length (st_zones S)"
  proof -
    obtain tr tr' where "zone_run (st_ngx S) (st_zones S ! zi) (now, wd_stores W ! zi) tr (now, wd_stores W' ! zi)"
      "zone_run (st_ngx S) (st_zones S ! zi) (now, wd_stores W' ! zi) tr' (now, wd_stores W'' ! zi)"
      using assms(1,2) zi by (auto simp: world_step_def)
    from run_append[OF this(2,1)] show ?thesis by blast
  qed
  then show ?thesis using assms by (auto simp: world_step_def)
qed

lemma client_step:
  assumes S: "site_ok S" and zi: "zi < length (st_zones S)" and W: "world_inv S t W" and now: "t \<le> now" "clock_ok now"
    and alloc: "alloc_doc alloc" and c: "ctx_ok S c" "rx_zone c = Some zi"
  obtains rc W' c' k where "preaccess_client S alloc queue_ok now conf zi (st_zones S ! zi) i c W r
      = Some (rc, W', (put_ctx i c' r) \<lparr> rq_parked := rq_parked r + k \<rparr>)"
    "client_result S now conf zi c W rc W' c' k"
proof (cases "z_redis (st_zones S ! zi) \<and> \<not> rx_redis_checked c")
  case False
  then have p: "\<not> rx_redis_pending c" using c by (auto simp: ctx_ok_def)
  have u: "until_ok (rx_blocked_until c)" and key: "length (rx_key c) = DIGEST_LEN" using c by (simp_all add: ctx_ok_def)
  obtain rc W' c' where v: "preaccess_verdict S now conf zi (st_zones S ! zi) i c W r = Some (rc, W', put_ctx i c' r)"
    "world_step S now zi W W'" "decided c c'" "rc \<noteq> NGX_AGAIN"
    "ea_effective_dry_run c conf \<longrightarrow> rc = NGX_DECLINED \<and> rx_own_rejection c' = rx_own_rejection c"
    "rc = NGX_DECLINED \<or> rc = HTTP_STATUS (conf_reject_status conf) \<and> rx_own_rejection c'"
    "until_ok (rx_blocked_until c')"
    using verdict_ok[OF S zi W now u key, of conf i r] by blast
  have "client_result S now conf zi c W rc W' c' 0"
    using v decided_keeps[OF v(3)] c p by (auto simp: client_result_def)
  then show ?thesis using that[of rc W' 0 c'] v(1) False parked_same[of "put_ctx i c' r"]
    by (simp add: preaccess_client_def)
next
  case True
  have cache: "cache_ok (st_redis S) (st_zones S ! zi) c" using c by (simp add: ctx_ok_def)
  obtain rc w' c1 parked where k: "ea_redis_check (st_redis S) (st_zones S ! zi) now alloc queue_ok (wd_worker W) c
      = Some (rc, w', c1, parked)" "check_result (st_redis S) (st_zones S ! zi) c rc c1 parked"
    "rx_redis_pending c \<Longrightarrow> w' = wd_worker W"
    using check_ok[OF alloc cache now(2)] by metis
  have b: "breaker_inv t (wd_worker W)" using W by (simp add: world_inv_def wk_inv_def)
  have rs: "request_side now (wd_worker W) w'" by (rule check_step[OF b now k(1)])
  let ?W = "W \<lparr> wd_worker := w' \<rparr>"
  have ws: "world_step S now zi W ?W" using world_step_worker rs by blast
  have t: "redis_touched c c1" using k(2) by (simp add: check_result_def)
  note keeps = redis_touched_keeps[OF t]
  have c1: "ctx_ok S c1" using c k(2) keeps(1,2,11) True by (auto simp: ctx_ok_def check_result_def split: if_splits)
  show ?thesis
  proof (cases "rc = NGX_AGAIN")
    case again: True
    have e: "preaccess_client S alloc queue_ok now conf zi (st_zones S ! zi) i c W r
        = Some (NGX_AGAIN, ?W, (put_ctx i c1 r) \<lparr> rq_parked := rq_parked r + (if parked then 1 else 0) \<rparr>)"
      using True k(1) again parked_same[of "put_ctx i c1 r"] by (cases parked) (simp_all add: preaccess_client_def put_ctx_parked)
    have "client_result S now conf zi c W NGX_AGAIN ?W c1 (if parked then 1 else 0)"
      using ws c1 k(2) again keeps c redis_touched_later[OF t] True by (auto simp: client_result_def check_result_def)
    then show ?thesis using that e by blast
  next
    case False
    then have d: "\<not> parked" "\<not> rx_redis_pending c1" "rx_redis_checked c1" "\<not> rx_redis_pending c" using k(2) by (simp_all add: check_result_def)
    have u1: "until_ok (rx_blocked_until c1)" and key1: "length (rx_key c1) = DIGEST_LEN"
      using c1 c keeps(1) by (simp_all add: ctx_ok_def)
    have W': "world_inv S now ?W" using world_step_inv[OF S W now(1) ws] .
    obtain rc2 W2 c2 where v: "preaccess_verdict S now conf zi (st_zones S ! zi) i c1 ?W (put_ctx i c1 r)
        = Some (rc2, W2, put_ctx i c2 (put_ctx i c1 r))"
      "world_step S now zi ?W W2" "wd_worker W2 = wd_worker ?W" "decided c1 c2" "rc2 \<noteq> NGX_AGAIN"
      "ea_effective_dry_run c1 conf \<longrightarrow> rc2 = NGX_DECLINED \<and> rx_own_rejection c2 = rx_own_rejection c1"
      "rc2 = NGX_DECLINED \<or> rc2 = HTTP_STATUS (conf_reject_status conf) \<and> rx_own_rejection c2"
      "until_ok (rx_blocked_until c2)"
      using verdict_ok[OF S zi W' order_refl now(2) u1 key1, of conf i "put_ctx i c1 r"] by blast
    have "world_step S now zi W W2" using world_step_then[OF ws v(2)] v(3) by blast
    moreover have "later c c2" using later_trans[OF redis_touched_later[OF t] decided_keeps(1)[OF v(4)]] d by blast
    ultimately have "client_result S now conf zi c W rc2 W2 c2 0"
      using v decided_keeps[OF v(4)] c1 c d keeps by (auto simp: client_result_def)
    then show ?thesis using that[of rc2 W2 0 c2] v(1) True k(1) False d(1) parked_same[of "put_ctx i c2 r"]
      by (simp add: preaccess_client_def)
  qed
qed

section \<open>The preaccess handler\<close>

text \<open>A reference is held exactly while an answer of Redis is awaited, and then the context is in place.\<close>

definition parked_inv :: "request \<Rightarrow> bool" where
  "parked_inv r \<longleftrightarrow> (case govern r of
      None \<Rightarrow> rq_parked r = 0
    | Some c \<Rightarrow> rq_parked r = (if rx_redis_pending c then 1 else 0) \<and> (rx_redis_pending c \<longrightarrow> rq_ctx r \<noteq> None))"

definition same_world :: "'s world \<Rightarrow> 's world \<Rightarrow> bool" where
  "same_world W W' \<longleftrightarrow> wd_stores W' = wd_stores W \<and> wd_worker W' = wd_worker W"

lemma same_world_refl [simp]: "same_world W W" "same_world W (ea_log_decision conf z c a b W)"
  by (simp_all add: same_world_def)

text \<open>What a handler does to the request and the process: it touches at most the store of the zone of
  the request's own context.\<close>

definition serves :: "'s site \<Rightarrow> time \<Rightarrow> request \<Rightarrow> 's world \<Rightarrow> request \<Rightarrow> 's world \<Rightarrow> bool" where
  "serves S now r W r' W' \<longleftrightarrow> rq_inv S r' \<and> evolves r r' \<and> parked_inv r'
     \<and> (same_world W W' \<or> (\<exists>zi c. govern r' = Some c \<and> rx_zone c = Some zi \<and> world_step S now zi W W'))"

lemma world_later: "world_inv S t W \<Longrightarrow> t \<le> now \<Longrightarrow> world_inv S now W"
  using worker_later by (auto simp: world_inv_def)

lemma serves_world: "site_ok S \<Longrightarrow> world_inv S t W \<Longrightarrow> t \<le> now \<Longrightarrow> serves S now r W r' W' \<Longrightarrow> world_inv S now W'"
proof -
  assume S: "site_ok S" and a: "world_inv S t W" "t \<le> now" "serves S now r W r' W'"
  then consider "same_world W W'" | zi where "world_step S now zi W W'" by (auto simp: serves_def)
  then show ?thesis
  proof cases
    case 1
    then show ?thesis using world_later[OF a(1,2)] by (simp add: same_world_def world_inv_def)
  next
    case 2
    then show ?thesis using world_step_inv[OF S a(1,2)] by blast
  qed
qed

lemma prepared_parked:
  assumes "prepared S r c r'" "parked_inv r"
  shows "parked_inv r'"
proof (cases "rq_ctx r")
  case (Some i)
  then show ?thesis using assms by (simp add: prepared_def)
next
  case None
  have p: "rq_parked r' = rq_parked r" using assms(1) by (simp add: prepared_def same_rest_def)
  show ?thesis
  proof (cases "govern r")
    case N: None
    then show ?thesis using assms p by (auto simp: prepared_def parked_inv_def split: option.splits)
  next
    case (Some x)
    then have "\<not> rx_redis_pending x" "rq_parked r = 0" using assms(2) None by (auto simp: parked_inv_def split: if_splits)
    moreover have "govern r' = Some x \<or> govern r' = Some (x \<lparr> rx_from_anchor := True \<rparr>)" using assms(1) Some by (simp add: prepared_def)
    ultimately show ?thesis using p by (auto simp: parked_inv_def)
  qed
qed

lemma prepared_serves: "prepared S r c r' \<Longrightarrow> parked_inv r \<Longrightarrow> serves S now r W r' W"
  using prepared_parked by (auto simp: serves_def prepared_def)

lemma govern_parked [simp]: "govern (r \<lparr> rq_parked := n \<rparr>) = govern r"
  by (simp add: govern_def split: option.split)

lemma put_serves:
  assumes "prepared S r (Some i) r1" "rx_zone (rq_pool r1 ! i) = Some zi" "ctx_ok S c'" "later (rq_pool r1 ! i) c'"
    and "same_world W W' \<or> world_step S now zi W W'"
    and "rq_parked r1 + k = (if rx_redis_pending c' then 1 else 0)"
  shows "serves S now r W ((put_ctx i c' r1) \<lparr> rq_parked := rq_parked r1 + k \<rparr>) W'"
proof -
  note run = prepared_run[OF assms(1,2)]
  let ?r = "(put_ctx i c' r1) \<lparr> rq_parked := rq_parked r1 + k \<rparr>"
  have inv: "rq_inv S r1" "evolves r r1" using assms(1) by (simp_all add: prepared_def)
  have "rq_inv S ?r" using put_ctx_inv[OF inv(1) run(1) assms(3)] by (simp add: rq_inv_def)
  moreover have "evolves r ?r" using evolves_trans[OF inv(2) put_ctx_evolves[OF inv(1) run(1) assms(4)]]
    by (simp add: evolves_def split: option.splits)
  moreover have g: "govern ?r = Some c'" using govern_put_ctx[OF inv(1) run(1), of c'] by simp
  moreover have "parked_inv ?r" using g assms(6) run(7) by (simp add: parked_inv_def)
  moreover have "rx_zone c' = Some zi" using assms(2,4) by (simp add: later_def)
  ultimately show ?thesis using assms(5) by (auto simp: serves_def)
qed

text \<open>The handler's answers.\<close>

definition answers :: "loc_conf \<Rightarrow> request \<Rightarrow> 's world \<Rightarrow> ngx_rc \<Rightarrow> request \<Rightarrow> 's world \<Rightarrow> bool" where
  "answers conf r W rc r' W' \<longleftrightarrow>
     (rc = NGX_AGAIN \<or> rc = NGX_DECLINED \<or> rc = HTTP_STATUS 500 \<and> same_world W W'
       \<or> rc = HTTP_STATUS (conf_reject_status conf) \<and> (\<exists>c. govern r' = Some c \<and> rx_own_rejection c))
   \<and> (rq_parked r' = rq_parked r
       \<or> rq_parked r' = rq_parked r + 1 \<and> rc = NGX_AGAIN
         \<and> (\<forall>c. govern r = Some c \<longrightarrow> \<not> rx_redis_pending c \<and> \<not> rx_redis_checked c)
         \<and> (\<exists>c. govern r' = Some c \<and> rx_redis_pending c))"

lemma preaccess_main:
  assumes "rq_main r" "ea_prepare_ctx (st_ngx S) p conf r = Some (c, r1)" "prepared S r c r1"
  shows "ea_preaccess S p alloc queue_ok now conf W r = (case c of
      None \<Rightarrow> Some (if conf_on (lc_enabled conf) \<and> lc_zone conf \<noteq> None then HTTP_STATUS 500 else NGX_DECLINED, W, r1)
    | Some i \<Rightarrow> (case rx_zone (rq_pool r1 ! i) of
        None \<Rightarrow> Some (NGX_DECLINED, W, r1)
      | Some zi \<Rightarrow> preaccess_client S alloc queue_ok now conf zi (st_zones S ! zi) i (rq_pool r1 ! i) W r1))"
proof (cases c)
  case None
  then show ?thesis using assms by (simp add: ea_preaccess_def)
next
  case (Some i)
  have i: "i < length (rq_pool r1)" using assms(3) Some rq_invD(1) by (auto simp: prepared_def)
  show ?thesis
  proof (cases "rx_zone (rq_pool r1 ! i)")
    case None
    then show ?thesis using assms(1,2) Some i by (simp add: ea_preaccess_def at_idx_def)
  next
    case (Some zi)
    then have "zi < length (st_zones S)" using prepared_run(3)[of S r i r1 zi] assms(3) \<open>c = Some i\<close> by simp
    then show ?thesis using assms(1,2) Some \<open>c = Some i\<close> i by (simp add: ea_preaccess_def at_idx_def)
  qed
qed

lemma preaccess_ok:
  assumes S: "site_ok S" and r: "rq_inv S r" "parked_inv r" and conf: "conf_ok S conf"
    and W: "world_inv S t W" and now: "t \<le> now" "clock_ok now" and alloc: "alloc_doc alloc"
  obtains rc W' r' where "ea_preaccess S p alloc queue_ok now conf W r = Some (rc, W', r')"
    "serves S now r W r' W'" "answers conf r W rc r' W'"
proof (cases "rq_main r")
  case False
  then show ?thesis using that[of NGX_DECLINED W r] r by (simp add: ea_preaccess_def serves_def answers_def)
next
  case True
  have doc: "digest_doc (st_ngx S)" using S by (simp add: site_ok_def)
  obtain c r1 where c: "ea_prepare_ctx (st_ngx S) p conf r = Some (c, r1)" "prepared S r c r1"
    using prepare_ok[OF r(1) conf doc] by blast
  note main = preaccess_main[OF True c, of alloc queue_ok now W]
  have p1: "rq_parked r1 = rq_parked r" using c(2) by (simp add: prepared_def same_rest_def)
  show ?thesis
  proof (cases "\<exists>i zi. c = Some i \<and> rx_zone (rq_pool r1 ! i) = Some zi")
    case False
    then have "\<exists>rc. ea_preaccess S p alloc queue_ok now conf W r = Some (rc, W, r1) \<and> (rc = NGX_DECLINED \<or> rc = HTTP_STATUS 500)"
      using main by (auto split: option.splits)
    then show ?thesis using that prepared_serves[OF c(2) r(2)] p1 by (fastforce simp: answers_def)
  next
    case True
    then obtain i zi where i: "c = Some i" "rx_zone (rq_pool r1 ! i) = Some zi" by blast
    note run = prepared_run[OF c(2)[unfolded i(1)] i(2)]
    have inv: "rq_inv S r1" using c(2) by (simp add: prepared_def)
    have ok: "ctx_ok S (rq_pool r1 ! i)" using rq_invD(3)[OF inv run(2)] .
    obtain rc W' c' k where s: "preaccess_client S alloc queue_ok now conf zi (st_zones S ! zi) i (rq_pool r1 ! i) W r1
        = Some (rc, W', (put_ctx i c' r1) \<lparr> rq_parked := rq_parked r1 + k \<rparr>)"
      "client_result S now conf zi (rq_pool r1 ! i) W rc W' c' k"
      by (rule client_step[OF S run(3) W now alloc ok i(2)]) (rule that)
    let ?r = "(put_ctx i c' r1) \<lparr> rq_parked := rq_parked r1 + k \<rparr>"
    have "parked_inv r1" using prepared_parked[OF c(2) r(2)] .
    then have pk: "rq_parked r1 + k = (if rx_redis_pending c' then 1 else 0)"
      using s(2) run(6) by (auto simp: client_result_def parked_inv_def)
    have g: "govern ?r = Some c'" using govern_put_ctx[OF inv run(1), of c'] by simp
    have serves: "serves S now r W ?r W'"
      using s(2) by (intro put_serves[OF c(2)[unfolded i(1)] i(2) _ _ _ pk]) (auto simp: client_result_def)
    have before: "\<not> rx_redis_pending x \<and> \<not> rx_redis_checked x"
      if "govern r = Some x" "\<not> rx_redis_pending (rq_pool r1 ! i)" "\<not> rx_redis_checked (rq_pool r1 ! i)" for x
      using evolves_govern[of r r1 x] that c(2) run(6) by (auto simp: prepared_def later_def)
    have "answers conf r W rc ?r W'"
      using s(2) g before p1 by (auto simp: answers_def client_result_def)
    then show ?thesis using that serves main i s(1) by simp
  qed
qed

section \<open>The header filter\<close>

text \<open>A response is counted if the context is seen for the first time, the module did not reject the
  request itself, the zone watches the status, and it is not a dry run.\<close>

definition counts :: "'s site \<Rightarrow> loc_conf \<Rightarrow> request \<Rightarrow> req_ctx \<Rightarrow> bool" where
  "counts S conf r c \<longleftrightarrow> rq_main r \<and> \<not> rx_response_seen c \<and> \<not> rx_own_rejection c \<and> rx_state c \<noteq> DRY_RUN
     \<and> \<not> ea_effective_dry_run c conf
     \<and> (\<exists>zi. rx_zone c = Some zi \<and> ea_status_matches (z_statuses (st_zones S ! zi)) (rq_status r) = Some True)"

lemma mark_seen_keeps [simp]:
  "rx_zone (mark_seen conf c) = rx_zone c" "rx_key (mark_seen conf c) = rx_key c" "rx_log_key (mark_seen conf c) = rx_log_key c"
  "rx_own_rejection (mark_seen conf c) = rx_own_rejection c" "rx_state (mark_seen conf c) = rx_state c"
  "rx_response_seen (mark_seen conf c)" "rx_from_anchor (mark_seen conf c) = rx_from_anchor c"
  "rx_redis_pending (mark_seen conf c) = rx_redis_pending c" "rx_redis_checked (mark_seen conf c) = rx_redis_checked c"
  "rx_redis_blocked (mark_seen conf c) = rx_redis_blocked c" "rx_redis_events (mark_seen conf c) = rx_redis_events c"
  "rx_redis_block (mark_seen conf c) = rx_redis_block c"
  "rx_blocked_until (mark_seen conf c) = rx_blocked_until c" "rx_count (mark_seen conf c) = rx_count c"
  "rx_dry_run (mark_seen conf c) = ea_effective_dry_run c conf"
  by (simp_all add: mark_seen_def ea_effective_dry_run_def Let_def)

lemma mark_seen_later: "later c (mark_seen conf c)"
  by (simp add: later_def ea_effective_dry_run_def)

lemma mark_seen_ok: "ctx_ok S c \<Longrightarrow> ctx_ok S (mark_seen conf c)"
  by (cases "rx_zone c") (simp_all add: ctx_ok_def cache_ok_def)

text \<open>The headers change, the rest of the request does not.\<close>

definition headers_only :: "request \<Rightarrow> request \<Rightarrow> bool" where
  "headers_only r r' \<longleftrightarrow> rq_main r' = rq_main r \<and> rq_ctx r' = rq_ctx r \<and> rq_pool r' = rq_pool r
     \<and> rq_cleanup r' = rq_cleanup r \<and> rq_status r' = rq_status r \<and> rq_parked r' = rq_parked r
     \<and> (\<forall>i. rq_last_modified r' = Some i \<longrightarrow> i < length (rq_headers r'))"

lemma headers_only_keeps:
  assumes "headers_only r r'"
  shows "rq_inv S r \<Longrightarrow> rq_inv S r'" "govern r' = govern r" "parked_inv r' = parked_inv r"
    "evolves r0 r \<Longrightarrow> evolves r0 r'"
proof -
  show g: "govern r' = govern r" using assms by (simp add: headers_only_def govern_def split: option.split)
  show "rq_inv S r \<Longrightarrow> rq_inv S r'" using assms by (simp add: headers_only_def rq_inv_def)
  show "parked_inv r' = parked_inv r" using assms g by (simp add: headers_only_def parked_inv_def split: option.split)
  show "evolves r0 r \<Longrightarrow> evolves r0 r'" using assms by (cases "anchor r0") (simp_all add: headers_only_def evolves_def)
qed

lemma reject_headers_ok:
  assumes "\<forall>i. rq_last_modified r = Some i \<longrightarrow> i < length (rq_headers r)" "0 \<le> now" "until_ok (rx_blocked_until c)"
  shows "\<exists>rc r'. ea_add_reject_headers fmt push1 alloc_ok push2 now c r = Some (rc, r') \<and> headers_only r r'
     \<and> (rc = NGX_OK \<or> rc = NGX_ERROR)"
proof -
  obtain r1 where r1: "drop_last_modified r = Some r1" "headers_only r r1" "rq_last_modified r1 = None"
    using assms(1) by (cases "rq_last_modified r") (auto simp: drop_last_modified_def at_idx_def headers_only_def)
  have s: "t_sub (rx_blocked_until c) now = Some (rx_blocked_until c - now)" if "now < rx_blocked_until c"
    using that assms(2,3) by (simp add: t_sub_def time_rep_def until_ok_def)
  show ?thesis using r1 s
    by (cases push1; cases alloc_ok; cases push2; cases "(rq_status r = 429 \<or> rq_status r = 503) \<and> now < rx_blocked_until c")
       (auto simp: ea_add_reject_headers_def ea_add_header_def headers_only_def Let_def)
qed

lemma sat_until: "clock_ok now \<Longrightarrow> until_ok (sat_add now d)"
  using sat_add_range[of now d] clock_okD by (auto simp: until_ok_def)

lemma client_record_until:
  assumes "client_record z now c = (rc, out, c')" "clock_ok now" "until_ok (c_ban c')"
  shows "until_ok (snd out)"
  using assms sat_until[OF assms(2), of "z_block z"] by (auto simp: client_record_def Let_def split: if_splits)

lemma record_until:
  assumes "a_record z now k cs out (rc, out', zabs sh)" "wf_sh E z sh" "clock_ok now" "until_ok (snd out)"
  shows "until_ok (snd out')"
proof -
  obtain f rest where ft: "a_find_touch z now k cs = (f, rest)" by fastforce
  have c: "until_ok (snd out')" if "client_record z now x = (rc, out', c')" "zabs sh = c' # cs'" for x c' cs'
    using client_record_until[OF that(1) assms(3)] zabs_ban[OF assms(2), of c'] that(2) by simp
  show ?thesis
  proof (cases f)
    case (Some x)
    then show ?thesis using a_record_tracked[OF ft[unfolded Some] assms(1)] c by blast
  next
    case None
    show ?thesis
      by (rule a_record_untracked[OF ft[unfolded None] assms(1)]) (use assms(4) c in blast)+
  qed
qed

lemma peek_until:
  assumes "a_peek z now k (zabs sh) = (cnt, u, b)" "wf_sh E z sh" "clock_ok now"
  shows "until_ok u"
proof -
  define c where "c = (case a_find k (zabs sh) of None \<Rightarrow> new_client k now | Some c \<Rightarrow> c)"
  have "until_ok (c_ban c)"
    using zabs_ban[OF assms(2)] a_find_set[of k "zabs sh"] by (cases "a_find k (zabs sh)") (auto simp: c_def new_client_def)
  then show ?thesis using assms(1) sat_until[OF assms(3), of "z_block z"]
    by (auto simp: a_peek_def c_def [symmetric] client_peek_def Let_def split: if_splits)
qed

lemma dry_run_ok:
  assumes S: "site_ok S" and zi: "zi < length (st_zones S)" and W: "world_inv S t W" and now: "clock_ok now"
  shows "\<exists>W' c'. filter_dry_run S now conf zi (st_zones S ! zi) i c W r = Some (HF_NEXT, W', put_ctx i c' r)
     \<and> same_world W W' \<and> decided c c' \<and> rx_own_rejection c' = rx_own_rejection c \<and> until_ok (rx_blocked_until c')"
proof -
  define sh where "sh = wd_stores W ! zi"
  have sh: "at_idx (wd_stores W) zi = Some sh" "wf_sh (st_ngx S) (st_zones S ! zi) sh"
    using W zi by (simp_all add: world_inv_def at_idx_def sh_def)
  have doc: "memn2cmp_doc (st_ngx S)" using S by (auto simp: site_ok_def store_doc_def)
  obtain cnt u b where pk: "a_peek (st_zones S ! zi) now (rx_key c) (zabs sh) = (cnt, u, b)" by (metis prod_cases3)
  let ?c = "c \<lparr> rx_count := cnt, rx_blocked_until := u, rx_state := DRY_RUN \<rparr>"
  have "until_ok u" using peek_until[OF pk sh(2) now] .
  moreover have "decided c ?c" by (rule decidedI)
  moreover have "filter_dry_run S now conf zi (st_zones S ! zi) i c W r = Some (HF_NEXT,
      (if b then ea_log_decision conf (st_zones S ! zi) ?c (ascii ''dry-run'') (ascii ''would block (threshold reached)'') W else W),
      put_ctx i ?c r)"
    using sh(1) peek_refines[OF doc site_zone(1)[OF S zi] sh(2) now, of "rx_key c"] pk
    by (simp add: filter_dry_run_def Let_def)
  ultimately show ?thesis by (auto intro!: exI[of _ ?c])
qed

text \<open>Counting a response.\<close>

definition record_result :: "'s site \<Rightarrow> time \<Rightarrow> loc_conf \<Rightarrow> nat \<Rightarrow> req_ctx \<Rightarrow> 's world \<Rightarrow> hf_result \<Rightarrow> 's world \<Rightarrow> req_ctx \<Rightarrow> bool" where
  "record_result S now conf zi c W res W' c' \<longleftrightarrow> world_step S now zi W W' \<and> ctx_ok S c'
     \<and> rx_zone c' = rx_zone c \<and> rx_key c' = rx_key c \<and> rx_log_key c' = rx_log_key c
     \<and> rx_from_anchor c' = rx_from_anchor c \<and> rx_dry_run c' = rx_dry_run c
     \<and> rx_redis_pending c' = rx_redis_pending c \<and> rx_redis_checked c' = rx_redis_checked c
     \<and> (rx_response_seen c' \<and> res = HF_NEXT \<and> rx_own_rejection c' = rx_own_rejection c
        \<or> rx_own_rejection c' \<and> z_on_full_reject (st_zones S ! zi) \<and> res = HF_FINALIZE (conf_reject_status conf))"

lemma record_result_later: "record_result S now conf zi c W res W' c' \<Longrightarrow> rx_response_seen c \<Longrightarrow> \<not> rx_own_rejection c \<Longrightarrow> later c c'"
  by (auto simp: record_result_def later_def)

text \<open>What is left to do once the store and Redis have been told.\<close>

lemma record_tail:
  assumes ctx: "ctx_ok S c" "rx_zone c = Some zi" "rx_response_seen c"
    and c1: "redis_touched (c \<lparr> rx_count := n, rx_blocked_until := u \<rparr>) c1" "cache_ok (st_redis S) (st_zones S ! zi) c1"
      "rx_redis_pending c1 = rx_redis_pending c" "rx_redis_checked c1 = rx_redis_checked c" "until_ok u"
    and W: "world_step S now zi W W1"
  shows "record_result S now conf zi c W HF_NEXT W1 c1"
    "record_result S now conf zi c W HF_NEXT W1 (c1 \<lparr> rx_state := s \<rparr>)"
    "record_result S now conf zi c W HF_NEXT (ea_log_decision conf z d a b W1) (c1 \<lparr> rx_state := s \<rparr>)"
    "z_on_full_reject (st_zones S ! zi) \<Longrightarrow>
     record_result S now conf zi c W (HF_FINALIZE (conf_reject_status conf)) (ea_log_decision conf z d a b W1)
       (c1 \<lparr> rx_state := s, rx_own_rejection := True, rx_response_seen := False \<rparr>)"
proof -
  note k = redis_touched_keeps[OF c1(1)]
  have w: "world_step S now zi W (ea_log_decision conf z d a b W1)" using W by (simp add: world_step_def)
  have ok: "zi < length (st_zones S)" "length (rx_key c) = DIGEST_LEN"
    "rx_redis_pending c \<longrightarrow> \<not> rx_redis_checked c \<and> z_redis (st_zones S ! zi)"
    using ctx by (simp_all add: ctx_ok_def)
  have okc: "ctx_ok S c1" using ok k c1 ctx by (simp add: ctx_ok_def)
  then have oks: "ctx_ok S (c1 \<lparr> rx_state := s \<rparr>)"
    "ctx_ok S (c1 \<lparr> rx_state := s, rx_own_rejection := True, rx_response_seen := False \<rparr>)"
    using k ctx by (simp_all add: ctx_ok_def cache_ok_def)
  show "record_result S now conf zi c W HF_NEXT W1 c1" using W okc k c1 ctx by (simp add: record_result_def)
  show "record_result S now conf zi c W HF_NEXT W1 (c1 \<lparr> rx_state := s \<rparr>)"
    using W oks k c1 ctx by (simp add: record_result_def)
  show "record_result S now conf zi c W HF_NEXT (ea_log_decision conf z d a b W1) (c1 \<lparr> rx_state := s \<rparr>)"
    using w oks k c1 ctx by (simp add: record_result_def)
  show "z_on_full_reject (st_zones S ! zi) \<Longrightarrow>
     record_result S now conf zi c W (HF_FINALIZE (conf_reject_status conf)) (ea_log_decision conf z d a b W1)
       (c1 \<lparr> rx_state := s, rx_own_rejection := True, rx_response_seen := False \<rparr>)"
    using w oks k c1 ctx by (simp add: record_result_def)
qed

lemma redis_record_ctx:
  assumes "fmt_doc fmt" "alloc_doc alloc" "cache_ok rcf z c" "wf_zone z"
  obtains w' c' where "ea_redis_record fmt sha rcf z now alloc w c = Some (w', c')" "redis_touched c c'" "cache_ok rcf z c'"
    "rx_redis_pending c' = rx_redis_pending c" "rx_redis_checked c' = rx_redis_checked c"
proof -
  obtain w' c' where r: "ea_redis_record fmt sha rcf z now alloc w c = Some (w', c')"
    "c' = c \<or> c' = c \<lparr> rx_redis_events := events_key rcf z (rx_key c), rx_redis_block := block_key rcf z (rx_key c) \<rparr>"
    using record_exact[OF assms, of sha now w] by blast
  have "redis_touched c (c \<lparr> rx_redis_events := ev, rx_redis_block := bl \<rparr>)" for ev bl
    using redis_touchedI(3)[where c = c and ev = ev and bl = bl and p = "rx_redis_pending c"] by simp
  then show ?thesis using that[OF r(1)] r(2) assms(3) redis_touchedI(1)[of c] by (auto simp: cache_ok_def)
qed

text \<open>The count in the store, the message to Redis, and then the verdict.\<close>

definition record_verdict ::
  "loc_conf \<Rightarrow> zone \<Rightarrow> nat \<Rightarrow> ngx_rc \<Rightarrow> req_ctx \<Rightarrow> 's world \<Rightarrow> request \<Rightarrow> hf_result \<times> 's world \<times> request" where
  "record_verdict conf z i rc c W r =
     (if rc = NGX_ERROR then
        if z_on_full_reject z
        then let c = c \<lparr> rx_state := BLOCKED, rx_own_rejection := True, rx_response_seen := False \<rparr>
             in (HF_FINALIZE (conf_reject_status conf),
                 ea_log_decision conf z c (ascii ''blocked'') (ascii ''rejected (zone full)'') W, put_ctx i c r)
        else (HF_NEXT, W, put_ctx i c r)
      else if rc = NGX_BUSY then
        let c = c \<lparr> rx_state := BLOCKED \<rparr>
        in (HF_NEXT, ea_log_decision conf z c (ascii ''blocked'') (ascii ''threshold reached'') W, put_ctx i c r)
      else (HF_NEXT, W, put_ctx i (c \<lparr> rx_state := COUNTED \<rparr>) r))"

abbreviation recorded :: "nat \<Rightarrow> bytes \<Rightarrow> time \<Rightarrow> 's shctx \<Rightarrow> 's world \<Rightarrow> 's world" where
  "recorded zi k now sh W \<equiv> (put_store zi sh W) \<lparr> wd_records := wd_records W @ [(zi, k, now)] \<rparr>"

lemma filter_record_eq:
  assumes S: "site_ok S" and zi: "zi < length (st_zones S)" and W: "world_inv S t W" and now: "t \<le> now" "clock_ok now"
    and alloc: "alloc_doc alloc" and c: "ctx_ok S c" "rx_zone c = Some zi"
  obtains rc n u sh' w c1 where
    "ea_record (st_ngx S) (st_zones S ! zi) (wd_stores W ! zi) (rx_key c) now (rx_count c, rx_blocked_until c) = Some (rc, (n, u), sh')"
    "a_record (st_zones S ! zi) now (rx_key c) (zabs (wd_stores W ! zi)) (rx_count c, rx_blocked_until c) (rc, (n, u), zabs sh')"
    "until_ok u" "redis_touched (c \<lparr> rx_count := n, rx_blocked_until := u \<rparr>) c1" "cache_ok (st_redis S) (st_zones S ! zi) c1"
    "rx_redis_pending c1 = rx_redis_pending c" "rx_redis_checked c1 = rx_redis_checked c"
    "world_step S now zi W ((recorded zi (rx_key c) now sh' W) \<lparr> wd_worker := w \<rparr>)"
    "filter_record S alloc now conf zi (st_zones S ! zi) i c W r
       = Some (record_verdict conf (st_zones S ! zi) i rc c1 ((recorded zi (rx_key c) now sh' W) \<lparr> wd_worker := w \<rparr>) r)"
proof -
  let ?z = "st_zones S ! zi"
  define sh where "sh = wd_stores W ! zi"
  have sh: "at_idx (wd_stores W) zi = Some sh" "wf_sh (st_ngx S) ?z sh"
    using W zi by (simp_all add: world_inv_def at_idx_def sh_def)
  have doc: "store_doc (st_ngx S)" "fmt_doc (st_fmt S)" using S by (simp_all add: site_ok_def)
  have k: "length (rx_key c) = DIGEST_LEN" "cache_ok (st_redis S) ?z c" "until_ok (rx_blocked_until c)"
    using c by (simp_all add: ctx_ok_def)
  obtain rc n u sh' where rec: "ea_record (st_ngx S) ?z sh (rx_key c) now (rx_count c, rx_blocked_until c) = Some (rc, (n, u), sh')"
    "wf_sh (st_ngx S) ?z sh'" "a_record ?z now (rx_key c) (zabs sh) (rx_count c, rx_blocked_until c) (rc, (n, u), zabs sh')"
    using record_refines[OF doc(1) site_zone(1)[OF S zi] sh(2) now(2) k(1)] by force
  have uo: "until_ok u" using record_until[OF rec(3,2) now(2)] k(3) by simp
  define W0 where "W0 = recorded zi (rx_key c) now sh' W"
  define c0 where "c0 = c \<lparr> rx_count := n, rx_blocked_until := u \<rparr>"
  have ws0: "world_step S now zi W W0" unfolding W0_def
    using world_step_store[OF W zi step_record[OF order_refl now(2) k(1) rec(1)[unfolded sh_def]]]
    by (simp add: put_store_def world_step_def)
  have cache0: "cache_ok (st_redis S) ?z c0" using k(2) by (simp add: c0_def cache_ok_def)
  define tell where "tell = (if z_redis ?z then ea_redis_record (st_fmt S) (st_sha S) (st_redis S) ?z now alloc (wd_worker W0) c0
                 else Some (wd_worker W0, c0))"
  obtain w c1 where told: "tell = Some (w, c1)" "redis_touched c0 c1" "cache_ok (st_redis S) ?z c1"
    "rx_redis_pending c1 = rx_redis_pending c0" "rx_redis_checked c1 = rx_redis_checked c0"
    "wd_worker W0 = w \<or> request_side now (wd_worker W0) w"
  proof (cases "z_redis ?z")
    case True
    obtain w c1 where a: "ea_redis_record (st_fmt S) (st_sha S) (st_redis S) ?z now alloc (wd_worker W0) c0 = Some (w, c1)"
      "redis_touched c0 c1" "cache_ok (st_redis S) ?z c1" "rx_redis_pending c1 = rx_redis_pending c0"
      "rx_redis_checked c1 = rx_redis_checked c0"
      by (rule redis_record_ctx[OF doc(2) alloc cache0 site_zone(1)[OF S zi]]) (rule that)
    have "breaker_inv t (wd_worker W0)" using W by (simp add: world_inv_def wk_inv_def W0_def)
    from record_step[OF this now(1) a(1)] show ?thesis using that a True by (simp add: tell_def)
  next
    case False
    then show ?thesis using that[of "wd_worker W0" c0] redis_touchedI(1)[of c0] cache0 by (simp add: tell_def)
  qed
  have ws1: "world_step S now zi W (W0 \<lparr> wd_worker := w \<rparr>)"
    using world_step_then[OF ws0 world_step_worker[OF told(6)]] by (simp add: W0_def)
  have e: "filter_record S alloc now conf zi ?z i c W r = Some (record_verdict conf ?z i rc c1 (W0 \<lparr> wd_worker := w \<rparr>) r)"
    using sh(1) rec(1) told(1) unfolding filter_record_def call_record_def record_verdict_def tell_def W0_def c0_def Let_def
    by (auto split: if_splits)
  show ?thesis
    using that[OF rec(1,3)[unfolded sh_def] uo told(2)[unfolded c0_def] told(3) _ _ ws1[unfolded W0_def] e[unfolded W0_def]] told(4,5)
    by (simp add: c0_def)
qed

lemma filter_record_ok:
  assumes S: "site_ok S" and zi: "zi < length (st_zones S)" and W: "world_inv S t W" and now: "t \<le> now" "clock_ok now"
    and alloc: "alloc_doc alloc" and c: "ctx_ok S c" "rx_zone c = Some zi" "rx_response_seen c"
  obtains res W' c' where "filter_record S alloc now conf zi (st_zones S ! zi) i c W r = Some (res, W', put_ctx i c' r)"
    "record_result S now conf zi c W res W' c'"
proof -
  let ?z = "st_zones S ! zi"
  obtain rc n u sh' w c1 where f: "until_ok u" "redis_touched (c \<lparr> rx_count := n, rx_blocked_until := u \<rparr>) c1"
    "cache_ok (st_redis S) ?z c1" "rx_redis_pending c1 = rx_redis_pending c" "rx_redis_checked c1 = rx_redis_checked c"
    "world_step S now zi W ((recorded zi (rx_key c) now sh' W) \<lparr> wd_worker := w \<rparr>)"
    and e: "filter_record S alloc now conf zi ?z i c W r
       = Some (record_verdict conf ?z i rc c1 ((recorded zi (rx_key c) now sh' W) \<lparr> wd_worker := w \<rparr>) r)"
    by (rule filter_record_eq[OF S zi W now alloc c(1,2)]) (rule that)
  note tail = record_tail[OF c f(2-5,1,6)]
  show ?thesis
  proof (cases "rc = NGX_ERROR")
    case err: True
    show ?thesis
    proof (cases "z_on_full_reject ?z")
      case True
      then show ?thesis using that e err tail(4) by (simp add: record_verdict_def Let_def)
    next
      case False
      then show ?thesis using that e err tail(1) by (simp add: record_verdict_def)
    qed
  next
    case ok: False
    show ?thesis
    proof (cases "rc = NGX_BUSY")
      case True
      then show ?thesis using that e ok tail(3) by (simp add: record_verdict_def Let_def)
    next
      case False
      then show ?thesis using that e ok tail(2) by (simp add: record_verdict_def)
    qed
  qed
qed

end
