(* ===== verification/EA_Filter.thy ===== *)
theory EA_Filter
  imports EA_Serve
begin

text \<open>
  The header filter and the answer of Redis are defined in every state a request can be in, and all
  interleavings of a request's steps as a step relation.
\<close>

section \<open>The header filter\<close>

text \<open>Whether the filter counts this response.\<close>

definition filter_counts :: "'s site \<Rightarrow> prep \<Rightarrow> loc_conf \<Rightarrow> request \<Rightarrow> bool" where
  "filter_counts S p conf r \<longleftrightarrow> (case ea_prepare_ctx (st_ngx S) p conf r of
      Some (Some i, r1) \<Rightarrow> counts S conf r1 (rq_pool r1 ! i)
    | _ \<Rightarrow> False)"

text \<open>What the filter gives, apart from the process.\<close>

definition filters :: "'s site \<Rightarrow> loc_conf \<Rightarrow> bool \<Rightarrow> request \<Rightarrow> 's world \<Rightarrow> hf_result \<Rightarrow> request \<Rightarrow> 's world \<Rightarrow> bool" where
  "filters S conf counted r W res r' W' \<longleftrightarrow> rq_parked r' = rq_parked r
     \<and> (\<not> counted \<longrightarrow> same_world W W' \<and> (\<forall>s. res \<noteq> HF_FINALIZE s))
     \<and> (counted \<longrightarrow> (\<exists>c. govern r' = Some c \<and> (rx_response_seen c \<or> rx_own_rejection c))
          \<and> (\<forall>c. govern r = Some c \<longrightarrow> \<not> rx_response_seen c \<and> \<not> rx_own_rejection c))
     \<and> (res = HF_NEXT \<or> (\<exists>c. govern r' = Some c \<and> rx_own_rejection c
          \<and> (res = HF_ERROR \<or> res = HF_FINALIZE (conf_reject_status conf))))"

lemma serves_same: "rq_inv S r' \<Longrightarrow> evolves r r' \<Longrightarrow> parked_inv r' \<Longrightarrow> same_world W W' \<Longrightarrow> serves S now r W r' W'"
  by (simp add: serves_def)

lemma filter_main:
  assumes "rq_main r" "ea_prepare_ctx (st_ngx S) p conf r = Some (c, r1)" "prepared S r c r1"
  shows "ea_header_filter S p fm alloc now conf W r = (case c of
      None \<Rightarrow> Some (HF_NEXT, W, r1)
    | Some i \<Rightarrow> (case rx_zone (rq_pool r1 ! i) of
        None \<Rightarrow> Some (HF_NEXT, W, r1)
      | Some zi \<Rightarrow>
          if rx_response_seen (rq_pool r1 ! i) then Some (HF_NEXT, W, r1)
          else filter_client S fm alloc now conf zi (st_zones S ! zi) i (rq_pool r1 ! i) W r1))"
proof (cases c)
  case None
  then show ?thesis using assms by (simp add: ea_header_filter_def)
next
  case (Some i)
  have i: "i < length (rq_pool r1)" using assms(3) Some rq_invD(1) by (auto simp: prepared_def)
  show ?thesis
  proof (cases "rx_zone (rq_pool r1 ! i)")
    case None
    then show ?thesis using assms(1,2) Some i by (simp add: ea_header_filter_def at_idx_def)
  next
    case (Some zi)
    then have "zi < length (st_zones S)" using prepared_run(3)[of S r i r1 zi] assms(3) \<open>c = Some i\<close> by simp
    then show ?thesis using assms(1,2) Some \<open>c = Some i\<close> i by (simp add: ea_header_filter_def at_idx_def)
  qed
qed

text \<open>The four ways the filter treats a client's first response.\<close>

definition watched :: "'s site \<Rightarrow> nat \<Rightarrow> request \<Rightarrow> bool" where
  "watched S zi r \<longleftrightarrow> ea_status_matches (z_statuses (st_zones S ! zi)) (rq_status r) = Some True"

lemma status_total:
  assumes "site_ok S" "zi < length (st_zones S)"
  shows "ea_status_matches (z_statuses (st_zones S ! zi)) (rq_status r) = Some (watched S zi r)"
  using status_matches_eq[OF site_zone(2)[OF assms], of "rq_status r"] by (simp add: watched_def)

lemma filter_client_cases:
  fixes c :: req_ctx and r :: request and conf :: loc_conf and i :: nat
  assumes "site_ok S" "zi < length (st_zones S)"
  defines "d \<equiv> mark_seen conf c"
  defines "r1 \<equiv> put_ctx i (mark_seen conf c) r"
  shows "filter_client S fm alloc now conf zi (st_zones S ! zi) i c W r =
    (if rx_own_rejection c then do {
       (rc, r') \<leftarrow> ea_add_reject_headers (st_fmt S) (fm_push1 fm) (fm_retry fm) (fm_push2 fm) now d r1;
       Some (if rc \<noteq> NGX_OK then HF_ERROR else HF_NEXT, W, r') }
     else if rx_state c = DRY_RUN \<or> \<not> watched S zi r then Some (HF_NEXT, W, r1)
     else if ea_effective_dry_run c conf then filter_dry_run S now conf zi (st_zones S ! zi) i d W r1
     else filter_record S alloc now conf zi (st_zones S ! zi) i d W r1)"
  using status_total[OF assms(1,2), of r] by (simp add: filter_client_def d_def r1_def Let_def)

text \<open>What the filter makes of a client's context.\<close>

definition filter_result :: "'s site \<Rightarrow> time \<Rightarrow> loc_conf \<Rightarrow> nat \<Rightarrow> bool \<Rightarrow> req_ctx \<Rightarrow> 's world \<Rightarrow> hf_result \<Rightarrow> 's world \<Rightarrow> req_ctx \<Rightarrow> bool" where
  "filter_result S now conf zi counted c W res W' c' \<longleftrightarrow> later c c' \<and> ctx_ok S c' \<and> rx_redis_pending c' = rx_redis_pending c
     \<and> (if counted then world_step S now zi W W' else same_world W W')
     \<and> (rx_response_seen c' \<or> rx_own_rejection c') \<and> (\<not> counted \<longrightarrow> (\<forall>s. res \<noteq> HF_FINALIZE s))
     \<and> (res = HF_NEXT \<or> rx_own_rejection c' \<and> (res = HF_ERROR \<or> res = HF_FINALIZE (conf_reject_status conf)))"

lemma headers_only_refl: "rq_inv S r \<Longrightarrow> headers_only r r"
  using rq_invD(2) by (auto simp: headers_only_def)

lemma filter_client_ok:
  assumes S: "site_ok S" and zi: "zi < length (st_zones S)" and W: "world_inv S t W" and now: "t \<le> now" "clock_ok now"
    and alloc: "alloc_doc alloc" and r: "rq_inv S r" "anchor r = Some i" and c: "ctx_ok S c" "rx_zone c = Some zi"
  obtains res W' c' r' where "filter_client S fm alloc now conf zi (st_zones S ! zi) i c W r = Some (res, W', r')"
    "headers_only (put_ctx i c' r) r'"
    "filter_result S now conf zi (\<not> rx_own_rejection c \<and> rx_state c \<noteq> DRY_RUN \<and> watched S zi r \<and> \<not> ea_effective_dry_run c conf)
       c W res W' c'"
proof -
  define d where "d = mark_seen conf c"
  have d: "ctx_ok S d" "later c d" "rx_redis_pending d = rx_redis_pending c" "rx_zone d = Some zi" "rx_response_seen d"
    "rx_own_rejection d = rx_own_rejection c"
    using mark_seen_ok[OF c(1)] mark_seen_later c(2) by (simp_all add: d_def)
  have inv: "rq_inv S (put_ctx i x r)" if "ctx_ok S x" for x using put_ctx_inv[OF r that] .
  note eq = filter_client_cases[OF S zi, of fm alloc now conf i c W r, folded d_def]
  let ?cnt = "\<not> rx_own_rejection c \<and> rx_state c \<noteq> DRY_RUN \<and> watched S zi r \<and> \<not> ea_effective_dry_run c conf"
  consider (own) "rx_own_rejection c" | (quiet) "\<not> rx_own_rejection c" "rx_state c = DRY_RUN \<or> \<not> watched S zi r"
    | (dry) "\<not> rx_own_rejection c" "rx_state c \<noteq> DRY_RUN" "watched S zi r" "ea_effective_dry_run c conf"
    | (count) ?cnt by blast
  then show ?thesis
  proof cases
    case own
    have "0 \<le> now" "until_ok (rx_blocked_until d)" using clock_okD[OF now(2)] d(1) by (simp_all add: ctx_ok_def)
    moreover have "\<forall>j. rq_last_modified (put_ctx i d r) = Some j \<longrightarrow> j < length (rq_headers (put_ctx i d r))"
      using rq_invD(2)[OF r(1)] by simp
    ultimately obtain rc r' where h: "ea_add_reject_headers (st_fmt S) (fm_push1 fm) (fm_retry fm) (fm_push2 fm) now d (put_ctx i d r)
        = Some (rc, r')" "headers_only (put_ctx i d r) r'"
      using reject_headers_ok[of "put_ctx i d r" now d] by blast
    have "filter_result S now conf zi False c W (if rc \<noteq> NGX_OK then HF_ERROR else HF_NEXT) W d"
      using d own by (simp add: filter_result_def)
    then show ?thesis using that[OF _ h(2)] eq own h(1) by simp
  next
    case quiet
    have "filter_result S now conf zi False c W HF_NEXT W d" using d by (simp add: filter_result_def)
    then show ?thesis using that[of HF_NEXT W "put_ctx i d r" d] eq quiet headers_only_refl[OF inv[OF d(1)]] by auto
  next
    case dry
    obtain W' c' where f: "filter_dry_run S now conf zi (st_zones S ! zi) i d W (put_ctx i d r)
        = Some (HF_NEXT, W', put_ctx i c' (put_ctx i d r))"
      "same_world W W'" "decided d c'" "rx_own_rejection c' = rx_own_rejection d" "until_ok (rx_blocked_until c')"
      using dry_run_ok[OF S zi W now(2), of conf i d "put_ctx i d r"] by blast
    note k = decided_keeps[OF f(3)]
    have ok: "ctx_ok S c'" using k(5)[OF d(4,1) f(5)] .
    have "filter_result S now conf zi False c W HF_NEXT W' c'"
      using later_trans[OF d(2) k(1)] ok k d f(2) by (simp add: filter_result_def)
    then show ?thesis using that[of HF_NEXT W' "put_ctx i c' r" c'] eq dry f(1) headers_only_refl[OF inv[OF ok]] by simp
  next
    case count
    obtain res W' c' where f: "filter_record S alloc now conf zi (st_zones S ! zi) i d W (put_ctx i d r)
        = Some (res, W', put_ctx i c' (put_ctx i d r))" "record_result S now conf zi d W res W' c'"
      by (rule filter_record_ok[OF S zi W now alloc d(1,4,5)]) (rule that)
    have "later d c'" using record_result_later[OF f(2) d(5)] d(6) count by simp
    then have "filter_result S now conf zi True c W res W' c'"
      using later_trans[OF d(2)] f(2) d(3) by (auto simp: filter_result_def record_result_def)
    moreover have "ctx_ok S c'" using f(2) by (simp add: record_result_def)
    ultimately show ?thesis using that[of res W' "put_ctx i c' r" c'] eq count f(1) headers_only_refl[OF inv] by simp
  qed
qed

lemma filter_ok:
  assumes S: "site_ok S" and r: "rq_inv S r" "parked_inv r" and conf: "conf_ok S conf"
    and W: "world_inv S t W" and now: "t \<le> now" "clock_ok now" and alloc: "alloc_doc alloc"
  obtains res W' r' where "ea_header_filter S p fm alloc now conf W r = Some (res, W', r')"
    "serves S now r W r' W'" "filters S conf (filter_counts S p conf r) r W res r' W'"
proof -
  have doc: "digest_doc (st_ngx S)" using S by (simp add: site_ok_def)
  obtain c r1 where c: "ea_prepare_ctx (st_ngx S) p conf r = Some (c, r1)" "prepared S r c r1"
    using prepare_ok[OF r(1) conf doc] by blast
  have rest: "rq_main r1 = rq_main r" "rq_parked r1 = rq_parked r" using c(2) by (simp_all add: prepared_def same_rest_def)
  have pass: "serves S now r W r1 W" "filters S conf False r W HF_NEXT r1 W"
    using prepared_serves[OF c(2) r(2)] rest by (simp_all add: filters_def)
  consider (sub) "\<not> rq_main r" | (out) "rq_main r" "\<forall>i. c = Some i \<longrightarrow> rx_zone (rq_pool r1 ! i) = None \<or> rx_response_seen (rq_pool r1 ! i)"
    | (client) i zi where "rq_main r" "c = Some i" "rx_zone (rq_pool r1 ! i) = Some zi" "\<not> rx_response_seen (rq_pool r1 ! i)"
    by (metis not_Some_eq)
  then show ?thesis
  proof cases
    case sub
    have "\<not> filter_counts S p conf r" using sub c(1) rest by (simp add: filter_counts_def counts_def split: option.split)
    then show ?thesis using that[of HF_NEXT W r] sub serves_same[OF r(1) _ r(2)]
      by (simp add: ea_header_filter_def filters_def)
  next
    case out
    have "\<not> filter_counts S p conf r" using out c(1) by (auto simp: filter_counts_def counts_def split: option.split)
    moreover have "ea_header_filter S p fm alloc now conf W r = Some (HF_NEXT, W, r1)"
      using filter_main[OF out(1) c, of fm alloc now W] out(2) by (auto split: option.splits)
    ultimately show ?thesis using that[of HF_NEXT W r1] pass by simp
  next
    case (client i zi)
    note run = prepared_run[OF c(2)[unfolded client(2)] client(3)]
    have inv: "rq_inv S r1" using c(2) by (simp add: prepared_def)
    let ?c = "rq_pool r1 ! i"
    have ok: "ctx_ok S ?c" using rq_invD(3)[OF inv run(2)] .
    define cnt where "cnt = (\<not> rx_own_rejection ?c \<and> rx_state ?c \<noteq> DRY_RUN \<and> watched S zi r1 \<and> \<not> ea_effective_dry_run ?c conf)"
    have cnt: "filter_counts S p conf r = cnt"
      using c(1) client rest by (auto simp: filter_counts_def counts_def cnt_def watched_def)
    obtain res W' c' r' where f: "filter_client S fm alloc now conf zi (st_zones S ! zi) i ?c W r1 = Some (res, W', r')"
      "headers_only (put_ctx i c' r1) r'" "filter_result S now conf zi cnt ?c W res W' c'"
      by (rule filter_client_ok[OF S run(3) W now alloc inv run(1) ok client(3)]) (rule that, assumption, assumption, simp only: cnt_def)
    have "parked_inv r1" using prepared_parked[OF c(2) r(2)] .
    then have pk: "rq_parked r1 + 0 = (if rx_redis_pending c' then 1 else 0)"
      using f(3) run(6) by (auto simp: parked_inv_def filter_result_def)
    have s: "serves S now r W ((put_ctx i c' r1) \<lparr> rq_parked := rq_parked r1 + 0 \<rparr>) W'"
      using f(3) by (intro put_serves[OF c(2)[unfolded client(2)] client(3) _ _ _ pk]) (auto simp: filter_result_def split: if_splits)
    have e: "(put_ctx i c' r1) \<lparr> rq_parked := rq_parked r1 + 0 \<rparr> = put_ctx i c' r1"
      using parked_same[of "put_ctx i c' r1"] by simp
    have s1: "serves S now r W (put_ctx i c' r1) W'" using s unfolding e .
    have serves: "serves S now r W r' W'"
    proof -
      have a: "rq_inv S (put_ctx i c' r1)" "evolves r (put_ctx i c' r1)" "parked_inv (put_ctx i c' r1)"
        using s1 by (simp_all add: serves_def)
      have "rq_inv S r'" "evolves r r'" "parked_inv r'"
        using headers_only_keeps(1)[OF f(2) a(1)] headers_only_keeps(4)[OF f(2) a(2)] headers_only_keeps(3)[OF f(2)] a(3) by simp_all
      then show ?thesis using s1 headers_only_keeps(2)[OF f(2)] by (simp add: serves_def)
    qed
    have g: "govern r' = Some c'" using govern_put_ctx[OF inv run(1), of c'] headers_only_keeps(2)[OF f(2)] by simp
    have pr: "rq_parked r' = rq_parked r" using f(2) rest by (simp add: headers_only_def)
    have before: "\<not> rx_response_seen x \<and> \<not> rx_own_rejection x" if "govern r = Some x" cnt for x
    proof -
      have "govern r1 = Some x \<or> govern r1 = Some (x \<lparr> rx_from_anchor := True \<rparr>)" using c(2) that(1) by (simp add: prepared_def)
      then show ?thesis using run(6) client(4) that(2) by (auto simp: cnt_def)
    qed
    have "filters S conf cnt r W res r' W'"
      using f(3) g pr before by (auto simp: filters_def filter_result_def)
    then show ?thesis using that[of res W' r'] serves cnt filter_main[OF client(1) c, of fm alloc now W] client f(1) by simp
  qed
qed

section \<open>The answer of Redis\<close>

lemma callback_ctx:
  assumes "wf_zone z" "clock_ok now"
  obtains w' c' where "ea_redis_check_callback E z now reply w c = Some (w', c')"
    "\<not> rx_redis_pending c'" "rx_redis_checked c'" "until_ok (rx_blocked_until c) \<Longrightarrow> until_ok (rx_blocked_until c')"
    "later c c'" "rx_redis_events c' = rx_redis_events c" "rx_redis_block c' = rx_redis_block c"
    "rx_own_rejection c' = rx_own_rejection c" "rx_response_seen c' = rx_response_seen c"
proof -
  define d where "d = c \<lparr> rx_redis_pending := False, rx_redis_checked := True, rx_redis_blocked := False \<rparr>"
  obtain wf where wf: "ea_redis_record_failure w now = Some wf"
    using record_failure_total[of now w] clock_okD[OF assms(2)] by blast
  have s: "ea_time_add_saturate now (z_block z) = Some (sat_add now (z_block z))" "until_ok (sat_add now (z_block z))"
    "0 < sat_add now (z_block z)"
    using sat_until[OF assms(2), of "z_block z"] clock_okD[OF assms(2)] assms(1)
    by (simp_all add: time_add_saturate_eq sat_add_def wf_zone_def)
  have d: "later c d" by (simp add: d_def later_def)
  show ?thesis
  proof (cases reply)
    case None
    then show ?thesis using that[of wf d] wf d by (simp add: ea_redis_check_callback_def d_def)
  next
    case (Some x)
    show ?thesis
    proof (cases x)
      case (R_STRING str)
      define bu where "bu = (let b = (if ngx_atoi E str > 0 then ngx_atoi E str else sat_add now (z_block z))
        in if b > sat_add now (z_block z) then sat_add now (z_block z) else b)"
      have "until_ok bu" using s by (auto simp: bu_def until_ok_def Let_def)
      then show ?thesis
        using that[of "w \<lparr> wk_failures := 0 \<rparr>" "d \<lparr> rx_redis_blocked := True, rx_blocked_until := bu, rx_count := z_threshold z \<rparr>"]
          s Some R_STRING by (simp add: ea_redis_check_callback_def d_def bu_def later_def Let_def)
    next
      case R_NIL
      then show ?thesis using that[of "w \<lparr> wk_failures := 0 \<rparr>" d] d Some by (simp add: ea_redis_check_callback_def d_def)
    qed (use that[of wf d] wf d Some in \<open>simp_all add: ea_redis_check_callback_def d_def\<close>)
  qed
qed

lemma reply_ok:
  assumes S: "site_ok S" and r: "rq_inv S r" "parked_inv r" "0 < rq_parked r"
    and W: "world_inv S t W" and now: "t \<le> now" "clock_ok now"
  obtains W' r' where "ea_check_reply S reply now W r = Some (W', r')" "serves S now r W r' W'"
    "wd_stores W' = wd_stores W" "rq_parked r' = 0" "\<exists>c. govern r' = Some c \<and> rx_redis_checked c"
proof -
  obtain a where a: "anchor r = Some a" and pk: "rx_redis_pending (rq_pool r ! a)" "rq_parked r = 1" "rq_ctx r \<noteq> None"
    using r(2,3) by (auto simp: parked_inv_def govern_def split: option.splits if_splits)
  have i: "rq_ctx r = Some a" "a < length (rq_pool r)" using rq_invD(4,6)[OF r(1)] a pk(3) by auto
  let ?c = "rq_pool r ! a"
  have ok: "ctx_ok S ?c" using rq_invD(3)[OF r(1) i(2)] .
  then obtain zi where zi: "rx_zone ?c = Some zi" "zi < length (st_zones S)"
    using pk(1) by (auto simp: ctx_ok_def split: option.splits)
  obtain w' c' where cb: "ea_redis_check_callback (st_ngx S) (st_zones S ! zi) now reply (wd_worker W) ?c = Some (w', c')"
    and c': "\<not> rx_redis_pending c'" "rx_redis_checked c'" "until_ok (rx_blocked_until ?c) \<Longrightarrow> until_ok (rx_blocked_until c')"
    "later ?c c'" "rx_redis_events c' = rx_redis_events ?c" "rx_redis_block c' = rx_redis_block ?c"
    by (rule callback_ctx[OF site_zone(1)[OF S zi(2)] now(2)]) (rule that)
  have "rx_zone c' = Some zi" "rx_key c' = rx_key ?c" using c'(4) zi(1) by (simp_all add: later_def)
  then have ok': "ctx_ok S c'" using ok c' zi by (simp add: ctx_ok_def cache_ok_def)
  have b: "breaker_inv t (wd_worker W)" using W by (simp add: world_inv_def wk_inv_def)
  have ws: "world_step S now zi W (W \<lparr> wd_worker := w' \<rparr>)"
    using world_step_worker[of W w'] reply_step[OF b now cb] by blast
  let ?r = "(put_ctx a c' r) \<lparr> rq_parked := 0 \<rparr>"
  have g: "govern ?r = Some c'" using govern_put_ctx[OF r(1) a, of c'] by simp
  have "rq_inv S ?r" using put_ctx_inv[OF r(1) a ok'] by (simp add: rq_inv_def)
  moreover have "evolves r ?r" using put_ctx_evolves[OF r(1) a c'(4)] a by (simp add: evolves_def)
  moreover have "parked_inv ?r" using g c'(1) by (simp add: parked_inv_def)
  ultimately have "serves S now r W ?r (W \<lparr> wd_worker := w' \<rparr>)"
    using g \<open>rx_zone c' = Some zi\<close> ws by (auto simp: serves_def)
  moreover have "ea_check_reply S reply now W r = Some (W \<lparr> wd_worker := w' \<rparr>, ?r)"
    using i zi cb pk(2) by (simp add: ea_check_reply_def at_idx_def)
  ultimately show ?thesis using that g c'(2) by simp
qed

end
