(* ===== verification/EA_Calls.thy ===== *)
theory EA_Calls
  imports EA_Filter EA_Remote
begin

text \<open>
  What the handlers of a request really do outside it: the calls of \<^verbatim>\<open>ea_record\<close> and the commands for
  hiredis that a step adds to the two lists they are entered in.
\<close>

section \<open>What a step added\<close>

text \<open>The calls of \<^verbatim>\<open>ea_record\<close>, and those of hiredis.\<close>

type_synonym effects = "(nat \<times> bytes \<times> time) list \<times> hcall list"

definition effects_of :: "'s world \<Rightarrow> 's world \<Rightarrow> effects" where
  "effects_of W W' = (drop (length (wd_records W)) (wd_records W'),
     drop (length (wk_calls (wd_worker W))) (wk_calls (wd_worker W')))"

text \<open>The context has seen its response or was rejected; Redis has been asked for it.\<close>

definition settled :: "request \<Rightarrow> bool" where
  "settled r \<longleftrightarrow> (\<exists>c. govern r = Some c \<and> (rx_response_seen c \<or> rx_own_rejection c))"

definition queried :: "request \<Rightarrow> bool" where
  "queried r \<longleftrightarrow> (\<exists>c. govern r = Some c \<and> (rx_redis_pending c \<or> rx_redis_checked c))"

definition belongs :: "request \<Rightarrow> nat \<times> bytes \<times> time \<Rightarrow> bool" where
  "belongs r e \<longleftrightarrow> (\<exists>c. govern r = Some c \<and> rx_zone c = Some (fst e) \<and> rx_key c = fst (snd e))"

lemma evolves_settled: "evolves r r' \<Longrightarrow> settled r \<Longrightarrow> settled r'"
  unfolding settled_def using evolves_govern[of r r'] by (fastforce simp: later_def)

lemma evolves_queried: "evolves r r' \<Longrightarrow> queried r \<Longrightarrow> queried r'"
  unfolding queried_def using evolves_govern[of r r'] by (fastforce simp: later_def)

lemma evolves_belongs: "evolves r r' \<Longrightarrow> belongs r e \<Longrightarrow> belongs r' e"
  unfolding belongs_def using evolves_govern[of r r'] by (fastforce simp: later_def)

text \<open>A step of the request counts at most once, and only a response that was not settled, for the
  request's own zone and client; it asks Redis at most once, and only if it was not asked; and it
  sends the script's call only along with a count.\<close>

definition fair :: "request \<Rightarrow> effects \<Rightarrow> request \<Rightarrow> bool" where
  "fair r e r' \<longleftrightarrow>
     (fst e = [] \<or> (\<exists>x. fst e = [x] \<and> belongs r' x \<and> \<not> settled r \<and> settled r'))
   \<and> (filter (command_is ''GET'') (snd e) = []
      \<or> (\<exists>x. filter (command_is ''GET'') (snd e) = [x]) \<and> \<not> queried r \<and> queried r')
   \<and> length (filter (command_is ''EVALSHA'') (snd e)) \<le> length (fst e)"

lemma fair_none: "wd_records W' = wd_records W \<Longrightarrow> wk_calls (wd_worker W') = wk_calls (wd_worker W) \<Longrightarrow>
    fair r (effects_of W W') r'"
  by (simp add: fair_def effects_of_def)

section \<open>The preaccess handler\<close>

lemma keys_flags:
  assumes "ea_redis_keys rcf z alloc c = Some (rc, c', ev, bl)"
  shows "rx_redis_pending c' = rx_redis_pending c" "rx_redis_checked c' = rx_redis_checked c"
  using assms by (auto simp: ea_redis_keys_def Let_def split: if_splits option.splits Option.bind_splits)

text \<open>The check of Redis: nothing is sent, or one \<^verbatim>\<open>GET\<close>, and then it is on the record of the context.\<close>

lemma check_calls:
  assumes "ea_redis_check rcf z now alloc queue_ok w c = Some (rc, w', c', parked)"
  shows "wk_calls w' = wk_calls w
     \<or> (\<exists>b. wk_calls w' = wk_calls w @ [H_COMMAND [ascii ''GET'', b]]) \<and> \<not> rx_redis_pending c
        \<and> (rx_redis_pending c' \<or> rx_redis_checked c')"
  using assms unfolding ea_redis_check_def
  by (auto simp: Let_def keys_flags split: if_splits Option.bind_splits dest!: failure_calls)

lemma verdict_calls:
  assumes "preaccess_verdict S now conf zi z i c W r = Some (rc, W', r')"
  shows "wd_worker W' = wd_worker W \<and> wd_records W' = wd_records W
     \<and> (\<exists>c'. r' = put_ctx i c' r \<and> rx_redis_pending c' = rx_redis_pending c \<and> rx_redis_checked c' = rx_redis_checked c)"
  using assms unfolding preaccess_verdict_def preaccess_banned_def
  by (auto simp: Let_def split: if_splits Option.bind_splits) (rule exI, rule conjI, rule refl, simp)+

lemma client_calls:
  assumes "preaccess_client S alloc queue_ok now conf zi z i c W r = Some (rc, W', r')"
  shows "wd_records W' = wd_records W \<and> (\<exists>c' k. r' = (put_ctx i c' r) \<lparr> rq_parked := k \<rparr>
     \<and> (wk_calls (wd_worker W') = wk_calls (wd_worker W)
        \<or> (\<exists>b. wk_calls (wd_worker W') = wk_calls (wd_worker W) @ [H_COMMAND [ascii ''GET'', b]])
           \<and> \<not> rx_redis_pending c \<and> \<not> rx_redis_checked c \<and> (rx_redis_pending c' \<or> rx_redis_checked c')))"
proof (cases "z_redis z \<and> \<not> rx_redis_checked c")
  case False
  then have "preaccess_verdict S now conf zi z i c W r = Some (rc, W', r')"
    using assms False by (auto simp: preaccess_client_def split: if_splits)
  from verdict_calls[OF this] obtain c' where v: "wd_worker W' = wd_worker W" "wd_records W' = wd_records W" "r' = put_ctx i c' r"
    by blast
  then show ?thesis using parked_same[of "put_ctx i c' r"] by (metis (no_types))
next
  case True
  obtain rc1 w1 c1 parked where k: "ea_redis_check (st_redis S) z now alloc queue_ok (wd_worker W) c = Some (rc1, w1, c1, parked)"
    using True assms by (auto simp: preaccess_client_def split: Option.bind_splits)
  note calls = check_calls[OF k]
  define r1 where "r1 = (if parked then r \<lparr> rq_parked := rq_parked r + 1 \<rparr> else r)"
  have put: "put_ctx i x r1 = (put_ctx i x r) \<lparr> rq_parked := rq_parked r1 \<rparr>" for x
    using parked_same[of "put_ctx i x r"] by (simp add: r1_def put_ctx_def)
  show ?thesis
  proof (cases "rc1 = NGX_AGAIN")
    case again: True
    have "W' = W \<lparr> wd_worker := w1 \<rparr>" "r' = put_ctx i c1 r1"
      using assms k True again by (simp_all add: preaccess_client_def r1_def)
    then show ?thesis using calls True put[of c1] by (intro conjI exI[of _ c1] exI[of _ "rq_parked r1"]) auto
  next
    case False
    have "preaccess_verdict S now conf zi z i c1 (W \<lparr> wd_worker := w1 \<rparr>) (put_ctx i c1 r1) = Some (rc, W', r')"
      using assms k True False by (simp add: preaccess_client_def r1_def)
    from verdict_calls[OF this] obtain c' where v: "wd_worker W' = w1" "wd_records W' = wd_records W" "r' = put_ctx i c' r1"
      "rx_redis_pending c' = rx_redis_pending c1" "rx_redis_checked c' = rx_redis_checked c1" by auto
    then show ?thesis using calls True put[of c'] by (intro conjI exI[of _ c'] exI[of _ "rq_parked r1"]) auto
  qed
qed

text \<open>Either the handler does nothing outside the request, or it comes to a client.\<close>

lemma preaccess_cases:
  assumes S: "site_ok S" and r: "rq_inv S r" and conf: "conf_ok S conf"
    and run: "ea_preaccess S p alloc queue_ok now conf W r = Some (rc, W', r')"
  obtains (apart) "W' = W"
    | (client) i zi r1 where "prepared S r (Some i) r1" "rx_zone (rq_pool r1 ! i) = Some zi"
        "preaccess_client S alloc queue_ok now conf zi (st_zones S ! zi) i (rq_pool r1 ! i) W r1 = Some (rc, W', r')"
proof (cases "rq_main r")
  case False
  then show ?thesis using apart run by (simp add: ea_preaccess_def)
next
  case True
  have doc: "digest_doc (st_ngx S)" using S by (simp add: site_ok_def)
  obtain c r1 where c: "ea_prepare_ctx (st_ngx S) p conf r = Some (c, r1)" "prepared S r c r1"
    using prepare_ok[OF r conf doc] by blast
  show ?thesis using preaccess_main[OF True c, of alloc queue_ok now W] run c(2) apart client
    by (auto split: option.splits)
qed

lemma preaccess_fair:
  assumes S: "site_ok S" and r: "rq_inv S r" and conf: "conf_ok S conf"
    and run: "ea_preaccess S p alloc queue_ok now conf W r = Some (rc, W', r')"
  shows "fair r (effects_of W W') r'" "wd_records W' = wd_records W"
    "wk_calls (wd_worker W') = wk_calls (wd_worker W)
      \<or> (\<exists>b. wk_calls (wd_worker W') = wk_calls (wd_worker W) @ [H_COMMAND [ascii ''GET'', b]])"
proof -
  have "fair r (effects_of W W') r' \<and> wd_records W' = wd_records W
    \<and> (wk_calls (wd_worker W') = wk_calls (wd_worker W)
      \<or> (\<exists>b. wk_calls (wd_worker W') = wk_calls (wd_worker W) @ [H_COMMAND [ascii ''GET'', b]]))"
  proof (cases rule: preaccess_cases[OF assms, case_names apart client])
    case apart
    then show ?thesis by (simp add: fair_none)
  next
    case (client i zi r1)
    note pr = prepared_run[OF client(1,2)]
    have inv: "rq_inv S r1" "evolves r r1" using client(1) by (simp_all add: prepared_def)
    let ?c = "rq_pool r1 ! i"
    from client_calls[OF client(3)] obtain c' k where w: "wd_records W' = wd_records W" "r' = (put_ctx i c' r1) \<lparr> rq_parked := k \<rparr>"
      "wk_calls (wd_worker W') = wk_calls (wd_worker W)
        \<or> (\<exists>b. wk_calls (wd_worker W') = wk_calls (wd_worker W) @ [H_COMMAND [ascii ''GET'', b]])
           \<and> \<not> rx_redis_pending ?c \<and> \<not> rx_redis_checked ?c \<and> (rx_redis_pending c' \<or> rx_redis_checked c')" by blast
    have g: "govern r' = Some c'" using govern_put_ctx[OF inv(1) pr(1), of c'] w(2) by simp
    have "\<not> queried r" if "\<not> rx_redis_pending ?c" "\<not> rx_redis_checked ?c"
      using evolves_queried[OF inv(2)] that pr(6) by (auto simp: queried_def)
    moreover have "\<not> command_is ''EVALSHA'' (H_COMMAND [ascii ''GET'', b])" for b by (simp add: ascii_def)
    ultimately show ?thesis using w g by (auto simp: fair_def effects_of_def queried_def)
  qed
  then show "fair r (effects_of W W') r'" "wd_records W' = wd_records W"
    "wk_calls (wd_worker W') = wk_calls (wd_worker W)
      \<or> (\<exists>b. wk_calls (wd_worker W') = wk_calls (wd_worker W) @ [H_COMMAND [ascii ''GET'', b]])" by simp_all
qed

text \<open>What it may do to a store: clients are aged out, brought to the front, rid of an ended ban or of old
  events; nobody and nothing is added, and no ban that lasts is lost.\<close>

definition only_aged :: "time \<Rightarrow> client list \<Rightarrow> client list \<Rightarrow> bool" where
  "only_aged now cs cs' \<longleftrightarrow> (\<forall>k u. now < u \<and> banned k u cs \<longrightarrow> banned k u cs')
     \<and> (\<forall>c' \<in> set cs'. \<exists>c \<in> set cs. c_key c' = c_key c \<and> set (c_events c') \<subseteq> set (c_events c) \<and> c_ban c' \<in> {0, c_ban c})"

lemma only_aged_refl: "only_aged now cs cs"
  by (auto simp: only_aged_def)

lemma is_blocked_only_ages:
  assumes "distinct (map c_key cs)" "a_is_blocked z now k cs = (rc, out, cs')"
  shows "only_aged now cs cs'"
proof -
  have sub: "set (a_drop k (a_expire z now 2 cs)) \<subseteq> set cs" "set (a_expire z now 2 cs) \<subseteq> set cs"
    using expire_prefix[of z now 2 cs] by (auto simp: a_drop_def dest: in_set_takeD)
  have "\<forall>c' \<in> set cs'. \<exists>c \<in> set cs. c_key c' = c_key c \<and> set (c_events c') \<subseteq> set (c_events c) \<and> c_ban c' \<in> {0, c_ban c}"
  proof (cases rule: find_touch_cases[of z now k cs])
    case untracked
    then show ?thesis using assms(2) sub by (auto simp: a_is_blocked_def)
  next
    case (tracked c)
    then have cs': "cs' = snd (snd (client_is_blocked z now (c \<lparr> c_seen := now \<rparr>))) # a_drop k (a_expire z now 2 cs)"
      using assms(2) by (auto simp: a_is_blocked_def Let_def split: prod.splits)
    have "set (in_window z now (c_events c)) \<subseteq> set (c_events c)" by (rule set_in_window)
    then show ?thesis unfolding cs' using tracked(3) sub by (auto simp: client_is_blocked_def Let_def)
  qed
  then show ?thesis using is_blocked_banned(1)[OF assms(1) _ _ assms(2)] by (auto simp: only_aged_def)
qed

lemma verdict_store:
  assumes "store_doc (st_ngx S)" "wf_zone z" "wf_sh (st_ngx S) z (wd_stores W ! zi)" "clock_ok now"
    and "preaccess_verdict S now conf zi z i c W r = Some (rc, W', r')"
  shows "\<exists>sh'. (wd_stores W' = wd_stores W \<or> wd_stores W' = (wd_stores W)[zi := sh'])
     \<and> only_aged now (zabs (wd_stores W ! zi)) (zabs sh')"
proof (cases "rx_redis_blocked c")
  case True
  then have "wd_stores W' = wd_stores W" using assms(5)
    by (auto simp: preaccess_verdict_def preaccess_banned_def Let_def split: if_splits)
  then show ?thesis using only_aged_refl by blast
next
  case False
  obtain rc1 out sh' where b: "ea_is_blocked (st_ngx S) z (wd_stores W ! zi) (rx_key c) now = Some (rc1, out, sh')"
    "(rc1, out, zabs sh') = a_is_blocked z now (rx_key c) (zabs (wd_stores W ! zi))"
    using is_blocked_refines[OF assms(1-4)] by blast
  have "wd_stores W' = (wd_stores W)[zi := sh']" using assms(5) False b(1)
    by (auto simp: preaccess_verdict_def preaccess_banned_def Let_def at_idx_def split: if_splits Option.bind_splits)
  then show ?thesis using is_blocked_only_ages[OF wf_zabs_keys[OF assms(3)] b(2)[symmetric]] by blast
qed

lemma client_store:
  assumes "store_doc (st_ngx S)" "wf_zone z" "wf_sh (st_ngx S) z (wd_stores W ! zi)" "clock_ok now"
    and "preaccess_client S alloc queue_ok now conf zi z i c W r = Some (rc, W', r')"
  shows "\<exists>sh'. (wd_stores W' = wd_stores W \<or> wd_stores W' = (wd_stores W)[zi := sh'])
     \<and> only_aged now (zabs (wd_stores W ! zi)) (zabs sh')"
proof -
  consider (verdict) c1 w r1 where "preaccess_verdict S now conf zi z i c1 (W \<lparr> wd_worker := w \<rparr>) r1 = Some (rc, W', r')"
    | (direct) "preaccess_verdict S now conf zi z i c W r = Some (rc, W', r')" | (same) "wd_stores W' = wd_stores W"
    using assms(5) by (auto simp: preaccess_client_def Let_def split: if_splits Option.bind_splits)
  then show ?thesis
  proof cases
    case (verdict c1 w r1)
    from verdict_store[OF assms(1,2) _ assms(4) this] show ?thesis using assms(3) by simp
  next
    case direct
    from verdict_store[OF assms(1-4) this] show ?thesis .
  next
    case same
    then show ?thesis using only_aged_refl by blast
  qed
qed

lemma preaccess_store:
  assumes S: "site_ok S" and r: "rq_inv S r" and conf: "conf_ok S conf" and W: "world_inv S t W" and now: "clock_ok now"
    and run: "ea_preaccess S p alloc queue_ok now conf W r = Some (rc, W', r')" and j: "j < length (st_zones S)"
  shows "only_aged now (zabs (wd_stores W ! j)) (zabs (wd_stores W' ! j))"
proof (cases rule: preaccess_cases[OF S r conf run, case_names apart client])
  case apart
  then show ?thesis by (simp add: only_aged_refl)
next
  case (client i zi r1)
  note pr = prepared_run[OF client(1,2)]
  have "store_doc (st_ngx S)" using S by (simp add: site_ok_def)
  moreover have "wf_sh (st_ngx S) (st_zones S ! zi) (wd_stores W ! zi)" using W pr(3) by (simp add: world_inv_def)
  ultimately obtain sh' where "wd_stores W' = wd_stores W \<or> wd_stores W' = (wd_stores W)[zi := sh']"
    "only_aged now (zabs (wd_stores W ! zi)) (zabs sh')"
    using client_store[OF _ site_zone(1)[OF S pr(3)] _ now client(3)] by blast
  moreover have "zi < length (wd_stores W)" using W pr(3) by (simp add: world_inv_def)
  ultimately show ?thesis using only_aged_refl by (cases "j = zi") auto
qed

section \<open>The header filter\<close>

lemma record_calls:
  assumes "ea_redis_record fmt sha rcf z now alloc w c = Some (w', c')"
  shows "wk_calls w' = wk_calls w \<or> (\<exists>args. wk_calls w' = wk_calls w @ [H_COMMAND (ascii ''EVALSHA'' # args)])"
  using assms unfolding ea_redis_record_def record_command_def
  by (auto simp: Let_def split: if_splits Option.bind_splits)

lemma filter_record_calls:
  assumes "filter_record S alloc now conf zi z i c W r = Some (res, W', r')"
  shows "wd_records W' = wd_records W @ [(zi, rx_key c, now)]
     \<and> (wk_calls (wd_worker W') = wk_calls (wd_worker W)
        \<or> (\<exists>args. wk_calls (wd_worker W') = wk_calls (wd_worker W) @ [H_COMMAND (ascii ''EVALSHA'' # args)]))"
proof -
  obtain rc n u W1 where k: "call_record S now zi z c W = Some (rc, (n, u), W1)"
    using assms by (auto simp: filter_record_def split: Option.bind_splits)
  have W1: "wd_records W1 = wd_records W @ [(zi, rx_key c, now)]" "wd_worker W1 = wd_worker W"
    using k by (auto simp: call_record_def split: Option.bind_splits)
  let ?c = "c \<lparr> rx_count := n, rx_blocked_until := u \<rparr>"
  obtain w c1 where told: "(if z_redis z then ea_redis_record (st_fmt S) (st_sha S) (st_redis S) z now alloc (wd_worker W1) ?c
      else Some (wd_worker W1, ?c)) = Some (w, c1)"
    using assms k by (cases "z_redis z") (auto simp: filter_record_def Let_def split: Option.bind_splits)
  have w: "wk_calls w = wk_calls (wd_worker W) \<or> (\<exists>args. wk_calls w = wk_calls (wd_worker W) @ [H_COMMAND (ascii ''EVALSHA'' # args)])"
    using told record_calls W1(2) by (cases "z_redis z") force+
  have "wd_records W' = wd_records W1 \<and> wd_worker W' = w"
    using assms k told by (auto simp: filter_record_def Let_def split: if_splits)
  then show ?thesis using W1(1) w by simp
qed

lemma filter_client_calls:
  assumes S: "site_ok S" "zi < length (st_zones S)"
    and run: "filter_client S fm alloc now conf zi (st_zones S ! zi) i c W r = Some (res, W', r')"
  shows "wd_records W' = wd_records W \<and> wk_calls (wd_worker W') = wk_calls (wd_worker W)
     \<or> \<not> rx_own_rejection c \<and> rx_state c \<noteq> DRY_RUN \<and> watched S zi r \<and> \<not> ea_effective_dry_run c conf
        \<and> wd_records W' = wd_records W @ [(zi, rx_key c, now)]
        \<and> (wk_calls (wd_worker W') = wk_calls (wd_worker W)
           \<or> (\<exists>args. wk_calls (wd_worker W') = wk_calls (wd_worker W) @ [H_COMMAND (ascii ''EVALSHA'' # args)]))"
proof -
  note eq = filter_client_cases[OF S, of fm alloc now conf i c W r]
  let ?d = "mark_seen conf c"
  consider (own) "rx_own_rejection c" | (quiet) "\<not> rx_own_rejection c" "rx_state c = DRY_RUN \<or> \<not> watched S zi r"
    | (dry) "\<not> rx_own_rejection c" "rx_state c \<noteq> DRY_RUN" "watched S zi r" "ea_effective_dry_run c conf"
    | (count) "\<not> rx_own_rejection c" "rx_state c \<noteq> DRY_RUN" "watched S zi r" "\<not> ea_effective_dry_run c conf" by blast
  then show ?thesis
  proof cases
    case own
    then show ?thesis using run eq by (auto split: Option.bind_splits)
  next
    case quiet
    then show ?thesis using run eq by auto
  next
    case dry
    then have "filter_dry_run S now conf zi (st_zones S ! zi) i ?d W (put_ctx i ?d r) = Some (res, W', r')" using run eq by simp
    then have "wd_records W' = wd_records W \<and> wk_calls (wd_worker W') = wk_calls (wd_worker W)"
      by (auto simp: filter_dry_run_def Let_def split: Option.bind_splits if_splits)
    then show ?thesis by blast
  next
    case count
    then have "filter_record S alloc now conf zi (st_zones S ! zi) i ?d W (put_ctx i ?d r) = Some (res, W', r')" using run eq by simp
    from filter_record_calls[OF this] show ?thesis using count by simp
  qed
qed

text \<open>Either the filter does nothing outside the request, or it comes to a client whose response it sees for
  the first time.\<close>

lemma filter_cases:
  assumes S: "site_ok S" and r: "rq_inv S r" and conf: "conf_ok S conf"
    and run: "ea_header_filter S p fm alloc now conf W r = Some (res, W', r')"
  obtains (apart) "W' = W"
    | (client) i zi r1 where "rq_main r1" "ea_prepare_ctx (st_ngx S) p conf r = Some (Some i, r1)" "prepared S r (Some i) r1"
        "rx_zone (rq_pool r1 ! i) = Some zi" "\<not> rx_response_seen (rq_pool r1 ! i)"
        "filter_client S fm alloc now conf zi (st_zones S ! zi) i (rq_pool r1 ! i) W r1 = Some (res, W', r')"
proof (cases "rq_main r")
  case False
  then show ?thesis using apart run by (simp add: ea_header_filter_def)
next
  case True
  have doc: "digest_doc (st_ngx S)" using S by (simp add: site_ok_def)
  obtain c r1 where c: "ea_prepare_ctx (st_ngx S) p conf r = Some (c, r1)" "prepared S r c r1"
    using prepare_ok[OF r conf doc] by blast
  have "rq_main r1" using c(2) True by (simp add: prepared_def same_rest_def)
  then show ?thesis using filter_main[OF True c, of fm alloc now W] run c apart client
    by (auto split: option.splits if_splits)
qed

lemma filter_records:
  assumes S: "site_ok S" and r: "rq_inv S r" and conf: "conf_ok S conf"
    and run: "ea_header_filter S p fm alloc now conf W r = Some (res, W', r')" and no: "\<not> filter_counts S p conf r"
  shows "wd_records W' = wd_records W"
proof (cases rule: filter_cases[OF S r conf run, case_names apart client])
  case (client i zi r1)
  from filter_client_calls[OF S prepared_run(3)[OF client(3,4)] client(6)] show ?thesis
    using no client by (auto simp: filter_counts_def counts_def watched_def)
qed simp

lemma filter_fair:
  assumes S: "site_ok S" and r: "rq_inv S r" "parked_inv r" and conf: "conf_ok S conf"
    and W: "world_inv S t W" and now: "t \<le> now" "clock_ok now" and alloc: "alloc_doc alloc"
    and run: "ea_header_filter S p fm alloc now conf W r = Some (res, W', r')"
  shows "fair r (effects_of W W') r'"
proof (cases rule: filter_cases[OF S r(1) conf run, case_names apart client])
  case apart
  then show ?thesis by (simp add: fair_none)
next
  case (client i zi r1)
  note pr = prepared_run[OF client(3,4)]
  let ?c = "rq_pool r1 ! i"
  from filter_client_calls[OF S pr(3) client(6)] show ?thesis
  proof
    assume "wd_records W' = wd_records W \<and> wk_calls (wd_worker W') = wk_calls (wd_worker W)"
    then show ?thesis by (simp add: fair_none)
  next
    assume n: "\<not> rx_own_rejection ?c \<and> rx_state ?c \<noteq> DRY_RUN \<and> watched S zi r1 \<and> \<not> ea_effective_dry_run ?c conf
      \<and> wd_records W' = wd_records W @ [(zi, rx_key ?c, now)]
      \<and> (wk_calls (wd_worker W') = wk_calls (wd_worker W)
         \<or> (\<exists>args. wk_calls (wd_worker W') = wk_calls (wd_worker W) @ [H_COMMAND (ascii ''EVALSHA'' # args)]))"
    then have cnt: "filter_counts S p conf r" using client by (auto simp: filter_counts_def counts_def watched_def)
    have "filters S conf (filter_counts S p conf r) r W res r' W'"
      by (rule filter_ok[OF S r conf W now alloc, of p fm]) (use run in simp)
    then have f: "settled r'" "\<not> settled r" using cnt by (auto simp: filters_def settled_def)
    have inv: "rq_inv S r1" and doc: "digest_doc (st_ngx S)" using client(3) S by (simp_all add: prepared_def site_ok_def)
    have p1: "ea_prepare_ctx (st_ngx S) p conf r1 = Some (Some i, r1)" using pr(7) by (simp add: ea_prepare_ctx_def)
    then have "prepared S r1 (Some i) r1" using prepare_ok[OF inv conf doc, of p] by auto
    from filter_main[OF client(1) p1 this, of fm alloc now W] client(4-6)
    have again: "ea_header_filter S p fm alloc now conf W r1 = Some (res, W', r')" by simp
    have s: "serves S now r1 W r' W'"
      by (rule filter_ok[OF S inv prepared_parked[OF client(3) r(2)] conf W now alloc, of p fm]) (use again in simp)
    have "belongs r1 (zi, rx_key ?c, now)" using pr(6) client(4) by (simp add: belongs_def)
    moreover have "evolves r1 r'" using s by (simp add: serves_def)
    ultimately have "belongs r' (zi, rx_key ?c, now)" by (rule evolves_belongs[rotated])
    moreover have "\<not> command_is ''GET'' (H_COMMAND (ascii ''EVALSHA'' # args))" for args by (simp add: ascii_def)
    ultimately show ?thesis using n f by (auto simp: fair_def effects_of_def)
  qed
qed

section \<open>The answer of Redis\<close>

lemma reply_fair: "ea_check_reply S reply now W r = Some (W', r') \<Longrightarrow> fair r (effects_of W W') r'"
  by (rule fair_none) (auto simp: ea_check_reply_def split: option.splits Option.bind_splits dest: callback_calls)

end
