(* ===== verification/EA_Life.thy ===== *)
theory EA_Life
  imports EA_Calls
begin

text \<open>
  The life of a request as a step relation: the handlers, the answers of Redis, internal redirects and
  what nginx and other modules do to the request, interleaved with any operations of other requests
  on the zones and on the Redis worker.
\<close>

section \<open>The steps\<close>

text \<open>A label says what a handler answered, and what it did outside the request: which calls of
  \<^verbatim>\<open>ea_record\<close> and of hiredis it made.\<close>

datatype slabel =
    SL_PREACCESS ngx_rc effects | SL_FILTER hf_result effects | SL_REPLY effects | SL_REDIRECT | SL_RESPONSE | SL_CLEANUP | SL_OTHERS

inductive serve_step ::
  "'s site \<Rightarrow> time \<times> 's world \<times> request \<Rightarrow> slabel \<Rightarrow> time \<times> 's world \<times> request \<Rightarrow> bool" for S where
  ss_preaccess: "t \<le> now \<Longrightarrow> clock_ok now \<Longrightarrow> conf_ok S conf \<Longrightarrow> alloc_doc alloc \<Longrightarrow>
     ea_preaccess S p alloc queue_ok now conf W r = Some (rc, W', r') \<Longrightarrow>
     serve_step S (t, W, r) (SL_PREACCESS rc (effects_of W W')) (now, W', r')"
| ss_filter: "t \<le> now \<Longrightarrow> clock_ok now \<Longrightarrow> conf_ok S conf \<Longrightarrow> alloc_doc alloc \<Longrightarrow>
     ea_header_filter S p fm alloc now conf W r = Some (res, W', r') \<Longrightarrow>
     serve_step S (t, W, r) (SL_FILTER res (effects_of W W')) (now, W', r')"
| ss_reply: "t \<le> now \<Longrightarrow> clock_ok now \<Longrightarrow> 0 < rq_parked r \<Longrightarrow>
     ea_check_reply S reply now W r = Some (W', r') \<Longrightarrow>
     serve_step S (t, W, r) (SL_REPLY (effects_of W W')) (now, W', r')"
| ss_redirect: "rq_parked r = 0 \<Longrightarrow> serve_step S (t, W, r) SL_REDIRECT (t, W, r \<lparr> rq_ctx := None \<rparr>)"
| ss_response: "(\<And>i. lm = Some i \<Longrightarrow> i < length hs) \<Longrightarrow>
     serve_step S (t, W, r) SL_RESPONSE
       (t, W, r \<lparr> rq_status := s, rq_headers := hs, rq_last_modified_time := lt, rq_last_modified := lm \<rparr>)"
| ss_cleanup: "serve_step S (t, W, r) SL_CLEANUP (t, W, r \<lparr> rq_cleanup := CLN_OTHER # rq_cleanup r \<rparr>)"
| ss_others: "length (wd_stores W') = length (wd_stores W) \<Longrightarrow> t \<le> now \<Longrightarrow>
     (\<And>i. i < length (st_zones S) \<Longrightarrow>
        \<exists>tr. zone_run (st_ngx S) (st_zones S ! i) (t, wd_stores W ! i) tr (now, wd_stores W' ! i)) \<Longrightarrow>
     worker_run (st_ngx S) (st_fmt S) (st_sha S) script (st_redis S) (t, wd_worker W) wtr (now, wd_worker W') \<Longrightarrow>
     serve_step S (t, W, r) SL_OTHERS (now, W', r)"

inductive_cases serve_stepE: "serve_step S s l s'"

abbreviation serve_run where "serve_run S \<equiv> run (serve_step S)"

abbreviation sv_world :: "time \<times> 's world \<times> request \<Rightarrow> 's world" where "sv_world s \<equiv> fst (snd s)"
abbreviation sv_req :: "time \<times> 's world \<times> request \<Rightarrow> request" where "sv_req s \<equiv> snd (snd s)"

definition serve_inv :: "'s site \<Rightarrow> time \<times> 's world \<times> request \<Rightarrow> bool" where
  "serve_inv S s \<longleftrightarrow> site_ok S \<and> world_inv S (fst s) (sv_world s) \<and> rq_inv S (sv_req s) \<and> parked_inv (sv_req s)"

section \<open>Every step keeps the invariant\<close>

text \<open>What each kind of step does.\<close>

definition own_step :: "'s site \<Rightarrow> time \<times> 's world \<times> request \<Rightarrow> time \<times> 's world \<times> request \<Rightarrow> bool" where
  "own_step S s s' \<longleftrightarrow> fst s \<le> fst s' \<and> serves S (fst s') (sv_req s) (sv_world s) (sv_req s') (sv_world s')"

definition label_ok :: "'s site \<Rightarrow> time \<times> 's world \<times> request \<Rightarrow> slabel \<Rightarrow> time \<times> 's world \<times> request \<Rightarrow> bool" where
  "label_ok S s l s' \<longleftrightarrow> (case l of
      SL_PREACCESS rc e \<Rightarrow> own_step S s s' \<and> fair (sv_req s) e (sv_req s') \<and> (\<exists>conf. conf_ok S conf
        \<and> answers conf (sv_req s) (sv_world s) rc (sv_req s') (sv_world s'))
    | SL_FILTER res e \<Rightarrow> own_step S s s' \<and> fair (sv_req s) e (sv_req s') \<and> (\<exists>conf counted. conf_ok S conf
        \<and> filters S conf counted (sv_req s) (sv_world s) res (sv_req s') (sv_world s'))
    | SL_REPLY e \<Rightarrow> own_step S s s' \<and> fair (sv_req s) e (sv_req s') \<and> wd_stores (sv_world s') = wd_stores (sv_world s)
    | SL_OTHERS \<Rightarrow> fst s \<le> fst s' \<and> sv_req s' = sv_req s
    | _ \<Rightarrow> fst s' = fst s \<and> sv_world s' = sv_world s \<and> evolves (sv_req s) (sv_req s') \<and> govern (sv_req s') = govern (sv_req s))"

lemma own_step_inv: "serve_inv S s \<Longrightarrow> own_step S s s' \<Longrightarrow> serve_inv S s' \<and> evolves (sv_req s) (sv_req s') \<and> fst s \<le> fst s'"
  using serves_world[of S "fst s" "sv_world s" "fst s'" "sv_req s" "sv_req s'" "sv_world s'"]
  unfolding serve_inv_def own_step_def by (simp add: serves_def)

lemma others_inv:
  assumes "serve_inv S (t, W, r)" "length (wd_stores W') = length (wd_stores W)" "t \<le> now"
    and "\<And>i. i < length (st_zones S) \<Longrightarrow> \<exists>tr. zone_run (st_ngx S) (st_zones S ! i) (t, wd_stores W ! i) tr (now, wd_stores W' ! i)"
    and "worker_run (st_ngx S) (st_fmt S) (st_sha S) script (st_redis S) (t, wd_worker W) wtr (now, wd_worker W')"
  shows "serve_inv S (now, W', r)"
proof -
  have S: "site_ok S" and W: "world_inv S t W" using assms(1) by (simp_all add: serve_inv_def)
  have "wf_sh (st_ngx S) (st_zones S ! i) (wd_stores W' ! i)" if i: "i < length (st_zones S)" for i
  proof -
    obtain tr where "zone_run (st_ngx S) (st_zones S ! i) (t, wd_stores W ! i) tr (now, wd_stores W' ! i)"
      using assms(4)[OF i] by blast
    from zn.run_inv[OF this site_zone_inv[OF S W i]] show ?thesis by (simp add: zone_inv_def)
  qed
  moreover have "wk_inv (now, wd_worker W')"
    using wk.run_inv[OF assms(5)] W by (simp add: world_inv_def)
  ultimately have "world_inv S now W'" using assms(2) W by (simp add: world_inv_def)
  then show ?thesis using assms(1) by (simp add: serve_inv_def)
qed

lemma env_step_inv:
  assumes "rq_inv S r" "parked_inv r"
  shows "rq_parked r = 0 \<Longrightarrow> rq_inv S (r \<lparr> rq_ctx := None \<rparr>) \<and> parked_inv (r \<lparr> rq_ctx := None \<rparr>)"
    "(\<And>i. lm = Some i \<Longrightarrow> i < length hs) \<Longrightarrow>
      rq_inv S (r \<lparr> rq_status := s, rq_headers := hs, rq_last_modified_time := lt, rq_last_modified := lm \<rparr>)
      \<and> parked_inv (r \<lparr> rq_status := s, rq_headers := hs, rq_last_modified_time := lt, rq_last_modified := lm \<rparr>)"
    "rq_inv S (r \<lparr> rq_cleanup := CLN_OTHER # rq_cleanup r \<rparr>) \<and> parked_inv (r \<lparr> rq_cleanup := CLN_OTHER # rq_cleanup r \<rparr>)"
proof -
  show "rq_parked r = 0 \<Longrightarrow> rq_inv S (r \<lparr> rq_ctx := None \<rparr>) \<and> parked_inv (r \<lparr> rq_ctx := None \<rparr>)"
    using assms by (auto simp: rq_inv_def parked_inv_def govern_def split: option.splits if_splits)
  show "rq_inv S (r \<lparr> rq_cleanup := CLN_OTHER # rq_cleanup r \<rparr>) \<and> parked_inv (r \<lparr> rq_cleanup := CLN_OTHER # rq_cleanup r \<rparr>)"
    using assms by (simp add: rq_inv_def parked_inv_def govern_def split: option.splits)
  show "(\<And>i. lm = Some i \<Longrightarrow> i < length hs) \<Longrightarrow>
      rq_inv S (r \<lparr> rq_status := s, rq_headers := hs, rq_last_modified_time := lt, rq_last_modified := lm \<rparr>)
      \<and> parked_inv (r \<lparr> rq_status := s, rq_headers := hs, rq_last_modified_time := lt, rq_last_modified := lm \<rparr>)"
    using assms by (simp add: rq_inv_def parked_inv_def govern_def split: option.splits)
qed

lemma env_step_evolves:
  "evolves r (r \<lparr> rq_ctx := None \<rparr>)" "govern (r \<lparr> rq_ctx := None \<rparr>) = govern r"
  "evolves r (r \<lparr> rq_status := s, rq_headers := hs, rq_last_modified_time := lt, rq_last_modified := lm \<rparr>)"
  "govern (r \<lparr> rq_status := s, rq_headers := hs, rq_last_modified_time := lt, rq_last_modified := lm \<rparr>) = govern r"
  "evolves r (r \<lparr> rq_cleanup := CLN_OTHER # rq_cleanup r \<rparr>)" "govern (r \<lparr> rq_cleanup := CLN_OTHER # rq_cleanup r \<rparr>) = govern r"
  by (cases "anchor r"; simp add: evolves_def govern_def)+

lemma serve_step_ok:
  assumes "serve_step S s l s'" "serve_inv S s"
  shows "serve_inv S s' \<and> label_ok S s l s' \<and> evolves (sv_req s) (sv_req s') \<and> fst s \<le> fst s'"
  using assms(1)
proof cases
  case (ss_preaccess t now conf alloc p queue_ok W r rc W' r')
  have i: "site_ok S" "rq_inv S r" "parked_inv r" "world_inv S t W" using assms(2) ss_preaccess by (simp_all add: serve_inv_def)
  have "serves S now r W r' W' \<and> answers conf r W rc r' W'"
  proof (rule preaccess_ok[OF i(1-3) ss_preaccess(6) i(4) ss_preaccess(4,5,7)])
    fix rc1 W1 r1
    assume "ea_preaccess S p alloc queue_ok now conf W r = Some (rc1, W1, r1)" "serves S now r W r1 W1" "answers conf r W rc1 r1 W1"
    then show ?thesis using ss_preaccess(8) by simp
  qed
  then have "own_step S s s'" "label_ok S s l s'"
    using ss_preaccess preaccess_fair(1)[OF i(1,2) ss_preaccess(6,8)] by (auto simp: own_step_def label_ok_def)
  then show ?thesis using own_step_inv[OF assms(2)] by blast
next
  case (ss_filter t now conf alloc p fm W r res W' r')
  have i: "site_ok S" "rq_inv S r" "parked_inv r" "world_inv S t W" using assms(2) ss_filter by (simp_all add: serve_inv_def)
  have "serves S now r W r' W' \<and> filters S conf (filter_counts S p conf r) r W res r' W'"
  proof (rule filter_ok[OF i(1-3) ss_filter(6) i(4) ss_filter(4,5,7)])
    fix res1 W1 r1
    assume "ea_header_filter S p fm alloc now conf W r = Some (res1, W1, r1)" "serves S now r W r1 W1"
      "filters S conf (filter_counts S p conf r) r W res1 r1 W1"
    then show ?thesis using ss_filter(8) by simp
  qed
  then have "own_step S s s'" "label_ok S s l s'"
    using ss_filter filter_fair[OF i(1-3) ss_filter(6) i(4) ss_filter(4,5,7,8)] by (auto simp: own_step_def label_ok_def)
  then show ?thesis using own_step_inv[OF assms(2)] by blast
next
  case (ss_reply t now r reply W W' r')
  have i: "site_ok S" "rq_inv S r" "parked_inv r" "world_inv S t W" using assms(2) ss_reply by (simp_all add: serve_inv_def)
  have "serves S now r W r' W' \<and> wd_stores W' = wd_stores W"
    by (rule reply_ok[OF i(1-3) ss_reply(6) i(4) ss_reply(4,5), of reply]) (use ss_reply(7) in simp)
  then have "own_step S s s'" "label_ok S s l s'"
    using ss_reply reply_fair[OF ss_reply(7)] by (auto simp: own_step_def label_ok_def)
  then show ?thesis using own_step_inv[OF assms(2)] by blast
next
  case (ss_redirect r t W)
  then show ?thesis using assms(2) env_step_inv(1)[of S r] env_step_evolves(1,2)[of r] by (simp add: serve_inv_def label_ok_def)
next
  case (ss_response lm hs t W r lt st)
  then show ?thesis using assms(2) env_step_inv(2)[where S = S and r = r and lm = lm and hs = hs and s = st and lt = lt]
      env_step_evolves(3,4)[where r = r and lm = lm and hs = hs and s = st and lt = lt]
    by (simp add: serve_inv_def label_ok_def)
next
  case (ss_cleanup t W r)
  then show ?thesis using assms(2) env_step_inv(3)[of S r] env_step_evolves(5,6)[of r] by (simp add: serve_inv_def label_ok_def)
next
  case (ss_others W' W t now script wtr r)
  then show ?thesis using others_inv[of S t W r W' now script wtr] assms(2) by (simp add: label_ok_def)
qed

section \<open>Through a whole run\<close>

text \<open>A ban in any store outlives every step of every request until it ends.\<close>

definition store_duty :: "'s site \<Rightarrow> nat \<Rightarrow> bytes \<Rightarrow> time \<Rightarrow> time \<times> 's world \<times> request \<Rightarrow> bool" where
  "store_duty S zi k u s \<longleftrightarrow> zi < length (st_zones S) \<and> banned k u (zabs (wd_stores (sv_world s) ! zi))"

lemma store_run_duty:
  assumes "site_ok S" "world_inv S t0 W" "zi < length (st_zones S)" "banned k u (zabs (wd_stores W ! zi))"
    and "zone_run (st_ngx S) (st_zones S ! zi) (t, wd_stores W ! zi) tr (now, sh')" "now < u"
  shows "banned k u (zabs sh')"
  using zn.run_duty[OF assms(5) site_zone_inv[OF assms(1-3)], of k u] assms(4,6) by (simp add: zone_duty_def)

lemma serve_step_duty:
  assumes inv: "serve_inv S s" and duty: "store_duty S zi k u s" and step: "serve_step S s l s'" and u: "fst s' < u"
  shows "store_duty S zi k u s'"
proof -
  have S: "site_ok S" "world_inv S (fst s) (sv_world s)" using inv by (simp_all add: serve_inv_def)
  have zi: "zi < length (st_zones S)" "banned k u (zabs (wd_stores (sv_world s) ! zi))"
    using duty by (simp_all add: store_duty_def)
  have own: "store_duty S zi k u s'" if "own_step S s s'"
  proof -
    have "same_world (sv_world s) (sv_world s') \<or> (\<exists>zj. world_step S (fst s') zj (sv_world s) (sv_world s'))"
      using that by (auto simp: own_step_def serves_def)
    then show ?thesis
    proof
      assume "same_world (sv_world s) (sv_world s')"
      then show ?thesis using duty by (simp add: store_duty_def same_world_def)
    next
      assume "\<exists>zj. world_step S (fst s') zj (sv_world s) (sv_world s')"
      then obtain zj where w: "world_step S (fst s') zj (sv_world s) (sv_world s')" by blast
      show ?thesis
      proof (cases "zi = zj")
        case True
        then obtain tr where "zone_run (st_ngx S) (st_zones S ! zi) (fst s', wd_stores (sv_world s) ! zi) tr
            (fst s', wd_stores (sv_world s') ! zi)" using w zi(1) by (auto simp: world_step_def)
        from store_run_duty[OF S zi this u] show ?thesis using zi(1) by (simp add: store_duty_def)
      next
        case False
        then show ?thesis using w zi by (simp add: world_step_def store_duty_def)
      qed
    qed
  qed
  have l: "label_ok S s l s'" using serve_step_ok[OF step inv] by blast
  show ?thesis
  proof (cases l)
    case SL_OTHERS
    from step[unfolded SL_OTHERS] obtain tr where
      "zone_run (st_ngx S) (st_zones S ! zi) (fst s, wd_stores (sv_world s) ! zi) tr (fst s', wd_stores (sv_world s') ! zi)"
      using zi(1) by (cases rule: serve_step.cases) auto
    from store_run_duty[OF S zi this u] show ?thesis using zi(1) by (simp add: store_duty_def)
  qed (use l own duty in \<open>auto simp: label_ok_def store_duty_def\<close>)
qed

interpretation sv: timed_system "serve_step S" "serve_inv S" fst "store_duty S zi k"
  for S :: "'s site" and zi k
  by unfold_locales (auto dest: serve_step_ok intro: serve_step_duty)

lemma serve_run_evolves: "serve_run S s tr s' \<Longrightarrow> serve_inv S s \<Longrightarrow> evolves (sv_req s) (sv_req s')"
proof (induction rule: run.induct)
  case (run_snoc s tr s' l s'')
  then have "evolves (sv_req s) (sv_req s')" "serve_inv S s'" using sv.run_inv by blast+
  then show ?case using serve_step_ok[OF run_snoc(2)] evolves_trans by blast
qed simp

text \<open>What the request's own steps did: the calls of \<^verbatim>\<open>ea_record\<close> and the commands of a kind.\<close>

fun own_effects :: "slabel \<Rightarrow> effects" where
  "own_effects (SL_PREACCESS _ e) = e"
| "own_effects (SL_FILTER _ e) = e"
| "own_effects (SL_REPLY e) = e"
| "own_effects _ = ([], [])"

definition records :: "slabel list \<Rightarrow> (nat \<times> bytes \<times> time) list" where
  "records tr = concat (map (\<lambda>l. fst (own_effects l)) tr)"

definition commands :: "string \<Rightarrow> slabel list \<Rightarrow> hcall list" where
  "commands name tr = filter (command_is name) (concat (map (\<lambda>l. snd (own_effects l)) tr))"

lemma effects_simps [simp]:
  "records [] = []" "commands name [] = []" "records (tr @ [l]) = records tr @ fst (own_effects l)"
  "commands name (tr @ [l]) = commands name tr @ filter (command_is name) (snd (own_effects l))"
  by (simp_all add: records_def commands_def)

lemma step_fair: "serve_step S s l s' \<Longrightarrow> serve_inv S s \<Longrightarrow> fair (sv_req s) (own_effects l) (sv_req s')"
  using serve_step_ok[of S s l s'] by (cases l) (auto simp: label_ok_def fair_def)

lemma run_once:
  assumes "serve_run S s tr s'" "serve_inv S s"
  shows "length (records tr) \<le> 1 \<and> (records tr \<noteq> [] \<longrightarrow> \<not> settled (sv_req s) \<and> settled (sv_req s'))
     \<and> (\<forall>x \<in> set (records tr). belongs (sv_req s') x)
     \<and> length (commands ''GET'' tr) \<le> 1 \<and> (commands ''GET'' tr \<noteq> [] \<longrightarrow> \<not> queried (sv_req s) \<and> queried (sv_req s'))
     \<and> length (commands ''EVALSHA'' tr) \<le> length (records tr)"
  using assms
proof (induction rule: run.induct)
  case (run_snoc s tr s' l s'')
  have inv: "serve_inv S s'" using sv.run_inv[OF run_snoc(1,4)] .
  have e: "evolves (sv_req s') (sv_req s'')" "evolves (sv_req s) (sv_req s')"
    using serve_step_ok[OF run_snoc(2) inv] serve_run_evolves[OF run_snoc(1,4)] by simp_all
  have f: "fair (sv_req s') (own_effects l) (sv_req s'')" by (rule step_fair[OF run_snoc(2) inv])
  note mono = evolves_settled[OF e(1)] evolves_settled[OF e(2)] evolves_queried[OF e(1)] evolves_queried[OF e(2)]
    evolves_belongs[OF e(1)]
  note IH = run_snoc(3)[OF run_snoc(4)]
  have a: "length (records (tr @ [l])) \<le> 1 \<and> (records (tr @ [l]) \<noteq> [] \<longrightarrow> \<not> settled (sv_req s) \<and> settled (sv_req s''))
      \<and> (\<forall>x \<in> set (records (tr @ [l])). belongs (sv_req s'') x)"
  proof (cases "fst (own_effects l) = []")
    case True
    then show ?thesis using IH mono(1,5) by auto
  next
    case False
    then obtain x where x: "fst (own_effects l) = [x]" "belongs (sv_req s'') x" "\<not> settled (sv_req s')" "settled (sv_req s'')"
      using f by (auto simp: fair_def)
    then have "records tr = []" "\<not> settled (sv_req s)" using IH mono(2) by blast+
    then show ?thesis using x by simp
  qed
  have b: "length (commands ''GET'' (tr @ [l])) \<le> 1
      \<and> (commands ''GET'' (tr @ [l]) \<noteq> [] \<longrightarrow> \<not> queried (sv_req s) \<and> queried (sv_req s''))"
  proof (cases "filter (command_is ''GET'') (snd (own_effects l)) = []")
    case True
    then show ?thesis using IH mono(3) by auto
  next
    case False
    then obtain x where x: "filter (command_is ''GET'') (snd (own_effects l)) = [x]" "\<not> queried (sv_req s')" "queried (sv_req s'')"
      using f by (auto simp: fair_def)
    then have "commands ''GET'' tr = []" "\<not> queried (sv_req s)" using IH mono(4) by blast+
    then show ?thesis using x by simp
  qed
  have c: "length (commands ''EVALSHA'' (tr @ [l])) \<le> length (records (tr @ [l]))" using IH f by (simp add: fair_def)
  show ?case using a b c by blast
qed simp

end
