(* ===== verification/EA_Guard.thy ===== *)
theory EA_Guard
  imports EA_Life EA_Remote
begin

text \<open>
  The properties of the two handlers over the life of a request, and a concrete site for their
  witnesses.
\<close>

section \<open>A banned client\<close>

lemma verdict_banned:
  assumes S: "site_ok S" and zi: "zi < length (st_zones S)" and W: "world_inv S t W" and now: "clock_ok now"
    and b: "banned (rx_key c) u (zabs (wd_stores W ! zi))" "now < u" and dry: "\<not> ea_effective_dry_run c conf"
  obtains W' c' where "preaccess_verdict S now conf zi (st_zones S ! zi) i c W r
      = Some (HTTP_STATUS (conf_reject_status conf), W', put_ctx i c' r)"
    "rx_own_rejection c'" "rx_zone c' = rx_zone c" "wd_worker W' = wd_worker W"
proof (cases "rx_redis_blocked c")
  case True
  have "\<not> ea_effective_dry_run (c \<lparr> rx_count := n \<rparr>) conf" for n
    using dry by (simp add: ea_effective_dry_run_def split: if_splits)
  then show ?thesis using that True by (simp add: preaccess_verdict_def preaccess_banned_def Let_def)
next
  case False
  define sh where "sh = wd_stores W ! zi"
  have sh: "at_idx (wd_stores W) zi = Some sh" "wf_sh (st_ngx S) (st_zones S ! zi) sh"
    using W zi by (simp_all add: world_inv_def at_idx_def sh_def)
  have doc: "store_doc (st_ngx S)" using S by (simp add: site_ok_def)
  obtain rc out sh' where r: "ea_is_blocked (st_ngx S) (st_zones S ! zi) sh (rx_key c) now = Some (rc, out, sh')"
    "(rc, out, zabs sh') = a_is_blocked (st_zones S ! zi) now (rx_key c) (zabs sh)"
    using is_blocked_refines[OF doc site_zone(1)[OF S zi] sh(2) now] by blast
  have "rc = NGX_OK" using is_blocked_banned(2)[OF wf_zabs_keys[OF sh(2)] b[folded sh_def] r(2)[symmetric]] by simp
  moreover have "\<not> ea_effective_dry_run (c \<lparr> rx_count := n, rx_blocked_until := v \<rparr>) conf" for n v
    using dry by (simp add: ea_effective_dry_run_def split: if_splits)
  ultimately show ?thesis using that False sh(1) r(1)
    by (simp add: preaccess_verdict_def preaccess_banned_def Let_def)
qed

text \<open>A request whose context is not yet prepared, and a location with everything it needs.\<close>

definition fresh :: "request \<Rightarrow> bool" where
  "fresh r \<longleftrightarrow> rq_main r \<and> rq_ctx r = None \<and> anchor r = None \<and> rq_parked r = 0"

definition prepares :: "prep \<Rightarrow> bytes \<Rightarrow> bool" where
  "prepares p key \<longleftrightarrow> pr_value p = Some key \<and> key \<noteq> [] \<and> pr_ctx p \<and> pr_anchor p \<and> pr_key p \<and> pr_log p"

definition guards :: "loc_conf \<Rightarrow> nat \<Rightarrow> bool" where
  "guards conf zi \<longleftrightarrow> lc_enabled conf = Some True \<and> lc_zone conf = Some zi"

lemma prepare_full:
  assumes "rq_ctx r = None" "anchor r = None" "guards conf zi" "prepares p key"
  shows "ea_prepare_ctx E p conf r = Some (Some (length (rq_pool r)),
    r \<lparr> rq_pool := rq_pool r @ [fresh_full E conf key], rq_ctx := Some (length (rq_pool r)),
        rq_cleanup := CLN_NOOP ANCHOR_MAGIC (length (rq_pool r)) # rq_cleanup r \<rparr>)"
  using assms by (simp add: ea_prepare_ctx_def ea_prepare_fresh_def ea_register_anchor_def guards_def conf_on_def
      prepares_def fresh_full_def new_ctx_def put_ctx_def Let_def)

lemma fresh_govern: "fresh r \<Longrightarrow> govern r = None" "fresh r \<Longrightarrow> parked_inv r"
  by (simp_all add: fresh_def govern_def parked_inv_def)

lemma client_banned:
  assumes S: "site_ok S" and zi: "zi < length (st_zones S)" and W: "world_inv S t W" and now: "t \<le> now" "clock_ok now"
    and alloc: "alloc_doc alloc" and cache: "cache_ok (st_redis S) (st_zones S ! zi) c" and p: "\<not> rx_redis_pending c"
    and b: "banned (rx_key c) u (zabs (wd_stores W ! zi))" "now < u" and dry: "\<not> ea_effective_dry_run c conf"
  obtains rc W' c' k where "preaccess_client S alloc queue_ok now conf zi (st_zones S ! zi) i c W r
      = Some (rc, W', (put_ctx i c' r) \<lparr> rq_parked := rq_parked r + k \<rparr>)"
    "rc = HTTP_STATUS (conf_reject_status conf) \<and> k = 0 \<and> rx_own_rejection c'
     \<or> rc = NGX_AGAIN \<and> k = 1 \<and> z_redis (st_zones S ! zi) \<and> \<not> rx_redis_checked c \<and> rx_redis_pending c'"
proof (cases "z_redis (st_zones S ! zi) \<and> \<not> rx_redis_checked c")
  case False
  show ?thesis
  proof (rule verdict_banned[OF S zi W now(2) b dry, of i r])
    fix W' c'
    assume "preaccess_verdict S now conf zi (st_zones S ! zi) i c W r
      = Some (HTTP_STATUS (conf_reject_status conf), W', put_ctx i c' r)" "rx_own_rejection c'"
    then show ?thesis using that[of "HTTP_STATUS (conf_reject_status conf)" W' 0 c'] False parked_same[of "put_ctx i c' r"]
      by (simp add: preaccess_client_def)
  qed
next
  case True
  obtain rc w' c1 parked where k: "ea_redis_check (st_redis S) (st_zones S ! zi) now alloc queue_ok (wd_worker W) c
      = Some (rc, w', c1, parked)" "check_result (st_redis S) (st_zones S ! zi) c rc c1 parked"
    using check_ok[OF alloc cache now(2)] by metis
  let ?W = "W \<lparr> wd_worker := w' \<rparr>"
  have "breaker_inv t (wd_worker W)" using W by (simp add: world_inv_def wk_inv_def)
  from check_step[OF this now k(1)] have "world_step S now zi W ?W" using world_step_worker by blast
  then have W': "world_inv S now ?W" using world_step_inv[OF S W now(1)] by blast
  have t: "redis_touched c c1" using k(2) by (simp add: check_result_def)
  note keeps = redis_touched_keeps[OF t]
  show ?thesis
  proof (cases "rc = NGX_AGAIN")
    case again: True
    then have "parked" "rx_redis_pending c1" using k(2) p by (simp_all add: check_result_def)
    then show ?thesis using that[of NGX_AGAIN ?W 1 c1] True k(1) again by (simp add: preaccess_client_def put_ctx_parked)
  next
    case False
    then have np: "\<not> parked" using k(2) by (simp add: check_result_def)
    have b1: "banned (rx_key c1) u (zabs (wd_stores ?W ! zi))" "\<not> ea_effective_dry_run c1 conf" using b(1) dry keeps by simp_all
    show ?thesis
    proof (rule verdict_banned[OF S zi W' now(2) b1(1) b(2) b1(2), of i "put_ctx i c1 r"])
      fix W2 c2
      assume v: "preaccess_verdict S now conf zi (st_zones S ! zi) i c1 ?W (put_ctx i c1 r)
        = Some (HTTP_STATUS (conf_reject_status conf), W2, put_ctx i c2 (put_ctx i c1 r))" "rx_own_rejection c2"
      then show ?thesis using that[of "HTTP_STATUS (conf_reject_status conf)" W2 0 c2] True k(1) False np
          parked_same[of "put_ctx i c2 r"] by (simp add: preaccess_client_def)
    qed
  qed
qed

lemma client_record_busy: "wf_zone z \<Longrightarrow> clock_ok now \<Longrightarrow> client_record z now c = (NGX_BUSY, (n, u), c') \<Longrightarrow>
    now < u \<and> c_ban c' = u \<and> c_key c' = c_key c"
  using sat_add_gt[of "z_block z" now] clock_okD[of now]
  by (auto simp: client_record_def Let_def wf_zone_def split: if_splits)

lemma record_busy_banned:
  assumes "wf_zone z" "clock_ok now" "a_record z now k cs out (NGX_BUSY, (n, u), cs')"
  shows "now < u \<and> banned k u cs'"
proof -
  obtain f rest where ft: "a_find_touch z now k cs = (f, rest)" by fastforce
  show ?thesis
  proof (cases f)
    case (Some c)
    obtain c' where c': "client_record z now c = (NGX_BUSY, (n, u), c')" "cs' = c' # rest"
      using a_record_tracked[OF ft[unfolded Some] assms(3)] by blast
    have "c_key c = k" using ft[unfolded Some] a_find_set by (auto simp: a_find_touch_def Let_def split: option.splits)
    then show ?thesis using client_record_busy[OF assms(1,2) c'(1)] c'(2) by (simp add: banned_def)
  next
    case None
    show ?thesis
      by (rule a_record_untracked[OF ft[unfolded None] assms(3)])
         (use client_record_busy[OF assms(1,2)] in \<open>fastforce simp: banned_def new_client_def\<close>)+
  qed
qed

lemma record_answers:
  assumes "a_record z now k cs out (rc, out', cs')"
  shows "rc \<in> {NGX_OK, NGX_BUSY, NGX_ERROR}"
proof -
  have c: "rc \<in> {NGX_OK, NGX_BUSY, NGX_ERROR}" if "client_record z now c = (rc, out', c')" for c c'
    using that by (auto simp: client_record_def Let_def split: if_splits)
  obtain f rest where ft: "a_find_touch z now k cs = (f, rest)" by fastforce
  show ?thesis
  proof (cases f)
    case (Some x)
    then show ?thesis using a_record_tracked[OF ft[unfolded Some] assms] c by blast
  next
    case None
    show ?thesis by (rule a_record_untracked[OF ft[unfolded None] assms]) (use c in blast)+
  qed
qed

section \<open>A concrete site\<close>

definition ex_site :: "(nat \<times> addr list) site" where
  "ex_site = \<lparr> st_ngx = ref_ngx, st_fmt = ref_fmt, st_sha = [], st_zones = [ex_zone], st_redis = ex_rcf \<rparr>"

definition ex_world :: "(nat \<times> addr list) world" where
  "ex_world = \<lparr> wd_stores = [ex_sh2], wd_worker = ex_worker, wd_log = [], wd_records = [] \<rparr>"

definition ex_req :: request where
  "ex_req = \<lparr> rq_main = True, rq_ctx = None, rq_pool = [], rq_cleanup = [], rq_status = 404, rq_headers = [],
     rq_last_modified_time = -1, rq_last_modified = None, rq_parked = 0 \<rparr>"

definition ex_loc :: loc_conf where
  "ex_loc = \<lparr> lc_zone = Some 0, lc_reject_status = Some 429, lc_log_level = Some NGX_LOG_WARN, lc_dry_run = Some False,
     lc_enabled = Some True \<rparr>"

definition ex_prep :: prep where
  "ex_prep = \<lparr> pr_value = Some ex_key, pr_ctx = True, pr_anchor = True, pr_key = True, pr_log = True \<rparr>"

definition ex_fmem :: fmem where
  "ex_fmem = \<lparr> fm_push1 = True, fm_retry = True, fm_push2 = True \<rparr>"

declare ref_digest_doc [simp]

lemma ex_site_sel [simp]:
  "st_ngx ex_site = ref_ngx" "st_fmt ex_site = ref_fmt" "st_sha ex_site = []" "st_zones ex_site = [ex_zone]"
  "st_redis ex_site = ex_rcf"
  by (simp_all add: ex_site_def)

lemma ex_site_ok: "site_ok ex_site"
  by (simp add: site_ok_def zones_ok_def config_ok_def ref_fmt_doc) (simp add: ex_zone_def scan_consts)

lemma ex_worker_inv1: "wk_inv (1010, ex_worker)"
  using worker_later[OF ex_worker_inv, of 1010] by simp

lemma ex_world_inv: "world_inv ex_site 1010 ex_world"
  by (simp add: world_inv_def ex_world_def ex_worker_inv1)

lemma ex_req_inv: "rq_inv S ex_req" "fresh ex_req"
  by (simp_all add: rq_inv_def fresh_def ex_req_def)

lemma ex_loc_ok: "conf_ok ex_site ex_loc" "guards ex_loc 0"
  by (simp_all add: conf_ok_def loc_ok_def merged_def guards_def ex_loc_def)

lemma ex_prepares: "prepares ex_prep ex_key"
  by (simp add: prepares_def ex_prep_def ex_key_def)

lemma ex_serve_inv: "serve_inv ex_site (1010, ex_world, ex_req)"
  using ex_site_ok ex_world_inv ex_req_inv fresh_govern by (simp add: serve_inv_def)

lemma ex_sha [simp]: "ref_sha256 ex_key = ex_key"
  by (simp add: ref_sha256_def ex_key_def)

lemma ex_loc_sel [simp]: "conf_reject_status ex_loc = 429" "lc_zone ex_loc = Some 0" "lc_dry_run ex_loc = Some False"
  by (simp_all add: conf_reject_status_def ex_loc_def)

lemma ex_banned: "banned ex_key 1610 (zabs ex_sh2)"
  by (simp add: banned_def zabs_def absn_def ex_sh2_def ex_sh_def ex_node_def)

text \<open>The same request with its context prepared.\<close>

definition ex_ctx1 :: req_ctx where
  "ex_ctx1 = fresh_full ref_ngx ex_loc ex_key"

definition ex_req1 :: request where
  "ex_req1 = ex_req \<lparr> rq_ctx := Some 0, rq_pool := [ex_ctx1], rq_cleanup := [CLN_NOOP ANCHOR_MAGIC 0] \<rparr>"

lemma ex_ctx1_sel [simp]:
  "rx_zone ex_ctx1 = Some 0" "rx_key ex_ctx1 = ex_key" "rx_redis_pending ex_ctx1 = False" "rx_own_rejection ex_ctx1 = False"
  "rx_response_seen ex_ctx1 = False" "rx_from_anchor ex_ctx1 = False" "rx_state ex_ctx1 = PASSED"
  "rx_blocked_until ex_ctx1 = 0" "rx_count ex_ctx1 = 0" "rx_redis_checked ex_ctx1 = False" "rx_redis_block ex_ctx1 = []"
  by (simp_all add: ex_ctx1_def fresh_full_def new_ctx_def)

lemma ex_req1_sel [simp]:
  "rq_main ex_req1" "rq_ctx ex_req1 = Some 0" "rq_pool ex_req1 = [ex_ctx1]" "govern ex_req1 = Some ex_ctx1" "rq_parked ex_req1 = 0"
  "rq_status ex_req1 = 404"
  by (simp_all add: ex_req1_def ex_req_def govern_def)

lemma ex_req1_inv: "rq_inv ex_site ex_req1" "parked_inv ex_req1"
  by (auto simp: rq_inv_def parked_inv_def ctx_ok_def cache_ok_def scan_consts ex_key_def) (simp_all add: ex_req1_def ex_req_def)

lemma ex_serve_inv1: "serve_inv ex_site (1010, ex_world, ex_req1)"
  using ex_site_ok ex_world_inv ex_req1_inv by (simp add: serve_inv_def)

section \<open>Properties\<close>

lemma prepared_of:
  assumes "site_ok S" "rq_inv S r" "conf_ok S conf" "ea_prepare_ctx (st_ngx S) p conf r = Some (c, r1)"
  shows "prepared S r c r1"
proof -
  have doc: "digest_doc (st_ngx S)" using assms(1) by (simp add: site_ok_def)
  obtain c' r' where "ea_prepare_ctx (st_ngx S) p conf r = Some (c', r')" "prepared S r c' r'"
    using prepare_ok[OF assms(2,3) doc] by blast
  then show ?thesis using assms(4) by simp
qed

text \<open>C1. A banned client is turned away.  Let a client be banned in a zone until \<open>u\<close>, and let any
  number of requests be served, with everything nginx and Redis may do in between.  Whenever, before
  \<open>u\<close>, the preaccess handler runs for a request whose context carries this client's identity and
  zone, and the request is not in a dry run, the handler is defined and answers with the configured
  status, which is between 400 and 599; the only exception is a zone with Redis that was not yet asked
  for this request: then the request may be parked first.\<close>

theorem banned_client_rejected:
  assumes "serve_inv S s" "store_duty S zi k u s" "serve_run S s tr s'" "fst s' \<le> now" "clock_ok now" "now < u"
    and "rq_main r" "rq_inv S r" "conf_ok S conf" "alloc_doc alloc"
    and "ea_prepare_ctx (st_ngx S) p conf r = Some (Some i, r1)"
    and "rx_zone (rq_pool r1 ! i) = Some zi" "rx_key (rq_pool r1 ! i) = k" "\<not> rx_redis_pending (rq_pool r1 ! i)"
    and "\<not> ea_effective_dry_run (rq_pool r1 ! i) conf"
  shows "\<exists>rc W' r'. ea_preaccess S p alloc queue_ok now conf (sv_world s') r = Some (rc, W', r')
     \<and> (rc = HTTP_STATUS (conf_reject_status conf) \<and> (\<exists>c. govern r' = Some c \<and> rx_own_rejection c)
        \<or> rc = NGX_AGAIN \<and> z_redis (st_zones S ! zi) \<and> \<not> rx_redis_checked (rq_pool r1 ! i) \<and> rq_parked r' = rq_parked r + 1)
     \<and> 400 \<le> conf_reject_status conf \<and> conf_reject_status conf \<le> 599"
proof -
  have inv: "serve_inv S s'" using sv.run_inv[OF assms(3,1)] .
  then have S: "site_ok S" and W: "world_inv S (fst s') (sv_world s')" by (simp_all add: serve_inv_def)
  have d: "store_duty S zi k u s'" using sv.run_duty[OF assms(3,1,2)] assms(4,6) by simp
  have pr: "prepared S r (Some i) r1" by (rule prepared_of[OF S assms(8,9,11)])
  note run = prepared_run[OF pr assms(12)]
  have r1: "rq_inv S r1" "rq_parked r1 = rq_parked r" using pr by (simp_all add: prepared_def same_rest_def)
  have b: "banned (rx_key (rq_pool r1 ! i)) u (zabs (wd_stores (sv_world s') ! zi))"
    using d assms(13) by (simp add: store_duty_def)
  obtain rc W' c' n where c: "preaccess_client S alloc queue_ok now conf zi (st_zones S ! zi) i (rq_pool r1 ! i) (sv_world s') r1
      = Some (rc, W', (put_ctx i c' r1) \<lparr> rq_parked := rq_parked r1 + n \<rparr>)"
    "rc = HTTP_STATUS (conf_reject_status conf) \<and> n = 0 \<and> rx_own_rejection c'
     \<or> rc = NGX_AGAIN \<and> n = 1 \<and> z_redis (st_zones S ! zi) \<and> \<not> rx_redis_checked (rq_pool r1 ! i) \<and> rx_redis_pending c'"
    by (rule client_banned[OF S run(3) W assms(4,5,10) run(5) assms(14) b assms(6,15)]) (rule that)
  have "govern ((put_ctx i c' r1) \<lparr> rq_parked := rq_parked r1 + n \<rparr>) = Some c'"
    using govern_put_ctx[OF r1(1) run(1), of c'] by simp
  moreover have "400 \<le> conf_reject_status conf" "conf_reject_status conf \<le> 599"
    using assms(9) by (auto simp: conf_ok_def loc_ok_def merged_def conf_reject_status_def)
  ultimately show ?thesis
    using preaccess_main[OF assms(7,11) pr, of alloc queue_ok now "sv_world s'"] assms(12) c r1(2) by auto
qed

theorem banned_client_rejected_witness:
  "\<exists>W' r'. ea_preaccess ex_site ex_prep ex_mem True 1020 ex_loc ex_world ex_req = Some (HTTP_STATUS 429, W', r')"
proof -
  have run: "serve_run ex_site (1010, ex_world, ex_req) [] (1010, ex_world, ex_req)" by (rule run_Nil)
  have duty: "store_duty ex_site 0 ex_key 1610 (1010, ex_world, ex_req)"
    using ex_banned by (simp add: store_duty_def ex_world_def)
  have f: "rq_main ex_req" "rq_ctx ex_req = None" "anchor ex_req = None" using ex_req_inv(2) by (simp_all add: fresh_def)
  show ?thesis
    using banned_client_rejected[OF ex_serve_inv duty run _ ex_clock(3) _ f(1) ex_req_inv(1) ex_loc_ok(1) ex_mem_doc(1)
        prepare_full[OF f(2,3) ex_loc_ok(2) ex_prepares], of True]
    by (simp add: fresh_full_def new_ctx_def ea_effective_dry_run_def conf_on_def nth_append) blast
qed



text \<open>C12. The origin wins.  Once a request's context has a zone, no internal redirect, no location it
  is sent to and no reply changes the zone, the client's identity or the fact that the module rejected
  it; a context taken back from its anchor keeps the dry run of its origin; and whatever a handler does
  next, for any location, it leaves the store of every other zone alone.\<close>

theorem origin_wins:
  assumes "serve_inv S s" "govern (sv_req s) = Some c" "serve_run S s tr s'"
  shows "(\<exists>c'. govern (sv_req s') = Some c' \<and> rx_zone c' = rx_zone c \<and> rx_key c' = rx_key c \<and> rx_log_key c' = rx_log_key c
       \<and> (rx_own_rejection c \<longrightarrow> rx_own_rejection c')
       \<and> (rx_from_anchor c \<longrightarrow> rx_from_anchor c' \<and> rx_dry_run c' = rx_dry_run c))
    \<and> (\<forall>l s'' j. serve_step S s' l s'' \<and> l \<noteq> SL_OTHERS \<and> rx_zone c \<noteq> Some j \<longrightarrow>
       wd_stores (sv_world s'') ! j = wd_stores (sv_world s') ! j)"
proof -
  have inv: "serve_inv S s'" using sv.run_inv[OF assms(3,1)] .
  obtain c' where c': "govern (sv_req s') = Some c'" "later c c'"
    using evolves_govern[OF serve_run_evolves[OF assms(3,1)] assms(2)] by blast
  then have keeps: "\<exists>c'. govern (sv_req s') = Some c' \<and> rx_zone c' = rx_zone c \<and> rx_key c' = rx_key c \<and> rx_log_key c' = rx_log_key c
     \<and> (rx_own_rejection c \<longrightarrow> rx_own_rejection c')
     \<and> (rx_from_anchor c \<longrightarrow> rx_from_anchor c' \<and> rx_dry_run c' = rx_dry_run c)"
    unfolding later_def by blast
  have "wd_stores (sv_world s'') ! j = wd_stores (sv_world s') ! j"
    if step: "serve_step S s' l s''" and l: "l \<noteq> SL_OTHERS" and j: "rx_zone c \<noteq> Some j" for l s'' j
  proof -
    have ok: "label_ok S s' l s''" "evolves (sv_req s') (sv_req s'')" using serve_step_ok[OF step inv] by simp_all
    obtain c'' where c'': "govern (sv_req s'') = Some c''" "later c' c''"
      using evolves_govern[OF ok(2) c'(1)] by blast
    then have z: "rx_zone c'' = rx_zone c" using c'(2) later_trans by (auto simp: later_def)
    have own: "wd_stores (sv_world s'') ! j = wd_stores (sv_world s') ! j" if "own_step S s' s''"
    proof -
      have "same_world (sv_world s') (sv_world s'') \<or> (\<exists>zi. rx_zone c = Some zi \<and> world_step S (fst s'') zi (sv_world s') (sv_world s''))"
        using that c''(1) z by (simp add: own_step_def serves_def)
      then show ?thesis using j by (auto simp: same_world_def world_step_def)
    qed
    then show ?thesis using ok(1) l by (cases l) (simp_all add: label_ok_def)
  qed
  with keeps show ?thesis by blast
qed

theorem origin_wins_witness:
  "\<exists>s'. serve_run ex_site (1010, ex_world, ex_req1) [SL_REDIRECT] s' \<and> rq_ctx (sv_req s') = None
     \<and> (\<exists>c'. govern (sv_req s') = Some c' \<and> rx_zone c' = Some 0 \<and> rx_key c' = ex_key)"
proof -
  have "serve_run ex_site (1010, ex_world, ex_req1) [] (1010, ex_world, ex_req1)" by (rule run_Nil)
  from run_snoc[OF this ss_redirect]
  have a: "serve_run ex_site (1010, ex_world, ex_req1) [SL_REDIRECT] (1010, ex_world, ex_req1 \<lparr> rq_ctx := None \<rparr>)" by simp
  from origin_wins[OF ex_serve_inv1 _ a, THEN conjunct1] a show ?thesis
    by (intro exI[of _ "(1010, ex_world, ex_req1 \<lparr> rq_ctx := None \<rparr>)"]) auto
qed

text \<open>C15. A dry run counts nothing, bans nobody and rejects nothing.  For a request in a dry run, by its
  origin's setting if its context came back from the anchor and by the location's otherwise, the header
  filter changes no store, calls \<^verbatim>\<open>ea_record\<close> not once, sends nothing to Redis, and never replaces the
  response.  The preaccess handler does look the client up, as it would in earnest: it answers DECLINED,
  or AGAIN while Redis is asked, it sends nothing but one \<^verbatim>\<open>GET\<close>, and to the store it does what
  \<^verbatim>\<open>is_blocked\<close> does, that is, ageing and pruning: no client, event or ban is added, and no ban that lasts
  is lost.\<close>

theorem dry_run_observes:
  assumes "site_ok S" "rq_inv S r" "parked_inv r" "conf_ok S conf" "world_inv S t W" "t \<le> now" "clock_ok now" "alloc_doc alloc"
    and "rq_main r" "ea_prepare_ctx (st_ngx S) p conf r = Some (Some i, r1)" "ea_effective_dry_run (rq_pool r1 ! i) conf"
  shows "(\<exists>res W' r'. ea_header_filter S p fm alloc now conf W r = Some (res, W', r')
       \<and> wd_stores W' = wd_stores W \<and> wd_records W' = wd_records W \<and> wd_worker W' = wd_worker W \<and> (\<forall>s. res \<noteq> HF_FINALIZE s))
    \<and> (\<exists>rc W' r'. ea_preaccess S p alloc queue_ok now conf W r = Some (rc, W', r') \<and> (rc = NGX_AGAIN \<or> rc = NGX_DECLINED)
       \<and> wd_records W' = wd_records W
       \<and> (wk_calls (wd_worker W') = wk_calls (wd_worker W)
          \<or> (\<exists>b. wk_calls (wd_worker W') = wk_calls (wd_worker W) @ [H_COMMAND [ascii ''GET'', b]]))
       \<and> (\<forall>j < length (st_zones S). only_aged now (zabs (wd_stores W ! j)) (zabs (wd_stores W' ! j))))"
proof -
  have "\<not> filter_counts S p conf r" using assms(10,11) by (simp add: filter_counts_def counts_def)
  then have f: "\<exists>res W' r'. ea_header_filter S p fm alloc now conf W r = Some (res, W', r') \<and> same_world W W' \<and> (\<forall>s. res \<noteq> HF_FINALIZE s)"
    by (rule_tac filter_ok[OF assms(1-8), of p fm]) (auto simp: filters_def)
  have filter: "\<exists>res W' r'. ea_header_filter S p fm alloc now conf W r = Some (res, W', r')
     \<and> wd_stores W' = wd_stores W \<and> wd_records W' = wd_records W \<and> wd_worker W' = wd_worker W \<and> (\<forall>s. res \<noteq> HF_FINALIZE s)"
    using f filter_records[OF assms(1,2,4) _ \<open>\<not> filter_counts S p conf r\<close>] by (fastforce simp: same_world_def)
  have pr: "prepared S r (Some i) r1" by (rule prepared_of[OF assms(1,2,4,10)])
  note main = preaccess_main[OF assms(9,10) pr, of alloc queue_ok now W]
  have "\<exists>rc W' r'. ea_preaccess S p alloc queue_ok now conf W r = Some (rc, W', r') \<and> (rc = NGX_AGAIN \<or> rc = NGX_DECLINED)"
  proof (cases "rx_zone (rq_pool r1 ! i)")
    case None
    then show ?thesis using main by simp
  next
    case (Some zi)
    note run = prepared_run[OF pr Some]
    have "rq_inv S r1" using pr by (simp add: prepared_def)
    then have ok: "ctx_ok S (rq_pool r1 ! i)" using rq_invD(3) run(2) by blast
    obtain rc W' c' k where s: "preaccess_client S alloc queue_ok now conf zi (st_zones S ! zi) i (rq_pool r1 ! i) W r1
        = Some (rc, W', (put_ctx i c' r1) \<lparr> rq_parked := rq_parked r1 + k \<rparr>)"
      "client_result S now conf zi (rq_pool r1 ! i) W rc W' c' k"
      by (rule client_step[OF assms(1) run(3) assms(5-8) ok Some]) (rule that)
    then show ?thesis using main Some assms(11) by (simp add: client_result_def)
  qed
  then obtain rc W' r' where p: "ea_preaccess S p alloc queue_ok now conf W r = Some (rc, W', r')" "rc = NGX_AGAIN \<or> rc = NGX_DECLINED"
    by blast
  show ?thesis
    using filter p preaccess_fair(2,3)[OF assms(1,2,4) p(1)] preaccess_store[OF assms(1,2,4,5,7) p(1)] by blast
qed

theorem dry_run_observes_witness:
  "\<exists>res W' r'. ea_header_filter ex_site ex_prep ex_fmem ex_mem 1020 (ex_loc \<lparr> lc_dry_run := Some True \<rparr>) ex_world ex_req1
     = Some (res, W', r') \<and> wd_stores W' = [ex_sh2]"
proof -
  have c: "conf_ok ex_site (ex_loc \<lparr> lc_dry_run := Some True \<rparr>)" by (simp add: conf_ok_def loc_ok_def merged_def ex_loc_def)
  have p: "ea_prepare_ctx (st_ngx ex_site) ex_prep (ex_loc \<lparr> lc_dry_run := Some True \<rparr>) ex_req1 = Some (Some 0, ex_req1)"
    by (simp add: ea_prepare_ctx_def)
  from dry_run_observes[OF ex_site_ok ex_req1_inv c ex_world_inv _ ex_clock(3) ex_mem_doc(1) ex_req1_sel(1) p, of ex_fmem]
  show ?thesis by (simp add: ea_effective_dry_run_def conf_on_def ex_world_def) blast
qed

text \<open>C14. What happens to a response that counts.  It is counted once, in the zone and for the client of
  the request's own context, whatever the location is; below the threshold the request becomes COUNTED;
  at the threshold it becomes BLOCKED, and the store now bans the client beyond now; if the zone is full,
  the response passes untracked, or, where the zone says so, it is replaced by the location's rejection,
  which is marked as the module's own.\<close>

theorem response_counted:
  assumes "site_ok S" "rq_inv S r" "conf_ok S conf" "world_inv S t W" "t \<le> now" "clock_ok now" "alloc_doc alloc"
    and "ea_prepare_ctx (st_ngx S) p conf r = Some (Some i, r1)" "counts S conf r1 (rq_pool r1 ! i)"
  shows "\<exists>zi rc n u sh' res W' r' c'.
       rx_zone (rq_pool r1 ! i) = Some zi
     \<and> ea_record (st_ngx S) (st_zones S ! zi) (wd_stores W ! zi) (rx_key (rq_pool r1 ! i)) now
         (rx_count (rq_pool r1 ! i), rx_blocked_until (rq_pool r1 ! i)) = Some (rc, (n, u), sh')
     \<and> ea_header_filter S p fm alloc now conf W r = Some (res, W', r')
     \<and> wd_stores W' = (wd_stores W)[zi := sh'] \<and> govern r' = Some c' \<and> rx_count c' = n \<and> rx_blocked_until c' = u
     \<and> (rc = NGX_OK \<longrightarrow> res = HF_NEXT \<and> rx_state c' = COUNTED)
     \<and> (rc = NGX_BUSY \<longrightarrow> res = HF_NEXT \<and> rx_state c' = BLOCKED \<and> now < u \<and> banned (rx_key (rq_pool r1 ! i)) u (zabs sh'))
     \<and> (rc = NGX_ERROR \<longrightarrow> (if z_on_full_reject (st_zones S ! zi)
          then res = HF_FINALIZE (conf_reject_status conf) \<and> rx_state c' = BLOCKED \<and> rx_own_rejection c' \<and> \<not> rx_response_seen c'
          else res = HF_NEXT \<and> rx_state c' = rx_state (rq_pool r1 ! i)))
     \<and> rc \<in> {NGX_OK, NGX_BUSY, NGX_ERROR}"
proof -
  let ?c = "rq_pool r1 ! i"
  have pr: "prepared S r (Some i) r1" by (rule prepared_of[OF assms(1-3,8)])
  obtain zi where zi: "rx_zone ?c = Some zi" "watched S zi r1" using assms(9) by (auto simp: counts_def watched_def)
  note run = prepared_run[OF pr zi(1)]
  have inv: "rq_inv S r1" and main: "rq_main r" using pr assms(9) by (auto simp: prepared_def counts_def same_rest_def)
  have q: "\<not> rx_response_seen ?c" "\<not> rx_own_rejection ?c" "rx_state ?c \<noteq> DRY_RUN" "\<not> ea_effective_dry_run ?c conf"
    using assms(9) by (simp_all add: counts_def)
  define d where "d = mark_seen conf ?c"
  have d: "ctx_ok S d" "rx_zone d = Some zi" using mark_seen_ok[OF rq_invD(3)[OF inv run(2)]] zi(1) by (simp_all add: d_def)
  let ?z = "st_zones S ! zi"
  obtain rc n u sh' w c1 where f: "ea_record (st_ngx S) ?z (wd_stores W ! zi) (rx_key d) now (rx_count d, rx_blocked_until d)
      = Some (rc, (n, u), sh')"
    "a_record ?z now (rx_key d) (zabs (wd_stores W ! zi)) (rx_count d, rx_blocked_until d) (rc, (n, u), zabs sh')"
    "redis_touched (d \<lparr> rx_count := n, rx_blocked_until := u \<rparr>) c1"
    "filter_record S alloc now conf zi ?z i d W (put_ctx i d r1)
       = Some (record_verdict conf ?z i rc c1 ((recorded zi (rx_key d) now sh' W) \<lparr> wd_worker := w \<rparr>) (put_ctx i d r1))"
    by (rule filter_record_eq[OF assms(1) run(3) assms(4-7) d]) (rule that)
  note k = redis_touched_keeps[OF f(3)]
  have cnt: "rx_count c1 = n" using f(3) by (auto simp: redis_touched_def)
  have e: "ea_header_filter S p fm alloc now conf W r
      = Some (record_verdict conf ?z i rc c1 ((recorded zi (rx_key d) now sh' W) \<lparr> wd_worker := w \<rparr>) (put_ctx i d r1))"
    using filter_main[OF main assms(8) pr, of fm alloc now W] zi(1) q f(4)
      filter_client_cases[OF assms(1) run(3), of fm alloc now conf i ?c W r1] zi(2) by (simp add: d_def)
  have g: "govern (put_ctx i x r1) = Some x" for x using govern_put_ctx[OF inv run(1)] .
  have busy: "now < u \<and> banned (rx_key ?c) u (zabs sh')" if "rc = NGX_BUSY"
    using record_busy_banned[OF site_zone(1)[OF assms(1) run(3)] assms(6) f(2)[unfolded that]] by (simp add: d_def)
  have rc: "rc \<in> {NGX_OK, NGX_BUSY, NGX_ERROR}" using record_answers[OF f(2)] .
  obtain res W' c' where v: "record_verdict conf ?z i rc c1 ((recorded zi (rx_key d) now sh' W) \<lparr> wd_worker := w \<rparr>) (put_ctx i d r1)
      = (res, W', put_ctx i c' r1)" "wd_stores W' = (wd_stores W)[zi := sh']" "rx_count c' = n" "rx_blocked_until c' = u"
    "rc = NGX_OK \<longrightarrow> res = HF_NEXT \<and> rx_state c' = COUNTED"
    "rc = NGX_BUSY \<longrightarrow> res = HF_NEXT \<and> rx_state c' = BLOCKED"
    "rc = NGX_ERROR \<longrightarrow> (if z_on_full_reject ?z
          then res = HF_FINALIZE (conf_reject_status conf) \<and> rx_state c' = BLOCKED \<and> rx_own_rejection c' \<and> \<not> rx_response_seen c'
          else res = HF_NEXT \<and> rx_state c' = rx_state ?c)"
    using rc cnt k by (cases "z_on_full_reject ?z") (auto simp: record_verdict_def Let_def d_def)
  show ?thesis
    by (rule exI[of _ zi], rule exI[of _ rc], rule exI[of _ n], rule exI[of _ u], rule exI[of _ sh'], rule exI[of _ res],
        rule exI[of _ W'], rule exI[of _ "put_ctx i c' r1"], rule exI[of _ c'])
       (use f(1) e v g busy rc zi(1) in \<open>simp add: d_def\<close>)
qed

lemma ex_counts: "counts ex_site ex_loc ex_req1 ex_ctx1"
proof -
  have "ea_status_matches (replicate 75 255) 404 = Some True"
    by (simp add: ea_status_matches_def rd_def status_bit_def scan_consts)
  then show ?thesis by (simp add: counts_def ea_effective_dry_run_def conf_on_def)
qed

theorem response_counted_witness:
  "\<exists>res W' r' c'. ea_header_filter ex_site ex_prep ex_fmem ex_mem 1020 ex_loc ex_world ex_req1 = Some (res, W', r')
     \<and> govern r' = Some c' \<and> rx_state c' \<noteq> PASSED"
proof -
  have p: "ea_prepare_ctx (st_ngx ex_site) ex_prep ex_loc ex_req1 = Some (Some 0, ex_req1)" by (simp add: ea_prepare_ctx_def)
  have c: "counts ex_site ex_loc ex_req1 (rq_pool ex_req1 ! 0)" using ex_counts by simp
  obtain rc o1 sh1 where f: "ea_record ref_ngx ex_zone ex_sh2 ex_key 1020 (0, 0) = Some (rc, o1, sh1)"
    "a_record ex_zone 1020 ex_key (zabs ex_sh2) (0, 0) (rc, o1, zabs sh1)"
    using record_refines[OF ex_docs(1) ex_zone_wf ex_sh2_wf ex_clock(3) ex_key_props(1), of "(0, 0)"] by blast
  have busy: "rc = NGX_BUSY"
    using record_banned(2)[OF wf_zabs_keys[OF ex_sh2_wf] ex_banned _ f(2)] by simp
  from response_counted[OF ex_site_ok ex_req1_inv(1) ex_loc_ok(1) ex_world_inv _ ex_clock(3) ex_mem_doc(1) p c, of ex_fmem]
  show ?thesis using f(1) busy by (auto simp: ex_world_def)
qed

lemma fresh_fails:
  assumes "pr_value p = None \<or> \<not> pr_ctx p \<or> \<not> pr_anchor p \<or> pr_value p \<noteq> Some [] \<and> (\<not> pr_key p \<or> \<not> pr_log p)"
  shows "fst (ea_prepare_fresh E p conf r) = None"
  using assms by (cases "pr_value p") (auto simp: ea_prepare_fresh_def ea_register_anchor_def Let_def)

text \<open>C26. Memory pressure fails closed.  If a guarded location's key cannot be evaluated, or any allocation
  for a new context fails, the preaccess handler answers 500 and touches neither a store nor the Redis
  worker; and if a context was left half made, no later response of the request is counted or altered.\<close>

theorem preparation_fails_closed:
  assumes "fresh r" "guards conf zi"
    and "pr_value p = None \<or> \<not> pr_ctx p \<or> \<not> pr_anchor p \<or> pr_value p \<noteq> Some [] \<and> (\<not> pr_key p \<or> \<not> pr_log p)"
  shows "\<exists>r'. ea_preaccess S p alloc queue_ok now conf W r = Some (HTTP_STATUS 500, W, r')
     \<and> (rq_ctx r' \<noteq> None \<longrightarrow> (\<forall>p2 fm alloc2 now2 conf2 W2.
          ea_header_filter S p2 fm alloc2 now2 conf2 W2 r' = Some (HF_NEXT, W2, r')))"
proof -
  have r: "rq_main r" "rq_ctx r = None" "anchor r = None" using assms(1) by (simp_all add: fresh_def)
  have g: "conf_on (lc_enabled conf)" "lc_zone conf = Some zi" using assms(2) by (simp_all add: guards_def conf_on_def)
  have prep: "ea_prepare_ctx (st_ngx S) p conf r = Some (ea_prepare_fresh (st_ngx S) p conf r)"
    using r g by (simp add: ea_prepare_ctx_def)
  have half: "ea_header_filter S p2 fm alloc2 now2 conf2 W2 r' = Some (HF_NEXT, W2, r')"
    if "rq_ctx r' = Some (length (rq_pool r))" "rq_pool r' = rq_pool r @ [x]" "rx_zone x = None" for r' x p2 fm alloc2 now2 conf2 W2
    using that by (simp add: ea_header_filter_def ea_prepare_ctx_def at_idx_def)
  show ?thesis
  proof (cases rule: prepare_fresh_cases[of "st_ngx S" p conf r])
    case none
    then show ?thesis using r g prep by (simp add: ea_preaccess_def)
  next
    case bare
    then show ?thesis using r g prep half[of _ "new_ctx conf"] by (simp add: ea_preaccess_def new_ctx_def)
  next
    case (partial c x)
    have "c = None" using fresh_fails[OF assms(3), of "st_ngx S" conf r] partial(1) by simp
    then show ?thesis using r g prep partial(1,2) half[of _ x] by (simp add: ea_preaccess_def)
  next
    case (full key)
    then show ?thesis using fresh_fails[OF assms(3), of "st_ngx S" conf r] by simp
  qed
qed

theorem preparation_fails_closed_witness:
  "\<exists>r'. ea_preaccess ex_site (ex_prep \<lparr> pr_log := False \<rparr>) ex_mem True 1020 ex_loc ex_world ex_req
     = Some (HTTP_STATUS 500, ex_world, r')"
  using preparation_fails_closed[OF ex_req_inv(2) ex_loc_ok(2), of "ex_prep \<lparr> pr_log := False \<rparr>" ex_site ex_mem True 1020 ex_world]
  by (auto simp: ex_prep_def ex_key_def)

text \<open>C27. A rejection is never cached for someone else.  The response to a request that the module
  rejected itself leaves every store alone, and either it is aborted, for lack of memory, or its headers
  lose any Last-Modified and gain \<^verbatim>\<open>Cache-Control: private, no-store\<close>, and for the statuses 429 and 503,
  as long as the ban lasts, \<^verbatim>\<open>Retry-After\<close> with the exact number of seconds left, at least one.\<close>

theorem rejection_is_private:
  assumes "site_ok S" "rq_inv S r" "clock_ok now" "rq_main r" "rq_ctx r = Some i"
    and "rx_zone (rq_pool r ! i) \<noteq> None" "rx_own_rejection (rq_pool r ! i)" "\<not> rx_response_seen (rq_pool r ! i)"
  shows "(\<exists>res r'. ea_header_filter S p fm alloc now conf W r = Some (res, W, r')
     \<and> (res = HF_ERROR \<and> (\<not> fm_push1 fm \<or> \<not> fm_retry fm \<or> \<not> fm_push2 fm)
        \<or> res = HF_NEXT \<and> rq_last_modified r' = None \<and> rq_last_modified_time r' = -1
        \<and> rq_headers r' = (case rq_last_modified r of None \<Rightarrow> rq_headers r
            | Some j \<Rightarrow> (rq_headers r)[j := (rq_headers r ! j) \<lparr> hd_hash := False \<rparr>])
          @ \<lparr> hd_key = ascii ''Cache-Control'', hd_value = ascii ''private, no-store'', hd_hash = True \<rparr>
          # (if (rq_status r = 429 \<or> rq_status r = 503) \<and> now < rx_blocked_until (rq_pool r ! i)
             then [\<lparr> hd_key = ascii ''Retry-After'', hd_value = st_fmt S (rx_blocked_until (rq_pool r ! i) - now), hd_hash = True \<rparr>]
             else [])))
     \<and> (now < rx_blocked_until (rq_pool r ! i) \<longrightarrow>
       dec_value (st_fmt S (rx_blocked_until (rq_pool r ! i) - now)) = rx_blocked_until (rq_pool r ! i) - now)"
proof -
  let ?c = "rq_pool r ! i"
  have i: "i < length (rq_pool r)" using rq_invD(1)[OF assms(2,5)] .
  have ok: "ctx_ok S ?c" using rq_invD(3)[OF assms(2) i] .
  obtain zi where zi: "rx_zone ?c = Some zi" "zi < length (st_zones S)" using assms(6) ok by (auto simp: ctx_ok_def)
  have u: "until_ok (rx_blocked_until ?c)" using ok by (simp add: ctx_ok_def)
  have now: "0 \<le> now" using clock_okD[OF assms(3)] by simp
  define d where "d = mark_seen conf ?c"
  have du: "rx_blocked_until d = rx_blocked_until ?c" by (simp add: d_def)
  have p: "ea_prepare_ctx (st_ngx S) p conf r = Some (Some i, r)" using assms(5) by (simp add: ea_prepare_ctx_def)
  have f: "filter_client S fm alloc now conf zi (st_zones S ! zi) i ?c W r
      = do { (rc, r') \<leftarrow> ea_add_reject_headers (st_fmt S) (fm_push1 fm) (fm_retry fm) (fm_push2 fm) now d (put_ctx i d r);
             Some (if rc \<noteq> NGX_OK then HF_ERROR else HF_NEXT, W, r') }"
    using filter_client_cases[OF assms(1) zi(2), of fm alloc now conf i ?c W r] assms(7) by (simp add: d_def)
  have h: "ea_header_filter S p fm alloc now conf W r = filter_client S fm alloc now conf zi (st_zones S ! zi) i ?c W r"
    using p assms(4,8) zi i by (simp add: ea_header_filter_def at_idx_def)
  have s: "t_sub (rx_blocked_until ?c) now = Some (rx_blocked_until ?c - now)" if "now < rx_blocked_until ?c"
    using that now u by (simp add: t_sub_def time_rep_def until_ok_def)
  define hs where "hs = (case rq_last_modified r of None \<Rightarrow> rq_headers r
      | Some j \<Rightarrow> (rq_headers r)[j := (rq_headers r ! j) \<lparr> hd_hash := False \<rparr>])"
  obtain r1 where r1: "drop_last_modified (put_ctx i d r) = Some r1" "rq_headers r1 = hs" "rq_last_modified r1 = None"
    "rq_last_modified_time r1 = -1" "rq_status r1 = rq_status r"
    using rq_invD(2)[OF assms(2)] by (cases "rq_last_modified r") (auto simp: drop_last_modified_def at_idx_def hs_def)
  have "\<exists>res r'. ea_header_filter S p fm alloc now conf W r = Some (res, W, r')
     \<and> (res = HF_ERROR \<and> (\<not> fm_push1 fm \<or> \<not> fm_retry fm \<or> \<not> fm_push2 fm)
        \<or> res = HF_NEXT \<and> rq_last_modified r' = None \<and> rq_last_modified_time r' = -1
        \<and> rq_headers r' = (case rq_last_modified r of None \<Rightarrow> rq_headers r
            | Some j \<Rightarrow> (rq_headers r)[j := (rq_headers r ! j) \<lparr> hd_hash := False \<rparr>])
          @ \<lparr> hd_key = ascii ''Cache-Control'', hd_value = ascii ''private, no-store'', hd_hash = True \<rparr>
          # (if (rq_status r = 429 \<or> rq_status r = 503) \<and> now < rx_blocked_until (rq_pool r ! i)
             then [\<lparr> hd_key = ascii ''Retry-After'', hd_value = st_fmt S (rx_blocked_until (rq_pool r ! i) - now), hd_hash = True \<rparr>]
             else []))"
    unfolding hs_def [symmetric] h f
    using r1 s du
    by (cases "fm_push1 fm"; cases "(rq_status r = 429 \<or> rq_status r = 503) \<and> now < rx_blocked_until ?c";
        cases "fm_retry fm"; cases "fm_push2 fm")
       (auto simp: ea_add_reject_headers_def ea_add_header_def Let_def)
  moreover have "now < rx_blocked_until ?c \<longrightarrow> dec_value (st_fmt S (rx_blocked_until ?c - now)) = rx_blocked_until ?c - now"
    using assms(1) fmt_docD(3)[of "st_fmt S" "rx_blocked_until ?c - now"] by (simp add: site_ok_def)
  ultimately show ?thesis by blast
qed

definition ex_req2 :: request where
  "ex_req2 = ex_req1 \<lparr> rq_pool := [ex_ctx1 \<lparr> rx_own_rejection := True, rx_blocked_until := 1610 \<rparr>], rq_status := 429 \<rparr>"

lemma ex_req2_sel [simp]:
  "rq_main ex_req2" "rq_ctx ex_req2 = Some 0" "rq_status ex_req2 = 429" "rq_headers ex_req2 = []" "rq_last_modified ex_req2 = None"
  "rq_pool ex_req2 = [ex_ctx1 \<lparr> rx_own_rejection := True, rx_blocked_until := 1610 \<rparr>]"
  by (simp_all add: ex_req2_def) (simp_all add: ex_req1_def ex_req_def)

lemma ex_req2_inv: "rq_inv ex_site ex_req2"
  by (auto simp: rq_inv_def ctx_ok_def cache_ok_def scan_consts ex_key_def until_ok_def)
     (simp_all add: ex_req2_def ex_req1_def ex_req_def)

theorem rejection_is_private_witness:
  "\<exists>r'. ea_header_filter ex_site ex_prep ex_fmem ex_mem 1020 ex_loc ex_world ex_req2 = Some (HF_NEXT, ex_world, r')
     \<and> map hd_key (rq_headers r') = [ascii ''Cache-Control'', ascii ''Retry-After'']
     \<and> dec_value (hd_value (rq_headers r' ! 1)) = 590"
proof -
  note R = rejection_is_private[where S = ex_site and r = ex_req2 and i = 0 and now = 1020 and fm = ex_fmem]
  have "\<exists>res r'. ea_header_filter ex_site ex_prep ex_fmem ex_mem 1020 ex_loc ex_world ex_req2 = Some (res, ex_world, r')
     \<and> (res = HF_ERROR \<and> (\<not> fm_push1 ex_fmem \<or> \<not> fm_retry ex_fmem \<or> \<not> fm_push2 ex_fmem)
        \<or> res = HF_NEXT \<and> rq_last_modified r' = None \<and> rq_last_modified_time r' = -1
        \<and> rq_headers r' = [\<lparr> hd_key = ascii ''Cache-Control'', hd_value = ascii ''private, no-store'', hd_hash = True \<rparr>,
             \<lparr> hd_key = ascii ''Retry-After'', hd_value = ref_fmt 590, hd_hash = True \<rparr>])"
    using R[OF ex_site_ok ex_req2_inv ex_clock(3), THEN conjunct1] by simp
  moreover have "dec_value (ref_fmt 590) = 590"
    using R[OF ex_site_ok ex_req2_inv ex_clock(3), THEN conjunct2] by simp
  ultimately show ?thesis by (auto simp: ex_fmem_def)
qed

end
