(* ===== verification/EA_Save.thy ===== *)
theory EA_Save
  imports EA_File EA_Persist EA_Trace
begin

text \<open>
  When and by whom a zone is saved: the process that arms the timer, the timer's handler with its
  two ways to write (on a pool thread, or at once), the thread's task and its completion, and the end of
  the process.  A run interleaves these with everything that happens to the store.
\<close>

section \<open>Saving\<close>

text \<open>A zone's reusable buffer, the guard of the write in flight, the task's stage, and whether the
  timer is set.  A task that was posted has the number of bytes to write from the zone's buffer.\<close>

datatype task = T_IDLE | T_POSTED nat | T_DONE

record saver =
  pv_buf :: "bytes option"
  pv_busy :: bool
  pv_task :: task
  pv_timer :: bool

text \<open>What is answered while a zone is serialized and written: the buffer, what a failed serialization
  leaves in it, the rounds the write may take, and the file calls.\<close>

record save_env =
  se_alloc :: "nat \<Rightarrow> bytes option"
  se_left :: "bytes option"
  se_fuel :: nat
  se_file :: file_env

text \<open>The results: whether the write has ended, the calls it made, and the zone's state.\<close>

definition ea_save ::
  "platform \<Rightarrow> name_fmt \<Rightarrow> 's ngx \<Rightarrow> zone \<Rightarrow> 's shctx \<Rightarrow> save_env \<Rightarrow> saver
     \<Rightarrow> (ngx_rc option \<times> syscall list \<times> saver) option" where
  "ea_save P F E z sh V s = do {
     r \<leftarrow> ea_serialize E z sh (se_alloc V) (pv_buf s);
     case r of
       None \<Rightarrow> Some (Some NGX_ERROR, [], s \<lparr> pv_buf := se_left V \<rparr>)
     | Some (buf, len) \<Rightarrow> do {
         data \<leftarrow> slice buf 0 len;
         let (rc, tr) = ea_write_file (se_fuel V) P F (se_file V) data (z_persist z);
         Some (rc, tr, s \<lparr> pv_buf := Some buf \<rparr>)
       }
   }"

text \<open>With threads: nothing while a write is in flight; otherwise the serialized buffer is handed to the
  task, and if that cannot be queued it is written at once.\<close>

definition persist_post ::
  "platform \<Rightarrow> name_fmt \<Rightarrow> 's ngx \<Rightarrow> zone \<Rightarrow> 's shctx \<Rightarrow> save_env \<Rightarrow> bool \<Rightarrow> saver
     \<Rightarrow> (ngx_rc option \<times> syscall list \<times> saver) option" where
  "persist_post P F E z sh V post_ok s =
     (if pv_busy s then Some (Some NGX_OK, [], s)
      else do {
        r \<leftarrow> ea_serialize E z sh (se_alloc V) (pv_buf s);
        case r of
          None \<Rightarrow> Some (Some NGX_OK, [], s \<lparr> pv_buf := se_left V, pv_task := T_IDLE \<rparr>)
        | Some (buf, len) \<Rightarrow>
            let s = s \<lparr> pv_buf := Some buf, pv_busy := True \<rparr> in
            if post_ok then Some (Some NGX_OK, [], s \<lparr> pv_task := T_POSTED len \<rparr>)
            else do {
              let s = s \<lparr> pv_busy := False \<rparr>;
              data \<leftarrow> slice buf 0 len;
              let (rc, tr) = ea_write_file (se_fuel V) P F (se_file V) data (z_persist z);
              Some (rc, tr, s \<lparr> pv_task := T_IDLE \<rparr>)
            }
      })"

text \<open>The timer has fired.  \<open>threads\<close>: the build has threads, the pool exists and the zone has a task.
  The timer is set again unless ownership is lost for good.\<close>

definition ea_persist_handler ::
  "platform \<Rightarrow> name_fmt \<Rightarrow> 's ngx \<Rightarrow> zone \<Rightarrow> bool \<Rightarrow> ngx_rc \<Rightarrow> 's shctx \<Rightarrow> save_env \<Rightarrow> bool \<Rightarrow> saver
     \<Rightarrow> (ngx_rc option \<times> syscall list \<times> saver) option" where
  "ea_persist_handler P F E z threads owner_rc sh V post_ok s =
     (let s = s \<lparr> pv_timer := False \<rparr> in
      if owner_rc \<noteq> NGX_OK
      then Some (Some NGX_OK, [], s \<lparr> pv_timer := (owner_rc = NGX_DECLINED) \<rparr>)
      else do {
        (rc, tr, s) \<leftarrow> (if threads then persist_post P F E z sh V post_ok s else ea_save P F E z sh V s);
        Some (rc, tr, if rc = None then s else s \<lparr> pv_timer := True \<rparr>)
      })"

text \<open>The task on its thread; it reads the zone's buffer.  Then its completion in the event loop.\<close>

definition ea_persist_thread ::
  "platform \<Rightarrow> name_fmt \<Rightarrow> zone \<Rightarrow> nat \<Rightarrow> file_env \<Rightarrow> saver \<Rightarrow> (ngx_rc option \<times> syscall list \<times> saver) option" where
  "ea_persist_thread P F z fuel fe s =
     (case pv_task s of
        T_POSTED len \<Rightarrow> do {
          buf \<leftarrow> pv_buf s;
          data \<leftarrow> slice buf 0 len;
          let (rc, tr) = ea_write_file fuel P F fe data (z_persist z);
          Some (rc, tr, if rc = None then s else s \<lparr> pv_task := T_DONE \<rparr>)
        }
      | _ \<Rightarrow> None)"

definition ea_persist_complete :: "saver \<Rightarrow> saver" where
  "ea_persist_complete s = s \<lparr> pv_task := T_IDLE, pv_busy := False \<rparr>"

section \<open>The processes\<close>

datatype process = SINGLE | WORKER nat | HELPER

text \<open>Which process saves: on POSIX the first worker, on Windows each that may own the file.\<close>

definition saves_here :: "platform \<Rightarrow> process \<Rightarrow> bool" where
  "saves_here P pr = (P = WIN32 \<or> pr = SINGLE \<or> pr = WORKER 0)"

definition ea_init_process_zone :: "platform \<Rightarrow> process \<Rightarrow> zone \<Rightarrow> ngx_rc \<Rightarrow> saver option" where
  "ea_init_process_zone P pr z owner_rc =
     (if pr = HELPER \<or> \<not> saves_here P pr \<or> z_persist z = [] \<or> (P = WIN32 \<and> owner_rc = NGX_ERROR) then None
      else Some \<lparr> pv_buf = None, pv_busy = False, pv_task = T_IDLE, pv_timer = True \<rparr>)"

definition ea_exit_process_zone ::
  "platform \<Rightarrow> process \<Rightarrow> name_fmt \<Rightarrow> 's ngx \<Rightarrow> zone \<Rightarrow> bool \<Rightarrow> 's shctx \<Rightarrow> save_env \<Rightarrow> saver
     \<Rightarrow> (ngx_rc option \<times> syscall list \<times> saver) option" where
  "ea_exit_process_zone P pr F E z owned sh V s =
     (if \<not> saves_here P pr \<or> z_persist z = [] \<or> (P = WIN32 \<and> \<not> owned) then Some (Some NGX_OK, [], s)
      else do {
        (rc, tr, s) \<leftarrow> ea_save P F E z sh V s;
        Some (rc, tr, if rc = None then s else s \<lparr> pv_buf := None \<rparr>)
      })"

section \<open>Runs\<close>

text \<open>A snapshot of a store the zone may have: an image of its clients, as many as fit, in the order
  they would be restored, with the authentication code if one is configured.\<close>

definition genuine :: "'s ngx \<Rightarrow> zone \<Rightarrow> bytes \<Rightarrow> bool" where
  "genuine E z c \<longleftrightarrow> (\<exists>(sh :: 's shctx) rs rest m. wf_sh E z sh \<and> map rec_of (rev (zabs sh)) = rs @ rest
     \<and> (length (enc_recs (map rec_of (rev (zabs sh)))) + FILE_HDR_LEN \<le> z_shm_size z \<longrightarrow> rest = [])
     \<and> mac_of E z (enc_file E z rs) = Some m \<and> c = enc_file E z rs @ m)"

definition env_doc :: "name_fmt \<Rightarrow> zone \<Rightarrow> save_env \<Rightarrow> fs \<Rightarrow> bool" where
  "env_doc F z V fs \<longleftrightarrow> (\<forall>n b. se_alloc V n = Some b \<longrightarrow> length b = n) \<and> creates_doc F (z_persist z) (se_file V) fs"

text \<open>One step of a process that saves a zone, with the file calls it makes.  A step whose write does not
  end is only begun; the pool's threads have ended before the process does.\<close>

inductive save_step ::
  "platform \<Rightarrow> name_fmt \<Rightarrow> 's ngx \<Rightarrow> zone \<Rightarrow> bool \<Rightarrow> 's shctx \<times> fs \<times> saver \<Rightarrow> syscall list \<Rightarrow> 's shctx \<times> fs \<times> saver \<Rightarrow> bool"
  for P F E z threads where
  ps_tick: "save_step P F E z threads (sh, fs, s) tr (sh, run_sys tr fs, s')"
    if "pv_timer s" "env_doc F z V fs" "ea_persist_handler P F E z threads owner_rc sh V post_ok s = Some (rc, tr, s')"
| ps_thread: "save_step P F E z threads (sh, fs, s) tr (sh, run_sys tr fs, s')"
    if "pv_task s = T_POSTED len" "creates_doc F (z_persist z) fe fs" "ea_persist_thread P F z fuel fe s = Some (rc, tr, s')"
| ps_complete: "save_step P F E z threads (sh, fs, s) [] (sh, fs, ea_persist_complete s)"
    if "pv_task s = T_DONE"
| ps_zone: "save_step P F E z threads (sh, fs, s) [] (sh', fs, s)"
    if "wf_sh E z sh'"
| ps_files: "save_step P F E z threads (sh, fs, s) [] (sh, fs', s)"
    if "fs_dir fs' (z_persist z) = fs_dir fs (z_persist z)" "fs_disk fs' (z_persist z) = fs_disk fs (z_persist z)"
      "\<forall>i \<in> disk_inodes fs (z_persist z). fs_data fs' i = fs_data fs i \<and> (i \<in> fs_flushed fs \<longrightarrow> i \<in> fs_flushed fs')"
| ps_exit: "save_step P F E z threads (sh, fs, s) tr (sh, run_sys tr fs, s')"
    if "\<nexists>len. pv_task s = T_POSTED len" "env_doc F z V fs" "ea_exit_process_zone P pr F E z owned sh V s = Some (rc, tr, s')"

inductive_cases save_stepE: "save_step P F E z threads (sh, fs, s) tr s'"

abbreviation save_run where
  "save_run P F E z threads \<equiv> run (save_step P F E z threads)"

text \<open>What the engine and the configuration guarantee of a zone with a file.\<close>

definition saved_zone :: "'s ngx \<Rightarrow> zone \<Rightarrow> bool" where
  "saved_zone E z \<longleftrightarrow> digest_doc E \<and> wf_zone z \<and> FILE_HDR_LEN \<le> z_shm_size z \<and> z_shm_size z < 2 ^ 63"

text \<open>The contents the file may have: what it had at first, or a snapshot.\<close>

definition wholes :: "'s ngx \<Rightarrow> zone \<Rightarrow> bytes option \<Rightarrow> bytes option set" where
  "wholes E z c0 = insert c0 (Some ` {c. genuine E z c})"

definition in_flight_ok :: "'s ngx \<Rightarrow> zone \<Rightarrow> bool \<Rightarrow> saver \<Rightarrow> bool" where
  "in_flight_ok E z threads s \<longleftrightarrow> (pv_busy s \<longleftrightarrow> pv_task s \<noteq> T_IDLE) \<and> (\<not> threads \<longrightarrow> pv_task s = T_IDLE)
     \<and> (\<forall>len. pv_task s = T_POSTED len \<longrightarrow> (\<exists>buf. pv_buf s = Some buf \<and> len \<le> length buf \<and> genuine E z (take len buf)))"

definition save_inv :: "'s ngx \<Rightarrow> zone \<Rightarrow> bool \<Rightarrow> bytes option \<Rightarrow> 's shctx \<times> fs \<times> saver \<Rightarrow> bool" where
  "save_inv E z threads c0 = (\<lambda>(sh, fs, s). wf_sh E z sh \<and> in_flight_ok E z threads s \<and> path_ok fs (z_persist z) (wholes E z c0))"

section \<open>What one step does\<close>

lemma serialize_genuine:
  assumes z: "saved_zone E z" and wf: "wf_sh E z sh" and al: "\<forall>n b. alloc n = Some b \<longrightarrow> length b = n"
  obtains (none) "ea_serialize E z sh alloc pbuf = Some None"
  | (some) buf len where "ea_serialize E z sh alloc pbuf = Some (Some (buf, len))" "len \<le> length buf" "genuine E z (take len buf)"
      "len \<le> z_shm_size z + MAC_LEN"
proof -
  have doc: "digest_doc E" "wf_zone z" "FILE_HDR_LEN \<le> z_shm_size z" "z_shm_size z < 2 ^ 63" using z by (simp_all add: saved_zone_def)
  obtain r rs rest where r: "ea_serialize E z sh alloc pbuf = Some r" "map rec_of (rev (zabs sh)) = rs @ rest"
    "length (enc_recs (map rec_of (rev (zabs sh)))) + FILE_HDR_LEN \<le> z_shm_size z \<longrightarrow> rest = []"
    "case r of None \<Rightarrow> persist_buffer alloc pbuf (z_shm_size z + MAC_LEN) = None \<or> mac_of E z (enc_file E z rs) = None
     | Some (buf, len) \<Rightarrow> \<exists>m. mac_of E z (enc_file E z rs) = Some m \<and> take len buf = enc_file E z rs @ m
         \<and> len = length (enc_file E z rs @ m) \<and> len \<le> z_shm_size z + MAC_LEN"
    using snapshot_written[OF doc wf, of alloc pbuf] al by blast
  show ?thesis
  proof (cases r)
    case None
    then show ?thesis using none r(1) by simp
  next
    case (Some v)
    obtain buf len m where v: "v = (buf, len)" "mac_of E z (enc_file E z rs) = Some m" "take len buf = enc_file E z rs @ m"
      "len = length (enc_file E z rs @ m)" "len \<le> z_shm_size z + MAC_LEN"
      using r(4) Some by (cases v) auto
    have "len \<le> length buf" using arg_cong[OF v(3), of length] unfolding v(4) [symmetric] by simp
    moreover have "genuine E z (take len buf)" unfolding genuine_def using wf r(2,3) v(2,3) by metis
    ultimately show ?thesis using some[OF _ _ _ v(5), of buf] r(1) Some v(1) by simp
  qed
qed

lemma slice_start: "len \<le> length buf \<Longrightarrow> slice buf 0 len = Some (take len buf)"
  by (simp add: slice_def)

text \<open>What a tick, a thread and an exit do: nothing to files, or one write of a genuine snapshot.\<close>

definition writes_one :: "platform \<Rightarrow> name_fmt \<Rightarrow> 's ngx \<Rightarrow> zone \<Rightarrow> nat \<Rightarrow> file_env \<Rightarrow> ngx_rc option \<Rightarrow> syscall list \<Rightarrow> bool" where
  "writes_one P F E z fuel fe rc tr \<longleftrightarrow>
     rc \<noteq> None \<and> tr = [] \<or> (\<exists>data. genuine E z data \<and> length data \<le> z_shm_size z + MAC_LEN \<and> ea_write_file fuel P F fe data (z_persist z) = (rc, tr))"

lemma save_does:
  assumes z: "saved_zone E z" and wf: "wf_sh E z sh" and al: "\<forall>n b. se_alloc V n = Some b \<longrightarrow> length b = n"
  obtains rc tr buf where "ea_save P F E z sh V s = Some (rc, tr, s \<lparr> pv_buf := buf \<rparr>)" "writes_one P F E z (se_fuel V) (se_file V) rc tr"
proof (rule serialize_genuine[OF z wf al, of "pv_buf s"])
  assume "ea_serialize E z sh (se_alloc V) (pv_buf s) = Some None"
  then show ?thesis using that[of "Some NGX_ERROR" "[]" "se_left V"] by (simp add: ea_save_def writes_one_def)
next
  fix buf len
  assume a: "ea_serialize E z sh (se_alloc V) (pv_buf s) = Some (Some (buf, len))" "len \<le> length buf" "genuine E z (take len buf)"
    "len \<le> z_shm_size z + MAC_LEN"
  obtain rc tr where w: "ea_write_file (se_fuel V) P F (se_file V) (take len buf) (z_persist z) = (rc, tr)" by fastforce
  have "writes_one P F E z (se_fuel V) (se_file V) rc tr" unfolding writes_one_def using a(3,4) w by (metis length_take min.coboundedI2)
  then show ?thesis using that[of rc tr "Some buf"] a(1,2) w by (simp add: ea_save_def slice_start)
qed

lemma post_does:
  assumes z: "saved_zone E z" and wf: "wf_sh E z sh" and al: "\<forall>n b. se_alloc V n = Some b \<longrightarrow> length b = n"
    and ok: "in_flight_ok E z True s"
  obtains rc tr s' where "persist_post P F E z sh V post_ok s = Some (rc, tr, s')" "writes_one P F E z (se_fuel V) (se_file V) rc tr"
    "in_flight_ok E z True s'" "pv_busy s \<longrightarrow> s' = s \<and> tr = []"
proof (cases "pv_busy s")
  case True
  then show ?thesis using that[of "Some NGX_OK" "[]" s] ok by (simp add: persist_post_def writes_one_def)
next
  case False
  then have idle: "pv_task s = T_IDLE" using ok by (simp add: in_flight_ok_def)
  show ?thesis
  proof (rule serialize_genuine[OF z wf al, of "pv_buf s"])
    assume "ea_serialize E z sh (se_alloc V) (pv_buf s) = Some None"
    then show ?thesis using that[of "Some NGX_OK" "[]" "s \<lparr> pv_buf := se_left V, pv_task := T_IDLE \<rparr>"] False
      by (simp add: persist_post_def writes_one_def in_flight_ok_def)
  next
    fix buf len
    assume a: "ea_serialize E z sh (se_alloc V) (pv_buf s) = Some (Some (buf, len))" "len \<le> length buf" "genuine E z (take len buf)"
      "len \<le> z_shm_size z + MAC_LEN"
    show ?thesis
    proof (cases post_ok)
      case True
      then show ?thesis using that[of "Some NGX_OK" "[]" "s \<lparr> pv_buf := Some buf, pv_busy := True, pv_task := T_POSTED len \<rparr>"] False a
        by (simp add: persist_post_def writes_one_def in_flight_ok_def)
    next
      case sync: False
      obtain rc tr where w: "ea_write_file (se_fuel V) P F (se_file V) (take len buf) (z_persist z) = (rc, tr)" by fastforce
      have "writes_one P F E z (se_fuel V) (se_file V) rc tr" unfolding writes_one_def using a(3,4) w by (metis length_take min.coboundedI2)
      then show ?thesis
        using that[of rc tr "s \<lparr> pv_buf := Some buf, pv_busy := False, pv_task := T_IDLE \<rparr>"] False sync a(1,2) w
        by (simp add: persist_post_def slice_start in_flight_ok_def)
    qed
  qed
qed

lemma in_flight_timer [simp]: "in_flight_ok E z threads (s \<lparr> pv_timer := b \<rparr>) = in_flight_ok E z threads s"
  by (simp add: in_flight_ok_def)

lemma idle_ok: "pv_task s = T_IDLE \<Longrightarrow> in_flight_ok E z threads s \<Longrightarrow> in_flight_ok E z threads (s \<lparr> pv_buf := b \<rparr>)"
  by (simp add: in_flight_ok_def)

lemma handler_does:
  assumes z: "saved_zone E z" and wf: "wf_sh E z sh" and al: "\<forall>n b. se_alloc V n = Some b \<longrightarrow> length b = n"
    and ok: "in_flight_ok E z threads s"
  obtains rc tr s' where "ea_persist_handler P F E z threads owner_rc sh V post_ok s = Some (rc, tr, s')"
    "writes_one P F E z (se_fuel V) (se_file V) rc tr" "in_flight_ok E z threads s'"
    "pv_busy s \<longrightarrow> pv_buf s' = pv_buf s \<and> pv_task s' = pv_task s \<and> tr = []"
    "rc \<noteq> None \<longrightarrow> (pv_timer s' \<longleftrightarrow> owner_rc \<in> {NGX_OK, NGX_DECLINED})"
proof -
  let ?s = "s \<lparr> pv_timer := False \<rparr>"
  have ok': "in_flight_ok E z threads ?s" using ok by simp
  show ?thesis
  proof (cases "owner_rc = NGX_OK")
    case False
    then show ?thesis using that[of "Some NGX_OK" "[]" "s \<lparr> pv_timer := (owner_rc = NGX_DECLINED) \<rparr>"] ok
      by (simp add: ea_persist_handler_def writes_one_def)
  next
    case True
    show ?thesis
    proof (cases threads)
      case thr: True
      show ?thesis
      proof (rule post_does[OF z wf al ok'[unfolded thr[THEN eqTrueI]], of P F post_ok])
        fix rc tr s'
        assume "persist_post P F E z sh V post_ok ?s = Some (rc, tr, s')" "writes_one P F E z (se_fuel V) (se_file V) rc tr"
          "in_flight_ok E z True s'" "pv_busy ?s \<longrightarrow> s' = ?s \<and> tr = []"
        then show ?thesis using that[of rc tr "if rc = None then s' else s' \<lparr> pv_timer := True \<rparr>"] True thr
          by (simp add: ea_persist_handler_def)
      qed
    next
      case thr: False
      show ?thesis
      proof (rule save_does[OF z wf al, of P F ?s])
        fix rc tr buf
        assume "ea_save P F E z sh V ?s = Some (rc, tr, ?s \<lparr> pv_buf := buf \<rparr>)" "writes_one P F E z (se_fuel V) (se_file V) rc tr"
        then show ?thesis using that[of rc tr "if rc = None then ?s \<lparr> pv_buf := buf \<rparr> else ?s \<lparr> pv_buf := buf, pv_timer := True \<rparr>"] True thr ok
          by (simp add: ea_persist_handler_def in_flight_ok_def)
      qed
    qed
  qed
qed

lemma thread_does:
  assumes ok: "in_flight_ok E z threads s" and t: "pv_task s = T_POSTED len"
    and r: "ea_persist_thread P F z fuel fe s = Some (rc, tr, s')"
  shows "\<exists>data. genuine E z data \<and> ea_write_file fuel P F fe data (z_persist z) = (rc, tr)"
    and "in_flight_ok E z threads s'" and "pv_buf s' = pv_buf s" and "pv_task s' \<in> {T_POSTED len, T_DONE}"
proof -
  obtain buf where b: "pv_buf s = Some buf" "len \<le> length buf" "genuine E z (take len buf)"
    using ok t by (auto simp: in_flight_ok_def)
  then have e: "ea_write_file fuel P F fe (take len buf) (z_persist z) = (rc, tr)"
    "s' = (if rc = None then s else s \<lparr> pv_task := T_DONE \<rparr>)"
    using r t by (auto simp: ea_persist_thread_def slice_start split: prod.splits)
  then show "\<exists>data. genuine E z data \<and> ea_write_file fuel P F fe data (z_persist z) = (rc, tr)" using b(3) by blast
  show "in_flight_ok E z threads s'" "pv_buf s' = pv_buf s" "pv_task s' \<in> {T_POSTED len, T_DONE}"
    using e(2) ok t by (auto simp: in_flight_ok_def)
qed

lemma exit_does:
  assumes z: "saved_zone E z" and wf: "wf_sh E z sh" and al: "\<forall>n b. se_alloc V n = Some b \<longrightarrow> length b = n"
    and ok: "in_flight_ok E z threads s" and t: "\<nexists>len. pv_task s = T_POSTED len"
    and r: "ea_exit_process_zone P pr F E z owned sh V s = Some (rc, tr, s')"
  shows "writes_one P F E z (se_fuel V) (se_file V) rc tr" "in_flight_ok E z threads s'"
proof -
  have keeps: "in_flight_ok E z threads (s \<lparr> pv_buf := b \<rparr>)" for b using ok t by (auto simp: in_flight_ok_def)
  obtain rc' tr' buf where k: "ea_save P F E z sh V s = Some (rc', tr', s \<lparr> pv_buf := buf \<rparr>)"
    "writes_one P F E z (se_fuel V) (se_file V) rc' tr'" using save_does[OF z wf al] by metis
  have "writes_one P F E z (se_fuel V) (se_file V) rc tr \<and> in_flight_ok E z threads s'"
  proof (cases "\<not> saves_here P pr \<or> z_persist z = [] \<or> (P = WIN32 \<and> \<not> owned)")
    case True
    then have "rc = Some NGX_OK" "tr = []" "s' = s" using r by (simp_all add: ea_exit_process_zone_def)
    then show ?thesis using ok by (simp add: writes_one_def)
  next
    case False
    then have "rc = rc'" "tr = tr'" "s' = (if rc' = None then s \<lparr> pv_buf := buf \<rparr> else s \<lparr> pv_buf := None \<rparr>)"
      using r k(1) by (auto simp: ea_exit_process_zone_def)
    then show ?thesis using k(2) keeps by simp
  qed
  then show "writes_one P F E z (se_fuel V) (se_file V) rc tr" "in_flight_ok E z threads s'" by simp_all
qed

section \<open>Every step keeps the file whole\<close>

lemma written_whole:
  assumes "path_ok fs (z_persist z) (wholes E z c0)" "creates_doc F (z_persist z) fe fs" "writes_one POSIX F E z fuel fe rc tr"
  shows "path_ok (run_sys (take n tr) fs) (z_persist z) (wholes E z c0)"
  using assms(3) unfolding writes_one_def
proof (elim disjE conjE exE)
  fix data assume a: "genuine E z data" "ea_write_file fuel POSIX F fe data (z_persist z) = (rc, tr)"
  have "insert (Some data) (wholes E z c0) = wholes E z c0" using a(1) by (auto simp: wholes_def)
  then show ?thesis using write_file_held(1)[OF assms(1,2) a(2), of n] by simp
qed (use assms(1) in simp)

lemma save_step_ok:
  assumes z: "saved_zone E z" and inv: "save_inv E z threads c0 (sh, fs, s)"
    and step: "save_step POSIX F E z threads (sh, fs, s) tr (sh', fs', s')"
  shows "save_inv E z threads c0 (sh', fs', s') \<and> path_ok (run_sys (take n tr) fs) (z_persist z) (wholes E z c0)
     \<and> (\<forall>len. pv_task s = T_POSTED len \<longrightarrow> pv_buf s' = pv_buf s \<and> pv_task s' \<in> {T_POSTED len, T_DONE})"
proof -
  have wf: "wf_sh E z sh" and ok: "in_flight_ok E z threads s" and pok: "path_ok fs (z_persist z) (wholes E z c0)"
    using inv by (simp_all add: save_inv_def)
  have whole: "path_ok (run_sys tr fs) (z_persist z) (wholes E z c0) \<and> path_ok (run_sys (take n tr) fs) (z_persist z) (wholes E z c0)"
    if "creates_doc F (z_persist z) fe fs" "writes_one POSIX F E z fuel fe rc tr" for fe fuel rc tr
    using written_whole[OF pok that, of n] written_whole[OF pok that, of "length tr"] by simp
  from step show ?thesis
  proof (cases rule: save_step.cases)
    case (ps_tick V owner_rc post_ok rc)
    have v: "\<forall>n b. se_alloc V n = Some b \<longrightarrow> length b = n" "creates_doc F (z_persist z) (se_file V) fs"
      using ps_tick by (simp_all add: env_doc_def)
    obtain rc2 tr2 s2 where h: "ea_persist_handler POSIX F E z threads owner_rc sh V post_ok s = Some (rc2, tr2, s2)"
      "writes_one POSIX F E z (se_fuel V) (se_file V) rc2 tr2" "in_flight_ok E z threads s2"
      "pv_busy s \<longrightarrow> pv_buf s2 = pv_buf s \<and> pv_task s2 = pv_task s \<and> tr2 = []"
      by (rule handler_does[OF z wf v(1) ok]) (rule that)
    have "rc2 = rc" "tr2 = tr" "s2 = s'" using h(1) ps_tick by simp_all
    then show ?thesis using h whole[OF v(2)] wf ps_tick ok by (auto simp: save_inv_def in_flight_ok_def)
  next
    case (ps_thread len fe fuel rc)
    note t = thread_does[OF ok ps_thread(3,5)]
    have "creates_doc F (z_persist z) fe fs" using ps_thread by simp
    moreover obtain data where "genuine E z data" "ea_write_file fuel POSIX F fe data (z_persist z) = (rc, tr)" using t(1) by blast
    moreover have "insert (Some data) (wholes E z c0) = wholes E z c0" if "genuine E z data" for data using that by (auto simp: wholes_def)
    ultimately have "path_ok (run_sys (take m tr) fs) (z_persist z) (wholes E z c0)" for m
      using write_file_held(1)[OF pok] by metis
    from this[of n] this[of "length tr"] show ?thesis using t(2-4) ps_thread wf by (simp add: save_inv_def)
  next
    case ps_complete
    then show ?thesis using wf ok pok by (simp add: save_inv_def ea_persist_complete_def in_flight_ok_def)
  next
    case ps_zone
    then show ?thesis using inv pok by (simp add: save_inv_def)
  next
    case ps_files
    have "path_ok fs' (z_persist z) (wholes E z c0)"
    proof -
      have "map_option (fs_data fs') d = map_option (fs_data fs) d \<and> (\<forall>i. d = Some i \<longrightarrow> i \<in> fs_flushed fs')"
        if "d \<in> fs_disk fs (z_persist z)" for d
        using ps_files pok that by (cases d) (auto simp: disk_inodes_def path_ok_def)
      then show ?thesis using ps_files pok by (simp add: path_ok_def)
    qed
    then show ?thesis using ps_files wf ok pok by (simp add: save_inv_def)
  next
    case (ps_exit V pr owned rc)
    have v: "\<forall>n b. se_alloc V n = Some b \<longrightarrow> length b = n" "creates_doc F (z_persist z) (se_file V) fs"
      using ps_exit by (simp_all add: env_doc_def)
    have t: "\<nexists>len. pv_task s = T_POSTED len" using ps_exit by simp
    have "ea_exit_process_zone POSIX pr F E z owned sh V s = Some (rc, tr, s')" using ps_exit by simp
    note e = exit_does[OF z wf v(1) ok t this]
    show ?thesis using e(2) ps_exit whole[OF v(2) e(1)] wf t by (simp add: save_inv_def)
  qed
qed

interpretation sp: invariant_system "save_step POSIX F E z threads" "\<lambda>st. saved_zone E z \<and> save_inv E z threads c0 st"
proof unfold_locales
  fix st tr st' assume a: "saved_zone E z \<and> save_inv E z threads c0 st" "save_step POSIX F E z threads st tr st'"
  obtain sh fs s sh' fs' s' where "st = (sh, fs, s)" "st' = (sh', fs', s')" by (metis prod_cases3)
  then show "saved_zone E z \<and> save_inv E z threads c0 st'" using a save_step_ok by blast
qed

section \<open>Properties\<close>

text \<open>C11. On POSIX, writing a snapshot replaces the file as a whole or not at all.  Whatever fails and wherever the
  process or the machine stops, the path shows, at once and after a crash, its old contents or all of the
  new ones; success means the new ones, and with the directory flushed they are safe on the disk; an
  error leaves the old ones; and a write that has ended leaves no other name behind, if the temporary
  file can be removed.\<close>

theorem save_atomic:
  assumes "settled_file fs p" "creates_doc F p env fs" "ea_write_file fuel POSIX F env data p = (rc, tr)"
  shows "(\<forall>n fs'. content (run_sys (take n tr) fs) p \<in> {content fs p, Some data}
           \<and> (crash (run_sys (take n tr) fs) fs' \<longrightarrow> content fs' p \<in> {content fs p, Some data}))
     \<and> content (run_sys tr fs) p = (if rc = Some NGX_OK then Some data else content fs p)
     \<and> (rc = Some NGX_OK \<and> fe_dir_open env \<and> fe_dir_sync env \<and> parent_of p \<noteq> None \<longrightarrow> settled_file (run_sys tr fs) p)
     \<and> (rc \<noteq> None \<and> fe_unlink env \<longrightarrow> (\<forall>q. q \<noteq> p \<longrightarrow> fs_dir (run_sys tr fs) q = fs_dir fs q))"
proof -
  note ok = settled_path_ok[OF assms(1)]
  note held = write_file_held[OF ok assms(2,3)]
  have "content fs' p \<in> {content fs p, Some data}" if "crash (run_sys (take n tr) fs) fs'" for n fs'
    using path_ok_crash[OF held(1) that] by blast
  then show ?thesis
    using held(2,3) write_file_durable[OF _ ok assms(2)] write_file_clean[OF assms(3,2)] assms(3) by blast
qed

text \<open>C23. Both loops over a descriptor end.  If the environment interrupts only finitely often, at most as
  many rounds as there are bytes and interruptions are needed; \<^verbatim>\<open>write_all\<close> then has written exactly the
  data, or a proper part of it and the system reported an error; \<^verbatim>\<open>read_all\<close> has read exactly the bytes wanted,
  or the file was shorter or the system reported an error.\<close>

theorem transfer_loops_end:
  assumes "finite (interruptions P io 0)" "length data + card (interruptions P io 0) \<le> fuel" "len + card (interruptions P io 0) \<le> fuel"
  shows "(\<exists>rc tr rest. ea_write_all fuel P io fd 0 data = (Some rc, tr) \<and> data = written tr @ rest
       \<and> (rc = NGX_OK \<and> rest = [] \<or> rc = NGX_ERROR \<and> rest \<noteq> [] \<and> reported P io))
     \<and> (\<exists>rc buf. ea_read_all fuel P io 0 input len = (Some rc, buf)
       \<and> (rc = NGX_OK \<and> len \<le> length input \<and> buf = take len input \<or> rc = NGX_ERROR \<and> (length input < len \<or> reported P io)))"
proof -
  obtain rc tr where w: "ea_write_all fuel P io fd 0 data = (Some rc, tr)"
    using write_all_ends[OF assms(1,2), of fd] by (metis option.exhaust prod.collapse)
  obtain rc2 buf where r: "ea_read_all fuel P io 0 input len = (Some rc2, buf)"
    using read_all_ends[OF assms(1,3), of input] by (metis option.exhaust prod.collapse)
  show ?thesis using write_all_shape[OF w] read_all_shape[OF r] w r by auto
qed

text \<open>C10. On POSIX the file always holds a whole snapshot.  From the start of a process that saves a zone, through any
  interleaving of timer ticks, writes on the pool thread, completions, changes of the store, other files and
  the end of the process, with any failures: at every moment of every step, and after a crash at that moment,
  the zone's file holds what it held at first or a complete snapshot of a store the zone can have.\<close>

theorem file_always_whole:
  assumes "saved_zone E z" "ea_init_process_zone POSIX pr z owner_rc = Some s0" "wf_sh E z sh0" "settled_file fs0 (z_persist z)"
    and "save_run POSIX F E z threads (sh0, fs0, s0) trs (sh, fs, s)" "save_step POSIX F E z threads (sh, fs, s) tr st"
  shows "\<forall>n fs'. fs' = run_sys (take n tr) fs \<or> crash (run_sys (take n tr) fs) fs'
     \<longrightarrow> content fs' (z_persist z) \<in> wholes E z (content fs0 (z_persist z))"
proof -
  have s0: "s0 = \<lparr> pv_buf = None, pv_busy = False, pv_task = T_IDLE, pv_timer = True \<rparr>"
    using assms(2) by (simp add: ea_init_process_zone_def split: if_splits)
  have "path_ok fs0 (z_persist z) (wholes E z (content fs0 (z_persist z)))"
    by (rule path_ok_mono[OF settled_path_ok[OF assms(4)]]) (simp add: wholes_def)
  then have "save_inv E z threads (content fs0 (z_persist z)) (sh0, fs0, s0)"
    using assms(3) s0 by (simp add: save_inv_def in_flight_ok_def)
  then have inv: "save_inv E z threads (content fs0 (z_persist z)) (sh, fs, s)"
    using sp.run_inv[OF assms(5)] assms(1) by blast
  obtain sh' fs' s' where "st = (sh', fs', s')" by (metis prod_cases3)
  then have "path_ok (run_sys (take n tr) fs) (z_persist z) (wholes E z (content fs0 (z_persist z)))" for n
    using save_step_ok[OF assms(1) inv] assms(6) by blast
  then show ?thesis using path_ok_content path_ok_crash by blast
qed


lemma write_file_ends:
  assumes "finite (interruptions P (fe_write fe) 0)" "length data + card (interruptions P (fe_write fe) 0) \<le> fuel"
  shows "fst (ea_write_file fuel P F fe data p) \<noteq> None"
proof -
  have "fst (ea_write_all fuel P (fe_write fe) fd 0 data) \<noteq> None" for fd by (rule write_all_ends[OF assms])
  then have "ea_write_all fuel P (fe_write fe) fd 0 data \<noteq> (None, tr)" for fd tr by (metis fst_conv)
  then show ?thesis by (simp add: ea_write_file_def Let_def split: option.splits prod.splits)
qed

text \<open>C32. Saving goes on.  Every tick ends, if the environment interrupts only finitely often, within as many
  rounds as the snapshot can have bytes and there are interruptions; and it has set the timer again,
  unless the ownership of the file is lost for good: a failed allocation, serialization or write, or a
  write still in flight, never stops the saving.\<close>

theorem saving_goes_on:
  assumes "saved_zone E z" "save_inv E z threads c0 (sh, fs, s)" "\<forall>n b. se_alloc V n = Some b \<longrightarrow> length b = n"
    and "finite (interruptions P (fe_write (se_file V)) 0)"
    and "z_shm_size z + MAC_LEN + card (interruptions P (fe_write (se_file V)) 0) \<le> se_fuel V"
  shows "\<exists>rc tr s'. ea_persist_handler P F E z threads owner_rc sh V post_ok s = Some (Some rc, tr, s')
     \<and> (pv_timer s' \<longleftrightarrow> owner_rc = NGX_OK \<or> owner_rc = NGX_DECLINED)"
proof -
  have wf: "wf_sh E z sh" and ok: "in_flight_ok E z threads s" using assms(2) by (simp_all add: save_inv_def)
  obtain rc tr s' where h: "ea_persist_handler P F E z threads owner_rc sh V post_ok s = Some (rc, tr, s')"
    "writes_one P F E z (se_fuel V) (se_file V) rc tr" "rc \<noteq> None \<longrightarrow> (pv_timer s' \<longleftrightarrow> owner_rc \<in> {NGX_OK, NGX_DECLINED})"
    by (rule handler_does[OF assms(1) wf assms(3) ok]) (rule that)
  have "rc \<noteq> None"
    using h(2) unfolding writes_one_def
  proof (elim disjE conjE exE)
    fix data assume d: "length data \<le> z_shm_size z + MAC_LEN"
      "ea_write_file (se_fuel V) P F (se_file V) data (z_persist z) = (rc, tr)"
    have "length data + card (interruptions P (fe_write (se_file V)) 0) \<le> se_fuel V" using d(1) assms(5) by linarith
    from write_file_ends[OF assms(4) this, of F "z_persist z"] show "rc \<noteq> None" using d(2) by simp
  qed
  then show ?thesis using h(1,3) by auto
qed

section \<open>Witnesses\<close>

text \<open>A file system with an old snapshot at the zone's path, and an environment in which the first write is
  interrupted, the next writes one byte and the rest succeeds.\<close>

definition ex_fmt :: name_fmt where
  "ex_fmt = \<lparr> nf_pid = ascii ''7'', nf_hex = (\<lambda>x. ascii ''ab'') \<rparr>"

definition ex_file_env :: file_env where
  "ex_file_env = \<lparr> fe_alloc = True, fe_rnd = (\<lambda>_. (0, 0)), fe_create = (\<lambda>i. if i = 0 then CR_ERR EEXIST else CR_FD 9),
     fe_write = (\<lambda>k. if k = 0 then IO_FAIL EINTR else if k = 1 then IO_N 1 else IO_N 1000), fe_flush = True, fe_close = True,
     fe_rename = None, fe_win32_rename = (\<lambda>_ _. (Some EOTHER, [])), fe_unlink = True, fe_dir_open = True, fe_dir_sync = True \<rparr>"

definition ex_fs :: "bytes \<Rightarrow> bytes \<Rightarrow> fs" where
  "ex_fs p old = \<lparr> fs_dir = [p \<mapsto> 1], fs_data = (\<lambda>_. old), fs_disk = (\<lambda>q. {[p \<mapsto> 1] q}), fs_flushed = {1} \<rparr>"

lemma ex_settled: "settled_file (ex_fs p old) p" "content (ex_fs p old) p = Some old"
  by (simp_all add: settled_file_def content_def ex_fs_def)

lemma ex_creates: "creates_doc ex_fmt p ex_file_env (ex_fs p old)"
  by (auto simp: creates_doc_def ex_file_env_def ex_fs_def)

theorem save_atomic_witness:
  "\<exists>tr. ea_write_file 3 POSIX ex_fmt ex_file_env [1, 2, 3] (ascii ''/s/z'') = (Some NGX_OK, tr)
     \<and> content (run_sys tr (ex_fs (ascii ''/s/z'') [8])) (ascii ''/s/z'') = Some [1, 2, 3]"
proof -
  obtain tr where w: "ea_write_file 3 POSIX ex_fmt ex_file_env [1, 2, 3] (ascii ''/s/z'') = (Some NGX_OK, tr)"
    by (simp add: ea_write_file_def ex_file_env_def eval_nat_numeral ea_platform_interrupted_def Let_def finish_file_def ea_platform_replace_def)
  show ?thesis using save_atomic[OF ex_settled(1)[of _ "[8]"] ex_creates w] w by auto
qed

lemma ex_interruptions: "interruptions POSIX (fe_write ex_file_env) 0 = {0}"
  by (auto simp: interruptions_def ex_file_env_def ea_platform_interrupted_def split: if_splits)

lemma ex_not_reported: "\<not> reported POSIX (fe_write ex_file_env)"
  by (auto simp: reported_def ex_file_env_def ea_platform_interrupted_def)

theorem transfer_loops_end_witness:
  "\<exists>tr buf. ea_write_all 4 POSIX (fe_write ex_file_env) 9 0 [1, 2, 3] = (Some NGX_OK, tr) \<and> written tr = [1, 2, 3]
     \<and> ea_read_all 4 POSIX (fe_write ex_file_env) 0 [5, 6, 7] 2 = (Some NGX_OK, buf) \<and> buf = [5, 6]"
  using transfer_loops_end[of POSIX "fe_write ex_file_env" "[1, 2, 3]" 4 2 9 "[5, 6, 7]"] ex_not_reported
  by (auto simp: ex_interruptions)

definition ex_disk_zone :: zone where
  "ex_disk_zone = ex_zone \<lparr> z_persist := ascii ''/s/z'' \<rparr>"

definition ex_save_env :: save_env where
  "ex_save_env = \<lparr> se_alloc = ex_alloc, se_left = None, se_fuel = 70000, se_file = ex_file_env \<rparr>"

definition ex_saver :: saver where
  "ex_saver = \<lparr> pv_buf = None, pv_busy = False, pv_task = T_IDLE, pv_timer = True \<rparr>"

lemma ex_disk_zone_ok: "saved_zone ref_ngx ex_disk_zone" "wf_sh ref_ngx ex_disk_zone ex_sh2" "z_persist ex_disk_zone = ascii ''/s/z''"
  "ascii ''/s/z'' \<noteq> []" "z_shm_size ex_disk_zone = 65536"
  using ex_zone_wf wf_sh_threshold[of ex_disk_zone ex_zone ref_ngx ex_sh2] ex_sh2_wf ref_digest_doc
  by (simp_all add: saved_zone_def ex_disk_zone_def wf_zone_def snap_consts ascii_def)

abbreviation ex_disk where "ex_disk \<equiv> ex_fs (ascii ''/s/z'') [8]"

lemma ex_env_doc: "env_doc ex_fmt ex_disk_zone ex_save_env ex_disk" "\<forall>n b. se_alloc ex_save_env n = Some b \<longrightarrow> length b = n"
  using ex_creates by (auto simp: env_doc_def ex_save_env_def ex_disk_zone_ok ex_alloc_def)

lemma ex_saver_init: "ea_init_process_zone POSIX (WORKER 0) ex_disk_zone NGX_OK = Some ex_saver"
  by (simp add: ea_init_process_zone_def saves_here_def ex_saver_def ex_disk_zone_ok)

lemma ex_in_flight: "in_flight_ok ref_ngx ex_disk_zone threads ex_saver"
  by (simp add: in_flight_ok_def ex_saver_def)

lemma ex_path_ok: "path_ok ex_disk (z_persist ex_disk_zone) (wholes ref_ngx ex_disk_zone (Some [8]))"
  using path_ok_mono[OF settled_path_ok[OF ex_settled(1)], of _ _ "wholes ref_ngx ex_disk_zone (Some [8])"] ex_settled(2)
  by (simp add: wholes_def ex_disk_zone_ok(3))

theorem file_always_whole_witness:
  "\<exists>tr st. save_step POSIX ex_fmt ref_ngx ex_disk_zone False (ex_sh2, ex_disk, ex_saver) tr st
     \<and> content (run_sys (take 2 tr) ex_disk) (ascii ''/s/z'') \<in> wholes ref_ngx ex_disk_zone (Some [8])"
proof (rule handler_does[OF ex_disk_zone_ok(1,2) ex_env_doc(2) ex_in_flight, of POSIX ex_fmt False NGX_OK True])
  fix rc tr s'
  assume h: "ea_persist_handler POSIX ex_fmt ref_ngx ex_disk_zone False NGX_OK ex_sh2 ex_save_env True ex_saver = Some (rc, tr, s')"
  have "pv_timer ex_saver" by (simp add: ex_saver_def)
  from ps_tick[OF this ex_env_doc(1) h]
  have st: "save_step POSIX ex_fmt ref_ngx ex_disk_zone False (ex_sh2, ex_disk, ex_saver) tr (ex_sh2, run_sys tr ex_disk, s')" .
  have set: "settled_file ex_disk (z_persist ex_disk_zone)" "content ex_disk (z_persist ex_disk_zone) = Some [8]"
    using ex_settled by (simp_all add: ex_disk_zone_ok)
  have "save_run POSIX ex_fmt ref_ngx ex_disk_zone False (ex_sh2, ex_disk, ex_saver) [] (ex_sh2, ex_disk, ex_saver)" by (rule run_Nil)
  from file_always_whole[OF ex_disk_zone_ok(1) ex_saver_init ex_disk_zone_ok(2) set(1) this st]
  show ?thesis using st set(2) by (auto simp: ex_disk_zone_ok)
qed


theorem saving_goes_on_witness:
  "\<exists>rc tr s'. ea_persist_handler POSIX ex_fmt ref_ngx ex_disk_zone False NGX_OK ex_sh2 ex_save_env True ex_saver = Some (Some rc, tr, s')
     \<and> pv_timer s'"
proof -
  have inv: "save_inv ref_ngx ex_disk_zone False (Some [8]) (ex_sh2, ex_disk, ex_saver)"
    using ex_disk_zone_ok(2) ex_path_ok ex_in_flight by (simp add: save_inv_def)
  have "fe_write (se_file ex_save_env) = fe_write ex_file_env" "se_fuel ex_save_env = 70000" by (simp_all add: ex_save_env_def)
  then show ?thesis
    using saving_goes_on[OF ex_disk_zone_ok(1) inv ex_env_doc(2), of POSIX ex_fmt NGX_OK True]
    by (simp add: ex_interruptions ex_disk_zone_ok(5) snap_consts)
qed

end
