(* ===== verification/EA_Owner.thy ===== *)
theory EA_Owner
  imports EA_Scan EA_Trace
begin

text \<open>
  Who may save a zone on Windows, where every worker has a timer: the name of the system-wide mutex,
  computed from the file's canonical path, and the attempts of the processes to own it.
\<close>

section \<open>The name of the mutex\<close>

type_synonym wide = "16 word list"

definition wide :: "string \<Rightarrow> wide" where
  "wide s = map of_char s"

text \<open>What Windows and the allocator answer: the number of UTF-16 units of the path and the conversion,
  the length and the text of the full path, whether a directory can be opened, the final path of an open directory, its announced length, the
  function that gives it, and the folding of case.\<close>

record win_env =
  wv_alloc :: "nat \<Rightarrow> bool"
  wv_chars :: nat
  wv_convert :: "wide option"
  wv_full_len :: nat
  wv_full :: "wide \<Rightarrow> wide"
  wv_open :: "wide \<Rightarrow> bool"
  wv_proc :: bool
  wv_final_len :: nat
  wv_final :: "wide \<Rightarrow> wide"
  wv_lower :: "wide \<Rightarrow> wide"

text \<open>In this theory \<open>None\<close> is a failure that Windows or the allocator reports, and the C code returns it.\<close>

definition win_ok :: "bool \<Rightarrow> unit option" where
  "win_ok b = (if b then Some () else None)"

text \<open>The path is converted twice, for its length and into the buffer; it is no UTF-8 if either fails.\<close>

definition ea_win32_utf16 :: "win_env \<Rightarrow> wide option" where
  "ea_win32_utf16 V =
     (if wv_chars V = 0 then None
      else if \<not> wv_alloc V 0 then None
      else wv_convert V)"

definition is_sep :: "16 word \<Rightarrow> bool" where
  "is_sep c \<longleftrightarrow> c = 92 \<or> c = 47"

text \<open>The index of the last separator.\<close>

fun last_sep :: "nat \<Rightarrow> wide \<Rightarrow> nat option \<Rightarrow> nat option" where
  "last_sep i [] s = s"
| "last_sep i (c # cs) s = last_sep (Suc i) cs (if is_sep c then Some i else s)"

definition parent_len :: "wide \<Rightarrow> nat \<Rightarrow> nat" where
  "parent_len full s = (if s = 2 \<and> full ! 1 = 58 then s + 1 else s)"

definition canonical_of :: "(wide \<Rightarrow> wide) \<Rightarrow> wide \<Rightarrow> wide \<Rightarrow> wide" where
  "canonical_of lower final leaf =
     lower (map (\<lambda>c. if c = 47 then 92 else c)
       (final @ (if final \<noteq> [] \<and> last final \<noteq> 92 then [92] else []) @ leaf))"

text \<open>The directory of the file is opened and its final path taken; the file itself need not exist.\<close>

definition canonical_path :: "win_env \<Rightarrow> wide option" where
  "canonical_path V = do {
     path \<leftarrow> ea_win32_utf16 V;
     win_ok (wv_full_len V \<noteq> 0 \<and> wv_alloc V 1);
     let full = wv_full V path;
     win_ok (full \<noteq> [] \<and> length full \<le> wv_full_len V);
     s \<leftarrow> last_sep 0 full None;
     win_ok (Suc s < length full \<and> wv_alloc V 2);
     let parent = take (parent_len full s) full;
     win_ok (wv_open V parent \<and> wv_proc V \<and> wv_final_len V \<noteq> 0 \<and> wv_alloc V 3);
     let final = wv_final V parent;
     win_ok (final \<noteq> [] \<and> length final \<le> wv_final_len V \<and> wv_alloc V 4);
     Some (canonical_of (wv_lower V) final (drop (Suc s) full))
   }"

definition MUTEX_PREFIX :: wide where
  "MUTEX_PREFIX = wide ''Global'' @ [92] @ wide ''ngx_error_abuse_persist_''"

definition wide_bytes :: "wide \<Rightarrow> bytes" where
  "wide_bytes w = concat (map (\<lambda>c. [ucast c, ucast (drop_bit 8 c)]) w)"

definition hex_wide :: "byte \<Rightarrow> wide" where
  "hex_wide b = [wide ''0123456789abcdef'' ! unat (drop_bit 4 b), wide ''0123456789abcdef'' ! unat (b AND 0x0f)]"

definition mutex_of :: "bytes \<Rightarrow> wide" where
  "mutex_of digest = MUTEX_PREFIX @ concat (map hex_wide digest)"

definition ea_win32_mutex_name :: "(bytes \<Rightarrow> bytes option) \<Rightarrow> win_env \<Rightarrow> nat \<Rightarrow> wide option" where
  "ea_win32_mutex_name sha V cap = do {
     c \<leftarrow> canonical_path V;
     digest \<leftarrow> sha (wide_bytes c);
     win_ok (\<not> cap < length MUTEX_PREFIX + 32 * 2 + 1);
     Some (mutex_of digest)
   }"

section \<open>Owning the file\<close>

text \<open>The handle is the kernel's object, of which there is one for a name.\<close>

record owner =
  ow_mutex :: "wide option"
  ow_owned :: bool
  ow_failed :: bool

datatype wait_res = WAIT_OBJECT_0 | WAIT_ABANDONED | WAIT_TIMEOUT | WAIT_FAILED

definition OWNER_NAME_CAP :: nat where
  "OWNER_NAME_CAP = Suc (length ''Global'' + 1 + length ''ngx_error_abuse_persist_'') + 32 * 2"

definition owner_wait :: "wait_res \<Rightarrow> owner \<Rightarrow> ngx_rc \<times> owner" where
  "owner_wait w ow =
     (case w of
        WAIT_OBJECT_0 \<Rightarrow> (NGX_OK, ow \<lparr> ow_owned := True \<rparr>)
      | WAIT_ABANDONED \<Rightarrow> (NGX_OK, ow \<lparr> ow_owned := True \<rparr>)
      | WAIT_TIMEOUT \<Rightarrow> (NGX_DECLINED, ow)
      | WAIT_FAILED \<Rightarrow> (NGX_ERROR, ow \<lparr> ow_failed := True \<rparr>))"

definition ea_win32_owner_try ::
  "(bytes \<Rightarrow> bytes option) \<Rightarrow> win_env \<Rightarrow> bool \<Rightarrow> (wide \<Rightarrow> wait_res) \<Rightarrow> owner \<Rightarrow> ngx_rc \<times> owner" where
  "ea_win32_owner_try sha V create_ok wait ow =
     (if ow_owned ow then (NGX_OK, ow)
      else if ow_failed ow then (NGX_ERROR, ow)
      else case ow_mutex ow of
        Some m \<Rightarrow> owner_wait (wait m) ow
      | None \<Rightarrow>
          case ea_win32_mutex_name sha V OWNER_NAME_CAP of
            None \<Rightarrow> (NGX_ERROR, ow \<lparr> ow_failed := True \<rparr>)
          | Some m \<Rightarrow> if \<not> create_ok then (NGX_ERROR, ow \<lparr> ow_failed := True \<rparr>)
                      else owner_wait (wait m) (ow \<lparr> ow_mutex := Some m \<rparr>))"

text \<open>The second result is the mutex that is given back.\<close>

definition ea_win32_owner_release :: "bool \<Rightarrow> owner \<Rightarrow> owner \<times> wide option" where
  "ea_win32_owner_release release_ok ow =
     (ow \<lparr> ow_owned := False, ow_mutex := None \<rparr>, if ow_owned ow \<and> release_ok then ow_mutex ow else None)"

section \<open>The kernel and the processes\<close>

datatype mutex = FREE | HELD nat | ABANDONED

text \<open>What waiting for no time answers; it may always fail.\<close>

definition wait_doc :: "(wide \<Rightarrow> mutex) \<Rightarrow> nat \<Rightarrow> (wide \<Rightarrow> wait_res) \<Rightarrow> bool" where
  "wait_doc K p wait \<longleftrightarrow> (\<forall>m. wait m = WAIT_FAILED \<or> wait m =
     (case K m of FREE \<Rightarrow> WAIT_OBJECT_0 | ABANDONED \<Rightarrow> WAIT_ABANDONED | HELD q \<Rightarrow> if q = p then WAIT_OBJECT_0 else WAIT_TIMEOUT))"

text \<open>Each process has an owner record, all zero at its start; \<open>canon p\<close> is the canonical path of the file
  process \<open>p\<close> is configured with, whenever Windows gives it.\<close>

inductive owner_step ::
  "(bytes \<Rightarrow> bytes option) \<Rightarrow> (nat \<Rightarrow> wide) \<Rightarrow> (wide \<Rightarrow> mutex) \<times> (nat \<Rightarrow> owner option) \<Rightarrow> nat
     \<Rightarrow> (wide \<Rightarrow> mutex) \<times> (nat \<Rightarrow> owner option) \<Rightarrow> bool"
  for sha canon where
  os_start: "owner_step sha canon (K, own) p (K, own(p \<mapsto> \<lparr> ow_mutex = None, ow_owned = False, ow_failed = False \<rparr>))"
    if "own p = None" "\<And>m. K m \<noteq> HELD p"
| os_try: "owner_step sha canon (K, own) p
      (if \<not> ow_owned ow \<and> ow_owned ow' then K(the (ow_mutex ow') := HELD p) else K, own(p \<mapsto> ow'))"
    if "own p = Some ow" "\<And>c. canonical_path V = Some c \<Longrightarrow> c = canon p" "wait_doc K p wait"
      "ea_win32_owner_try sha V create_ok wait ow = (rc, ow')"
| os_release: "owner_step sha canon (K, own) p (case m of None \<Rightarrow> K | Some n \<Rightarrow> K(n := FREE), own(p \<mapsto> ow'))"
    if "own p = Some ow" "ea_win32_owner_release release_ok ow = (ow', m)"
| os_die: "owner_step sha canon (K, own) p (\<lambda>m. if K m = HELD p then ABANDONED else K m, own(p := None))"

abbreviation owner_run where
  "owner_run sha canon \<equiv> run (owner_step sha canon)"

definition owner_inv :: "(bytes \<Rightarrow> bytes option) \<Rightarrow> (nat \<Rightarrow> wide) \<Rightarrow> (wide \<Rightarrow> mutex) \<times> (nat \<Rightarrow> owner option) \<Rightarrow> bool" where
  "owner_inv sha canon = (\<lambda>(K, own). \<forall>p ow. own p = Some ow \<longrightarrow>
     (\<forall>m. ow_mutex ow = Some m \<longrightarrow> (\<exists>d. sha (wide_bytes (canon p)) = Some d \<and> m = mutex_of d))
   \<and> (ow_owned ow \<longrightarrow> (\<exists>m. ow_mutex ow = Some m \<and> K m = HELD p)))"

lemma owner_invD:
  assumes "owner_inv sha canon (K, own)" "own p = Some ow"
  shows "\<And>m. ow_mutex ow = Some m \<Longrightarrow> \<exists>d. sha (wide_bytes (canon p)) = Some d \<and> m = mutex_of d"
    and "ow_owned ow \<Longrightarrow> \<exists>m. ow_mutex ow = Some m \<and> K m = HELD p"
  using assms unfolding owner_inv_def prod.case by blast+

lemma name_canonical:
  "ea_win32_mutex_name sha V cap = Some m \<Longrightarrow> \<exists>c d. canonical_path V = Some c \<and> sha (wide_bytes c) = Some d \<and> m = mutex_of d"
  by (auto simp: ea_win32_mutex_name_def win_ok_def split: bind_splits if_splits)

lemma owner_wait_sel [simp]:
  "ow_mutex (snd (owner_wait w ow)) = ow_mutex ow"
  "ow_owned (snd (owner_wait w ow)) \<longleftrightarrow> ow_owned ow \<or> w = WAIT_OBJECT_0 \<or> w = WAIT_ABANDONED"
  by (cases w; simp add: owner_wait_def)+

text \<open>What an attempt gives: the mutex of the file, and ownership only if nobody else holds it.\<close>

lemma owner_try_gets:
  assumes "ea_win32_owner_try sha V create_ok wait ow = (rc, ow')" "wait_doc K p wait"
    and "\<And>c. canonical_path V = Some c \<Longrightarrow> c = canon p"
    and "\<And>m. ow_mutex ow = Some m \<Longrightarrow> \<exists>d. sha (wide_bytes (canon p)) = Some d \<and> m = mutex_of d"
  shows "\<And>m. ow_mutex ow' = Some m \<Longrightarrow> \<exists>d. sha (wide_bytes (canon p)) = Some d \<and> m = mutex_of d"
    and "\<not> ow_owned ow \<Longrightarrow> ow_owned ow' \<Longrightarrow> \<exists>m. ow_mutex ow' = Some m \<and> (\<forall>q. q \<noteq> p \<longrightarrow> K m \<noteq> HELD q)"
    and "ow_owned ow \<Longrightarrow> ow' = ow"
proof -
  have w: "\<forall>q. q \<noteq> p \<longrightarrow> K m \<noteq> HELD q" if "wait m = WAIT_OBJECT_0 \<or> wait m = WAIT_ABANDONED" for m
    using assms(2) that by (cases "K m") (auto simp: wait_doc_def dest!: spec[of _ m])
  have nm: "\<exists>d. sha (wide_bytes (canon p)) = Some d \<and> m = mutex_of d" if "ea_win32_mutex_name sha V OWNER_NAME_CAP = Some m" for m
    using name_canonical[OF that] assms(3) by blast
  have e: "ow' = snd (ea_win32_owner_try sha V create_ok wait ow)" using assms(1) by simp
  show "\<exists>d. sha (wide_bytes (canon p)) = Some d \<and> m = mutex_of d" if "ow_mutex ow' = Some m" for m
    using that assms(4) nm unfolding e by (auto simp: ea_win32_owner_try_def split: if_splits option.splits)
  show "\<exists>m. ow_mutex ow' = Some m \<and> (\<forall>q. q \<noteq> p \<longrightarrow> K m \<noteq> HELD q)" if "\<not> ow_owned ow" "ow_owned ow'"
    using that w unfolding e by (auto simp: ea_win32_owner_try_def split: if_splits option.splits)
  show "ow' = ow" if "ow_owned ow" using that unfolding e by (simp add: ea_win32_owner_try_def)
qed

lemma owner_step_inv:
  assumes "owner_inv sha canon (K, own)" "owner_step sha canon (K, own) p (K', own')"
  shows "owner_inv sha canon (K', own')"
  using assms(2)
proof (cases rule: owner_step.cases)
  case os_start
  then show ?thesis using assms(1) by (auto simp: owner_inv_def)
next
  case (os_try ow V wait create_ok rc ow')
  have held: "\<And>m. ow_mutex ow = Some m \<Longrightarrow> \<exists>d. sha (wide_bytes (canon p)) = Some d \<and> m = mutex_of d"
    "ow_owned ow \<Longrightarrow> \<exists>m. ow_mutex ow = Some m \<and> K m = HELD p"
    using assms(1) os_try by (auto simp: owner_inv_def)
  note g = owner_try_gets[where canon = canon and p = p, OF os_try(6,5,4) held(1)]
  show ?thesis
  proof (cases "\<not> ow_owned ow \<and> ow_owned ow'")
    case True
    then obtain m where m: "ow_mutex ow' = Some m" "\<forall>q. q \<noteq> p \<longrightarrow> K m \<noteq> HELD q" using g(2) by blast
    then have e: "K' = K(m := HELD p)" "own' = own(p \<mapsto> ow')" using os_try True by simp_all
    show ?thesis unfolding owner_inv_def e prod.case
    proof (intro allI impI conjI)
      fix q o' n assume a: "(own(p \<mapsto> ow')) q = Some o'" "ow_mutex o' = Some n"
      then show "\<exists>d. sha (wide_bytes (canon q)) = Some d \<and> n = mutex_of d"
        using g(1) assms(1) by (cases "q = p") (auto simp: owner_inv_def)
    next
      fix q o' assume a: "(own(p \<mapsto> ow')) q = Some o'" "ow_owned o'"
      show "\<exists>n. ow_mutex o' = Some n \<and> (K(m := HELD p)) n = HELD q"
      proof (cases "q = p")
        case False
        then obtain n where "ow_mutex o' = Some n" "K n = HELD q" using a owner_invD(2)[OF assms(1), of q o'] by auto
        then show ?thesis using m(2) False by auto
      qed (use a m(1) in simp)
    qed
  next
    case False
    then have e: "K' = K" "own' = own(p \<mapsto> ow')" using os_try by auto
    have "ow_owned ow' \<Longrightarrow> \<exists>m. ow_mutex ow' = Some m \<and> K m = HELD p" using False g(3) held(2) by blast
    then show ?thesis using assms(1) g(1) unfolding owner_inv_def e by auto
  qed
next
  case (os_release ow release_ok ow' m)
  have e: "ow' = ow \<lparr> ow_owned := False, ow_mutex := None \<rparr>" "m = (if ow_owned ow \<and> release_ok then ow_mutex ow else None)"
    using os_release by (auto simp: ea_win32_owner_release_def)
  have "K n = HELD p" if "m = Some n" for n using owner_invD(2)[OF assms(1) os_release(3)] that e(2) by (auto split: if_splits)
  then have other: "K' n = HELD q" if "K n = HELD q" "q \<noteq> p" for n q
    using that os_release(1) by (cases m) auto
  show ?thesis unfolding owner_inv_def prod.case
  proof (intro allI impI conjI)
    fix q o' n assume a: "own' q = Some o'" "ow_mutex o' = Some n"
    then show "\<exists>d. sha (wide_bytes (canon q)) = Some d \<and> n = mutex_of d"
      using assms(1) os_release(2) e(1) by (cases "q = p") (auto simp: owner_inv_def)
  next
    fix q o' assume a: "own' q = Some o'" "ow_owned o'"
    then have "q \<noteq> p" "own q = Some o'" using os_release(2) e(1) by (auto split: if_splits)
    then show "\<exists>n. ow_mutex o' = Some n \<and> K' n = HELD q" using owner_invD(2)[OF assms(1)] a(2) other by blast
  qed
next
  case os_die
  have "(\<forall>m. ow_mutex o' = Some m \<longrightarrow> (\<exists>d. sha (wide_bytes (canon q)) = Some d \<and> m = mutex_of d))
      \<and> (ow_owned o' \<longrightarrow> (\<exists>m. ow_mutex o' = Some m \<and> K' m = HELD q))" if "own' q = Some o'" for q o'
  proof -
    have q: "own q = Some o'" "q \<noteq> p" using that os_die by (auto split: if_splits)
    moreover have "K' m = HELD q" if "K m = HELD q" for m using that os_die(1) q(2) by simp
    ultimately show ?thesis using owner_invD[OF assms(1) q(1)] by blast
  qed
  then show ?thesis by (simp add: owner_inv_def)
qed

interpretation ow: invariant_system "owner_step sha canon" "owner_inv sha canon"
  by unfold_locales (metis owner_step_inv prod.collapse)

section \<open>The property\<close>

text \<open>C22. One process saves a file.  From no process at all, through any starts, attempts, releases and deaths
  of processes, with any failures of Windows: two processes that own the files they are configured with,
  where these are the same file by their canonical paths, are the same process.  And ownership is not
  lost: once no other process holds the file's mutex, because it was released or its holder died, the
  next attempt that Windows does not fail owns the file.\<close>

theorem single_owner:
  assumes "owner_run sha canon (K0, \<lambda>_. None) tr (K, own)"
  shows "(\<forall>p q a b. own p = Some a \<and> own q = Some b \<and> ow_owned a \<and> ow_owned b \<and> canon p = canon q \<longrightarrow> p = q)
     \<and> (\<forall>p ow d V wait. own p = Some ow \<and> \<not> ow_failed ow \<and> canonical_path V = Some (canon p) \<and> sha (wide_bytes (canon p)) = Some d
          \<and> wait_doc K p wait \<and> wait (mutex_of d) \<noteq> WAIT_FAILED \<and> (\<forall>q. q \<noteq> p \<longrightarrow> K (mutex_of d) \<noteq> HELD q)
        \<longrightarrow> (\<exists>ow'. ea_win32_owner_try sha V True wait ow = (NGX_OK, ow') \<and> ow_owned ow'))"
proof -
  have inv: "owner_inv sha canon (K, own)"
    by (rule ow.run_inv[OF assms]) (simp add: owner_inv_def)
  have one: "p = q" if a: "own p = Some a" "own q = Some b" "ow_owned a" "ow_owned b" "canon p = canon q" for p q a b
  proof -
    obtain m where m: "ow_mutex a = Some m" "K m = HELD p" using owner_invD(2)[OF inv a(1,3)] by blast
    obtain n where n: "ow_mutex b = Some n" "K n = HELD q" using owner_invD(2)[OF inv a(2,4)] by blast
    have "m = n" using owner_invD(1)[OF inv a(1) m(1)] owner_invD(1)[OF inv a(2) n(1)] a(5) by auto
    then show ?thesis using m(2) n(2) by simp
  qed
  have take: "\<exists>ow'. ea_win32_owner_try sha V True wait ow = (NGX_OK, ow') \<and> ow_owned ow'"
    if a: "own p = Some ow" "\<not> ow_failed ow" "canonical_path V = Some (canon p)" "sha (wide_bytes (canon p)) = Some d"
      "wait_doc K p wait" "wait (mutex_of d) \<noteq> WAIT_FAILED" "\<forall>q. q \<noteq> p \<longrightarrow> K (mutex_of d) \<noteq> HELD q" for p ow d V wait
  proof -
    have w: "wait (mutex_of d) = WAIT_OBJECT_0 \<or> wait (mutex_of d) = WAIT_ABANDONED"
      using a(5-7) by (cases "K (mutex_of d)") (auto simp: wait_doc_def dest!: spec[of _ "mutex_of d"])
    have nm: "ea_win32_mutex_name sha V OWNER_NAME_CAP = Some (mutex_of d)"
      using a(3,4) by (simp add: ea_win32_mutex_name_def win_ok_def MUTEX_PREFIX_def OWNER_NAME_CAP_def wide_def)
    have "ow_mutex ow = Some m \<Longrightarrow> m = mutex_of d" for m
      using owner_invD(1)[OF inv a(1)] a(4) by fastforce
    then show ?thesis using a(2) w nm
      by (cases "ow_mutex ow") (auto simp: ea_win32_owner_try_def owner_wait_def)
  qed
  show ?thesis using one take by blast
qed

definition ex_win :: win_env where
  "ex_win = \<lparr> wv_alloc = (\<lambda>_. True), wv_chars = 2, wv_convert = Some (wide ''s''), wv_full_len = 5, wv_full = (\<lambda>w. wide ''C:/'' @ w),
     wv_open = (\<lambda>_. True), wv_proc = True, wv_final_len = 4, wv_final = (\<lambda>w. wide ''C:''), wv_lower = (\<lambda>w. w) \<rparr>"

lemma ex_canonical: "canonical_path ex_win = Some (wide ''C:'' @ [92] @ wide ''s'')"
  by (simp add: canonical_path_def win_ok_def ea_win32_utf16_def ex_win_def wide_def is_sep_def parent_len_def canonical_of_def Let_def)

text \<open>A process that dies while it owns the file, and the next one that takes it over.\<close>

theorem single_owner_witness:
  "\<exists>K own ow'. owner_run (\<lambda>_. Some [1]) (\<lambda>_. wide ''C:'' @ [92] @ wide ''s'') (\<lambda>_. FREE, \<lambda>_. None) [1, 1, 1, 2] (K, own)
     \<and> K (mutex_of [1]) = ABANDONED
     \<and> ea_win32_owner_try (\<lambda>_. Some [1]) ex_win True
         (\<lambda>m. if m = mutex_of [1] then WAIT_ABANDONED else WAIT_OBJECT_0) \<lparr> ow_mutex = None, ow_owned = False, ow_failed = False \<rparr> = (NGX_OK, ow')
     \<and> ow_owned ow'"
proof -
  define sha where "sha = (\<lambda>_ :: bytes. Some [1 :: byte])"
  define canon where "canon = (\<lambda>_ :: nat. wide ''C:'' @ [92] @ wide ''s'')"
  define z where "z = \<lparr> ow_mutex = None, ow_owned = False, ow_failed = False \<rparr>"
  define o1 where "o1 = \<lparr> ow_mutex = Some (mutex_of [1]), ow_owned = True, ow_failed = False \<rparr>"
  define K2 where "K2 = (\<lambda>_ :: wide. FREE)(mutex_of [1] := HELD 1)"
  define own1 where "own1 = [1 :: nat \<mapsto> z]"
  define K3 where "K3 = (\<lambda>m. if K2 m = HELD 1 then ABANDONED else K2 m)"
  define own3 where "own3 = (own1(1 \<mapsto> o1))(1 := None)"
  define s0 where "s0 = (\<lambda>_ :: wide. FREE, \<lambda>_ :: nat. None :: owner option)"
  define s1 where "s1 = (\<lambda>_ :: wide. FREE, own1)"
  define s2 where "s2 = (K2, own1(1 \<mapsto> o1))"
  define s3 where "s3 = (K3, own3)"
  define s4 where "s4 = (K3, own3(2 \<mapsto> z))"
  have nm: "ea_win32_mutex_name sha ex_win OWNER_NAME_CAP = Some (mutex_of [1])"
    by (simp add: ea_win32_mutex_name_def win_ok_def ex_canonical sha_def MUTEX_PREFIX_def OWNER_NAME_CAP_def wide_def)
  have t: "ea_win32_owner_try sha ex_win True (\<lambda>_. WAIT_OBJECT_0) z = (NGX_OK, o1)"
    by (simp add: ea_win32_owner_try_def z_def o1_def nm owner_wait_def)
  have 1: "owner_step sha canon s0 1 s1"
    unfolding s0_def s1_def own1_def z_def by (rule os_start) simp_all
  have 2: "owner_step sha canon s1 1 s2"
    using os_try[of own1 1 z ex_win canon "\<lambda>_. FREE" "\<lambda>_. WAIT_OBJECT_0", OF _ _ _ t]
    by (simp add: s1_def s2_def own1_def canon_def ex_canonical wait_doc_def z_def o1_def K2_def)
  have 3: "owner_step sha canon s2 1 s3" unfolding s2_def s3_def K3_def own3_def by (rule os_die)
  have 4: "owner_step sha canon s3 2 s4"
    unfolding s3_def s4_def z_def by (rule os_start) (simp_all add: own3_def own1_def K3_def K2_def)
  have "owner_run sha canon s0 [] s0" by (rule run_Nil)
  from run_snoc[OF run_snoc[OF run_snoc[OF run_snoc[OF this 1] 2] 3] 4]
  have r: "owner_run sha canon (\<lambda>_. FREE, \<lambda>_. None) [1, 1, 1, 2] (K3, own3(2 \<mapsto> z))" by (simp add: s0_def s4_def)
  let ?wait = "\<lambda>m. if m = mutex_of [1] then WAIT_ABANDONED else WAIT_OBJECT_0"
  have w: "wait_doc K3 2 ?wait" by (simp add: wait_doc_def K3_def K2_def)
  have c: "canonical_path ex_win = Some (canon 2)" "sha (wide_bytes (canon 2)) = Some [1]" "\<not> ow_failed z" "K3 (mutex_of [1]) = ABANDONED"
    "\<forall>q. q \<noteq> 2 \<longrightarrow> K3 (mutex_of [1]) \<noteq> HELD q"
    by (simp_all add: canon_def ex_canonical sha_def z_def K3_def K2_def)
  have "(own3(2 \<mapsto> z)) 2 = Some z \<and> \<not> ow_failed z \<and> canonical_path ex_win = Some (canon 2) \<and> sha (wide_bytes (canon 2)) = Some [1]
      \<and> wait_doc K3 2 ?wait \<and> ?wait (mutex_of [1]) \<noteq> WAIT_FAILED \<and> (\<forall>q. q \<noteq> 2 \<longrightarrow> K3 (mutex_of [1]) \<noteq> HELD q)"
    using c w by simp
  then have "\<exists>ow'. ea_win32_owner_try sha ex_win True ?wait z = (NGX_OK, ow') \<and> ow_owned ow'"
    using single_owner[OF r, THEN conjunct2] by blast
  then show ?thesis using r c(4) unfolding sha_def canon_def z_def by blast
qed

end
