(* ===== verification/EA_Engine.thy ===== *)
theory EA_Engine
  imports EA_Zone
begin

text \<open>
  The zone as a whole refines the abstract engine: whatever any workers do to it, in whatever order, and whatever
  they are answered, the engine on a plain list of clients can do and answer as well.
\<close>

section \<open>Simulation\<close>

text \<open>A system whose every step, seen through \<open>abs\<close>, is one of another system with the same label.\<close>

locale simulation = invariant_system +
  fixes abs :: "'a \<Rightarrow> 'c"
    and astep :: "'c \<Rightarrow> 'b \<Rightarrow> 'c \<Rightarrow> bool"
  assumes step_sim: "inv s \<Longrightarrow> step s l s' \<Longrightarrow> astep (abs s) l (abs s')"
begin

lemma run_sim: "run step s tr s' \<Longrightarrow> inv s \<Longrightarrow> run astep (abs s) tr (abs s')"
proof (induction rule: run.induct)
  case (run_snoc s tr s' l s'')
  then show ?case using run.run_snoc[OF run_snoc.IH step_sim[OF run_inv]] by blast
qed (rule run_Nil)

text \<open>What holds in every state the abstract system reaches holds, through \<open>abs\<close>, in every state this one reaches.\<close>

lemma run_transfers: "run step s tr s' \<Longrightarrow> inv s \<Longrightarrow> (\<And>a. run astep (abs s) tr a \<Longrightarrow> P a) \<Longrightarrow> P (abs s')"
  using run_sim by blast

end

section \<open>The abstract engine as a system\<close>

text \<open>A state is the time of the last operation and the clients in order of use.\<close>

inductive engine_step :: "zone \<Rightarrow> time \<times> client list \<Rightarrow> zlabel \<Rightarrow> time \<times> client list \<Rightarrow> bool" for z where
  es_record: "t \<le> now \<Longrightarrow> clock_ok now \<Longrightarrow> a_record z now k cs out (rc, out', cs') \<Longrightarrow>
     engine_step z (t, cs) (L_record k now rc out') (now, cs')"
| es_is_blocked: "t \<le> now \<Longrightarrow> clock_ok now \<Longrightarrow> (rc, out, cs') = a_is_blocked z now k cs \<Longrightarrow>
     engine_step z (t, cs) (L_is_blocked k now rc out) (now, cs')"
| es_peek: "t \<le> now \<Longrightarrow> clock_ok now \<Longrightarrow> res = a_peek z now k cs \<Longrightarrow>
     engine_step z (t, cs) (L_peek k now res) (now, cs)"

inductive_cases engine_stepE: "engine_step z s l s'"

definition engine_of :: "time \<times> 's shctx \<Rightarrow> time \<times> client list" where
  "engine_of s = (fst s, zabs (snd s))"

lemma zone_step_sim:
  assumes "zone_inv E z s" "zone_step E z s l s'"
  shows "engine_step z (engine_of s) l (engine_of s')"
proof -
  obtain t sh t' sh' where s: "s = (t, sh)" "s' = (t', sh')" by (cases s; cases s')
  note abs = zone_step_abs[OF assms]
  show ?thesis
  proof (cases l)
    case (L_record k now rc out')
    then obtain out where "a_record z t' k (zabs sh) out (rc, out', zabs sh')" "now = t'" "t \<le> t'" "clock_ok t'"
      using abs s by auto
    then show ?thesis using es_record L_record by (simp add: engine_of_def s)
  next
    case (L_is_blocked k now rc out)
    then have "(rc, out, zabs sh') = a_is_blocked z t' k (zabs sh)" "now = t'" "t \<le> t'" "clock_ok t'"
      using abs s by auto
    then show ?thesis using es_is_blocked L_is_blocked by (simp add: engine_of_def s)
  next
    case (L_peek k now res)
    then have "res = a_peek z t' k (zabs sh)" "now = t'" "t \<le> t'" "clock_ok t'" "sh' = sh" using abs s by auto
    then show ?thesis using es_peek L_peek by (simp add: engine_of_def s)
  qed
qed

interpretation en: simulation "zone_step E z" "zone_inv E z" engine_of "engine_step z"
  for E :: "'s ngx" and z
  by unfold_locales (rule zone_step_sim)

section \<open>The property\<close>

text \<open>C5. A zone is the abstract engine.  Take any well-formed zone and any run of locked operations on it by any
  workers, with all they are answered.  The engine on the list of the zone's clients has the same run, with
  the same answers, and ends with the zone's clients; and in the state reached every operation is defined, for
  every client and at every later time.\<close>

theorem zone_refines_engine:
  assumes "zone_inv E z s" "zone_run E z s tr s'"
  shows "run (engine_step z) (engine_of s) tr (engine_of s')
     \<and> (\<forall>k now. fst s' \<le> now \<and> clock_ok now \<and> length k = DIGEST_LEN \<longrightarrow>
          (\<exists>rc out' s''. zone_step E z s' (L_record k now rc out') s'')
        \<and> (\<exists>rc out' s''. zone_step E z s' (L_is_blocked k now rc out') s'')
        \<and> (\<exists>res. zone_step E z s' (L_peek k now res) (now, snd s')))"
proof -
  obtain t sh where s': "s' = (t, sh)" by fastforce
  have inv: "store_doc E" "wf_zone z" "wf_sh E z sh"
    using zn.run_inv[OF assms(2,1)] s' by (simp_all add: zone_inv_def)
  have "(\<exists>rc out' s''. zone_step E z s' (L_record k now rc out') s'')
        \<and> (\<exists>rc out' s''. zone_step E z s' (L_is_blocked k now rc out') s'')
        \<and> (\<exists>res. zone_step E z s' (L_peek k now res) (now, snd s'))"
    if now: "t \<le> now" "clock_ok now" "length k = DIGEST_LEN" for k now
  proof (intro conjI)
    show "\<exists>rc out' s''. zone_step E z s' (L_record k now rc out') s''"
      using record_refines[OF inv now(2,3), of "(0, 0)"] step_record[OF now(1,2,3)] s' by metis
    show "\<exists>rc out' s''. zone_step E z s' (L_is_blocked k now rc out') s''"
      using is_blocked_refines[OF inv now(2), of k] step_is_blocked[OF now(1,2,3)] s' by metis
    have "memn2cmp_doc E" using inv(1) by auto
    from step_peek[OF now(1,2,3) peek_refines[OF this inv(2,3) now(2)]]
    show "\<exists>res. zone_step E z s' (L_peek k now res) (now, snd s')" unfolding s' snd_conv by blast
  qed
  then show ?thesis using en.run_sim[OF assms(2,1)] s' by simp
qed

theorem zone_refines_engine_witness:
  "run (engine_step ex_zone) (1000, []) ex_trace (1010, [\<lparr> c_key = ex_key, c_ban = 1610, c_seen = 1010, c_events = [] \<rparr>])
     \<and> (\<exists>rc out' s''. zone_step ref_ngx ex_zone (1010, ex_sh2) (L_record ex_key 1020 rc out') s'')"
  using zone_refines_engine[OF ex_inv(1) ex_run] by (simp add: engine_of_def)

end
