(* ===== verification/EA_Restart.thy ===== *)
theory EA_Restart
  imports EA_Save EA_Zone
begin

text \<open>
  A ban from one process to the next: the engine sets it, a save writes it, the machine stops, a new
  process reads the file into an empty segment, and the engine enforces it again.
\<close>

section \<open>A new segment\<close>

text \<open>What the system answers when the zone's file is opened and read whole.\<close>

definition opens :: "fs \<Rightarrow> bytes \<Rightarrow> file_io" where
  "opens s p = (case content s p of None \<Rightarrow> IO_OPEN_FAILED | Some d \<Rightarrow> IO_FILE (length d) (Some d))"

text \<open>The segment's pool has room for the zone's own structures and for \<open>n\<close> clients.\<close>

definition segment_room :: "'s ngx \<Rightarrow> zone \<Rightarrow> nat \<Rightarrow> 's \<Rightarrow> bool" where
  "segment_room E z n pool =
     (case ngx_slab_alloc_locked E pool SHCTX_SIZE of
        (None, _) \<Rightarrow> False
      | (Some _, pool) \<Rightarrow>
          (case ngx_slab_alloc_locked E pool (LOG_CTX_LEN + length (z_name z)) of
             (None, _) \<Rightarrow> False
           | (Some _, pool) \<Rightarrow> slab_room E (ea_node_size DIGEST_LEN (z_threshold z)) n pool))"

definition empty_store :: "'s \<Rightarrow> 's shctx" where
  "empty_store pool = \<lparr> sh_rbtree = Leaf, sh_queue = [], sh_heap = Map.empty, sh_slab = pool,
     sh_fault_nth = -1, sh_fault_seen = 0 \<rparr>"

lemma empty_store [simp]:
  "wf_sh E z (empty_store pool)" "zabs (empty_store pool) = []" "sh_fault_nth (empty_store pool) = -1" "sh_slab (empty_store pool) = pool"
  by (simp_all add: empty_store_def wf_sh_def zabs_def)

lemma init_loads:
  assumes "segment_room E z n pool" "z_persist z \<noteq> []"
  obtains pool' where "slab_room E (ea_node_size DIGEST_LEN (z_threshold z)) n pool'"
    "ea_init_zone E z (SHM_FRESH pool) now io alloc_ok
       = (case ea_load E z (empty_store pool') now io alloc_ok of None \<Rightarrow> None | Some (rc, _, sh) \<Rightarrow> Some (rc, Some sh))"
proof -
  obtain a p1 where a: "ngx_slab_alloc_locked E pool SHCTX_SIZE = (Some a, p1)"
    using assms(1) by (auto simp: segment_room_def split: prod.splits option.splits)
  obtain b p2 where b: "ngx_slab_alloc_locked E p1 (LOG_CTX_LEN + length (z_name z)) = (Some b, p2)"
    "slab_room E (ea_node_size DIGEST_LEN (z_threshold z)) n p2"
    using assms(1) a by (auto simp: segment_room_def split: prod.splits option.splits)
  have "ea_init_zone E z (SHM_FRESH pool) now io alloc_ok
      = (case ea_load E z (empty_store p2) now io alloc_ok of None \<Rightarrow> None | Some (rc, _, sh) \<Rightarrow> Some (rc, Some sh))"
    using a b(1) assms(2) by (simp add: ea_init_zone_def empty_store_def Let_def split: option.split)
  then show ?thesis using b(2) that by blast
qed

section \<open>The file after a crash\<close>

lemma written_survives:
  assumes "settled_file fs p" "creates_doc F p fe fs" "ea_write_file fuel POSIX F fe data p = (Some NGX_OK, tr)"
    and "fe_dir_open fe" "fe_dir_sync fe" "parent_of p \<noteq> None" "crash (run_sys tr fs) fs'"
  shows "opens fs' p = IO_FILE (length data) (Some data)"
proof -
  note ok = settled_path_ok[OF assms(1)]
  have "settled_file (run_sys tr fs) p" by (rule write_file_durable[OF assms(3) ok assms(2,4,5,6)])
  moreover have "content (run_sys tr fs) p = Some data" using write_file_held(3)[OF ok assms(2,3)] by simp
  ultimately have "path_ok (run_sys tr fs) p {Some data}" using settled_path_ok by metis
  from path_ok_crash[OF this assms(7)] show ?thesis by (simp add: opens_def)
qed

section \<open>The ban\<close>

lemma reloaded_banned:
  assumes "banned k u cs" "now < u"
  shows "banned k (min u (sat_add now (z_block z))) (map (reloaded z now) (filter (survives now) cs))"
  using assms by (force simp: banned_def reloaded_def survives_def)

text \<open>C7. A ban survives a restart.  Let a client be banned until \<open>u\<close> in a zone with a snapshot file, on a POSIX
  system.  The zone is serialized, whole, and the bytes are written, whether at once or on the pool's thread; the
  write succeeds; the machine stops, and whatever a crash leaves of the file system is there at the next start.
  Then, at any time before \<open>u\<close>, the new process starts with a well-formed store that has the ban, with the same deadline
  (or one block time from the start, should the clock have gone back so far that \<open>u\<close> is later); and through any
  run of the new process the client is found banned until then.\<close>

theorem ban_survives_restart:
  assumes "store_doc E" "saved_zone E z" "z_persist z \<noteq> []" "parent_of (z_persist z) \<noteq> None"
    and "wf_sh E z sh" "banned k u (zabs sh)"
    and "length (enc_recs (map rec_of (zabs sh))) + FILE_HDR_LEN \<le> z_shm_size z" "length (zabs sh) < 2 ^ 32"
    and "\<And>n b. alloc n = Some b \<Longrightarrow> length b = n" "ea_serialize E z sh alloc pbuf = Some (Some (buf, len))"
    and "settled_file fs (z_persist z)" "creates_doc F (z_persist z) fe fs" "fe_dir_open fe" "fe_dir_sync fe"
    and "ea_write_file fuel POSIX F fe (take len buf) (z_persist z) = (Some NGX_OK, tr)"
    and "crash (run_sys tr fs) fs'"
    and "clock_ok now" "now < u" "segment_room E z (length (zabs sh)) pool"
  shows "\<exists>sh'. ea_init_zone E z (SHM_FRESH pool) now (opens fs' (z_persist z)) True = Some (NGX_OK, Some sh')
     \<and> wf_sh E z sh' \<and> banned k (min u (sat_add now (z_block z))) (zabs sh')
     \<and> (\<forall>tr' s' t. zone_run E z (now, sh') tr' s' \<and> fst s' \<le> t \<and> clock_ok t \<and> t < min u (sat_add now (z_block z)) \<longrightarrow>
          (\<exists>sh''. ea_is_blocked E z (snd s') k t = Some (NGX_OK, (z_threshold z, min u (sat_add now (z_block z))), sh'')))"
proof -
  have z: "digest_doc E" "wf_zone z" "FILE_HDR_LEN \<le> z_shm_size z" "z_shm_size z < 2 ^ 63" using assms(2) by (simp_all add: saved_zone_def)
  obtain pool' where pool: "slab_room E (ea_node_size DIGEST_LEN (z_threshold z)) (length (zabs sh)) pool'"
    "ea_init_zone E z (SHM_FRESH pool) now (opens fs' (z_persist z)) True
       = (case ea_load E z (empty_store pool') now (opens fs' (z_persist z)) True of None \<Rightarrow> None | Some (rc, _, sh) \<Rightarrow> Some (rc, Some sh))"
    by (rule init_loads[OF assms(19,3)])
  obtain sh' where l: "ea_load E z (empty_store pool') now (IO_FILE len (Some (take len buf))) True
       = Some (NGX_OK, LOAD_DONE (length (filter (survives now) (zabs sh))) 0, sh')"
    "wf_sh E z sh'" "zabs sh' = map (reloaded z now) (filter (survives now) (zabs sh))"
    using loads_back[OF assms(1) z(1-4) assms(5,9,10,7,8,17), of "empty_store pool'"] pool(1) by auto
  have "len \<le> length buf"
  proof (rule serialize_genuine[OF assms(2,5), of alloc pbuf])
    show "\<forall>n b. alloc n = Some b \<longrightarrow> length b = n" using assms(9) by blast
  qed (use assms(10) in auto)
  then have "opens fs' (z_persist z) = IO_FILE len (Some (take len buf))"
    using written_survives[OF assms(11,12,15,13,14,4,16)] by simp
  then have i: "ea_init_zone E z (SHM_FRESH pool) now (opens fs' (z_persist z)) True = Some (NGX_OK, Some sh')"
    using pool(2) l(1) by simp
  have b: "banned k (min u (sat_add now (z_block z))) (zabs sh')" using reloaded_banned[OF assms(6,18)] l(3) by simp
  have "zone_inv E z (now, sh')" using assms(1) z(2) l(2) by (simp add: zone_inv_def)
  then have "\<exists>sh''. ea_is_blocked E z (snd s') k t = Some (NGX_OK, (z_threshold z, min u (sat_add now (z_block z))), sh'')"
    if "zone_run E z (now, sh') tr' s'" "fst s' \<le> t" "clock_ok t" "t < min u (sat_add now (z_block z))" for tr' s' t
    using banned_run[OF _ _ that] b by simp blast
  then show ?thesis using i l(2) b by blast
qed

section \<open>Witness\<close>

lemma in_disk_run: "\<forall>p. fs_dir s p \<in> fs_disk s p \<Longrightarrow> \<forall>p. fs_dir (run_sys tr s) p \<in> fs_disk (run_sys tr s) p"
proof (induction tr arbitrary: s)
  case (Cons c tr)
  have "\<forall>p. fs_dir (sys c s) p \<in> fs_disk (sys c s) p" using Cons.prems by (cases c) auto
  from Cons.IH[OF this] show ?case by (simp add: run_sys_def)
qed (simp add: run_sys_def)

lemma ex_writes: "\<exists>tr. ea_write_file (length data + 1) POSIX ex_fmt ex_file_env data p = (Some NGX_OK, tr)"
proof -
  let ?io = "fe_write ex_file_env"
  obtain rc tr where w: "ea_write_all (length data + 1) POSIX ?io 9 0 data = (rc, tr)" by fastforce
  then have "rc \<noteq> None" using write_all_ends[of POSIX ?io 0 data "length data + 1" 9] by (simp add: ex_interruptions)
  then have "rc = Some NGX_OK" using write_all_shape[OF w] ex_not_reported by blast
  then show ?thesis using w
    by (simp add: ea_write_file_def ex_file_env_def eval_nat_numeral finish_file_def ea_platform_replace_def Let_def)
qed

theorem ban_survives_restart_witness:
  "\<exists>buf len tr sh'. ea_serialize ref_ngx ex_disk_zone ex_sh2 ex_alloc None = Some (Some (buf, len))
     \<and> ea_write_file (length (take len buf) + 1) POSIX ex_fmt ex_file_env (take len buf) (ascii ''/s/z'') = (Some NGX_OK, tr)
     \<and> ea_init_zone ref_ngx ex_disk_zone (SHM_FRESH (3, [])) 1020 (opens (run_sys tr ex_disk) (ascii ''/s/z'')) True = Some (NGX_OK, Some sh')
     \<and> banned ex_key 1610 (zabs sh')"
proof (rule serialize_genuine[OF ex_disk_zone_ok(1,2), of ex_alloc None])
  show "\<forall>n b. ex_alloc n = Some b \<longrightarrow> length b = n" by (simp add: ex_alloc_def)
next
  assume "ea_serialize ref_ngx ex_disk_zone ex_sh2 ex_alloc None = Some None"
  moreover have "mac_of ref_ngx ex_disk_zone c = Some []" for c by (simp add: mac_of_def ex_disk_zone_def ex_zone_def)
  ultimately show ?thesis
    using snapshot_written[of ref_ngx ex_disk_zone ex_sh2 ex_alloc None] ex_disk_zone_ok(1,2)
    by (auto simp: saved_zone_def persist_buffer_def ex_alloc_def)
next
  fix buf len
  assume ser: "ea_serialize ref_ngx ex_disk_zone ex_sh2 ex_alloc None = Some (Some (buf, len))"
  let ?p = "z_persist ex_disk_zone"
  obtain tr where w: "ea_write_file (length (take len buf) + 1) POSIX ex_fmt ex_file_env (take len buf) ?p = (Some NGX_OK, tr)"
    using ex_writes by blast
  have c: "crash (run_sys tr ex_disk) (run_sys tr ex_disk)"
    using in_disk_run[of ex_disk tr] by (simp add: crash_def ex_fs_def)
  have "length (enc_recs (map rec_of (zabs ex_sh2))) + FILE_HDR_LEN \<le> z_shm_size ex_disk_zone" "length (zabs ex_sh2) < 2 ^ 32"
    unfolding ex_rec_of by (simp_all add: ex_rec_wf snap_consts scan_consts ex_disk_zone_ok(5))
  moreover have "banned ex_key 1610 (zabs ex_sh2)" by (simp add: banned_def)
  moreover have "segment_room ref_ngx ex_disk_zone (length (zabs ex_sh2)) (3, [])"
    by (simp add: segment_room_def ref_slab_alloc_def)
  moreover have "creates_doc ex_fmt ?p ex_file_env ex_disk" "settled_file ex_disk ?p" "?p \<noteq> []" "parent_of ?p \<noteq> None"
    using ex_creates ex_settled by (simp_all add: ex_disk_zone_ok(3)) (simp_all add: ascii_def parent_of_def NGX_MAX_PATH_def)
  ultimately obtain sh' where "ea_init_zone ref_ngx ex_disk_zone (SHM_FRESH (3, [])) 1020 (opens (run_sys tr ex_disk) ?p) True = Some (NGX_OK, Some sh')"
    "banned ex_key (min 1610 (sat_add 1020 (z_block ex_disk_zone))) (zabs sh')"
    using ban_survives_restart[OF _ ex_disk_zone_ok(1) _ _ ex_disk_zone_ok(2) _ _ _ _ ser _ _ _ _ w c, of ex_key 1610 1020 "(3, [])"]
    by (auto simp: ex_alloc_def ex_file_env_def)
  moreover have "sat_add 1020 (z_block ex_disk_zone) = 1620" by (simp add: ex_disk_zone_def ex_zone_def sat_add_def ea_time_max_def)
  ultimately show ?thesis using ser w by (auto simp: ex_disk_zone_ok(3))
qed

end
