(* ===== verification/EA_Shared.thy ===== *)
theory EA_Shared
  imports EA_Script EA_Guard
begin

text \<open>
  A ban from one server to another: events of a client that any workers of any servers record bring Redis to ban
  the client, and a request of the client at another worker, which asks Redis first, is rejected.
\<close>

section \<open>The last ban\<close>

lemma a_events_outlast:
  assumes "snd w = Some (d, u)" "\<forall>e \<in> set es. u \<le> fst e + z_block z * 1000" "sorted (map fst es)"
  shows "\<exists>d' u'. snd (snd (a_events z es w)) = Some (d', u') \<and> u \<le> u'"
  using assms
proof (induction es arbitrary: w d u)
  case (Cons e es)
  obtain now x where e: "e = (now, x)" by (metis surj_pair)
  obtain r w1 where a: "a_event z now w = (r, w1)" by (metis surj_pair)
  obtain d1 u1 where w1: "snd w1 = Some (d1, u1)" "u \<le> u1" "u1 = u \<or> u1 = now + z_block z * 1000"
    using a Cons.prems e by (cases w) (auto simp: a_event_def Let_def split: if_splits)
  have "\<forall>e \<in> set es. u1 \<le> fst e + z_block z * 1000" using w1(3) Cons.prems(2,3) e by fastforce
  moreover have "sorted (map fst es)" using Cons.prems(3) by simp
  ultimately obtain d' u' where "snd (snd (a_events z es w1)) = Some (d', u')" "u1 \<le> u'" using Cons.IH[OF w1(1)] by blast
  then show ?case using w1(2) e a by (auto simp: split_beta)
qed simp

lemma a_events_ban:
  assumes "i < length es" "blocks (fst (a_events z es w) ! i)" "sorted (map fst es)"
  shows "\<exists>d u. snd (snd (a_events z es w)) = Some (d, u) \<and> fst (es ! i) + z_block z * 1000 \<le> u"
  using assms
proof (induction es arbitrary: i w)
  case (Cons e es)
  obtain now x where e: "e = (now, x)" by (metis surj_pair)
  obtain r w1 where a: "a_event z now w = (r, w1)" by (metis surj_pair)
  have s: "sorted (map fst es)" "\<forall>e \<in> set es. now \<le> fst e" using Cons.prems(3) e by auto
  have "\<exists>d u. snd (snd (a_events z es w1)) = Some (d, u) \<and> fst ((e # es) ! i) + z_block z * 1000 \<le> u"
  proof (cases i)
    case 0
    then have "blocks r" using Cons.prems(2) e a by (simp add: split_beta)
    then have "snd w1 = Some ((now + z_block z * 1000) div 1000, now + z_block z * 1000)"
      using a by (cases w) (auto simp: a_event_def blocks_def Let_def split: if_splits)
    from a_events_outlast[OF this _ s(1), of z] s(2) show ?thesis using 0 e by simp
  next
    case (Suc j)
    then have "j < length es" "blocks (fst (a_events z es w1) ! j)" using Cons.prems(1,2) e a by (simp_all add: split_beta)
    from Cons.IH[OF this s(1)] show ?thesis using Suc by simp
  qed
  then show ?case using e a by (simp add: split_beta)
qed simp

section \<open>A request that asks\<close>

lemma check_asks:
  assumes "alloc_doc alloc" "cache_ok rcf z c" "\<not> rx_redis_pending c"
    and "ea_redis_check rcf z now alloc queue_ok w c = Some (NGX_AGAIN, w', c', parked)"
  shows "parked" "wk_calls w' = wk_calls w @ [H_COMMAND [ascii ''GET'', block_key rcf z (rx_key c)]]"
    "redis_touched c c'" "rx_redis_pending c'"
proof -
  obtain rc c1 ev bl where k: "ea_redis_keys rcf z alloc c = Some (rc, c1, ev, bl)"
      "rc = NGX_OK \<and> bl = block_key rcf z (rx_key c) \<and> c1 = c \<lparr> rx_redis_events := ev, rx_redis_block := bl \<rparr> \<or> rc = NGX_ERROR"
    using redis_keys_exact[OF assms(1,2)] by blast
  have c': "rc = NGX_OK" "parked" "c' = c1 \<lparr> rx_redis_pending := True \<rparr>" "w' = call_redis (H_COMMAND [ascii ''GET'', bl]) w"
    using assms(3,4) k(1) by (auto simp: ea_redis_check_def Let_def split: if_splits Option.bind_splits)
  show "parked" "wk_calls w' = wk_calls w @ [H_COMMAND [ascii ''GET'', block_key rcf z (rx_key c)]]" "rx_redis_pending c'"
    using c' k(2) by auto
  show "redis_touched c c'" using c'(1,3) k(2) redis_touchedI(3)[where c = c and ev = ev and bl = bl and p = True] by auto
qed

lemma client_asks:
  assumes "preaccess_client S alloc queue_ok now conf zi z i c W r = Some (NGX_AGAIN, W', r')"
  obtains w c' parked where "ea_redis_check (st_redis S) z now alloc queue_ok (wd_worker W) c = Some (NGX_AGAIN, w, c', parked)"
    "W' = W \<lparr> wd_worker := w \<rparr>" "r' = put_ctx i c' (if parked then r \<lparr> rq_parked := rq_parked r + 1 \<rparr> else r)"
proof -
  have "preaccess_verdict S now conf zi z i c W r \<noteq> Some (NGX_AGAIN, W', r')" for c W r
    by (auto simp: preaccess_verdict_def preaccess_banned_def Let_def split: if_splits Option.bind_splits)
  then show ?thesis using assms that by (auto simp: preaccess_client_def Let_def split: if_splits Option.bind_splits prod.splits)
qed

text \<open>The answer is a string: the context becomes blocked, and the resumed handler rejects.\<close>

lemma string_blocks:
  assumes "clock_ok now"
  obtains w' c' where "ea_redis_check_callback E z now (Some (R_STRING str)) w c = Some (w', c')"
    "rx_redis_blocked c'" "rx_redis_checked c'" "rx_zone c' = rx_zone c" "\<not> rx_redis_pending c'"
    "ea_effective_dry_run c' conf = ea_effective_dry_run c conf"
  using clock_okD[OF assms] that by (auto simp: ea_redis_check_callback_def Let_def ea_effective_dry_run_def)

lemma resumed_rejects:
  assumes "rq_main r" "rq_ctx r = Some i" "i < length (rq_pool r)" "rx_zone (rq_pool r ! i) = Some zi" "zi < length (st_zones S)"
    and "rx_redis_blocked (rq_pool r ! i)" "rx_redis_checked (rq_pool r ! i)" "\<not> ea_effective_dry_run (rq_pool r ! i) conf"
  shows "\<exists>W' r'. ea_preaccess S p alloc queue_ok now conf W r = Some (HTTP_STATUS (conf_reject_status conf), W', r')"
proof -
  have "\<not> ea_effective_dry_run ((rq_pool r ! i) \<lparr> rx_count := n \<rparr>) conf" for n
    using assms(8) by (simp add: ea_effective_dry_run_def split: if_splits)
  then show ?thesis using assms
    by (simp add: ea_preaccess_def ea_prepare_ctx_def at_idx_def preaccess_client_def preaccess_verdict_def preaccess_banned_def Let_def)
qed

section \<open>The property\<close>

text \<open>C8. Servers share their bans.  Let a client's events be recorded in Redis by any workers of any servers, and let
  the \<open>i\<close>-th bring the ban.  Then a request of this client at any worker that asks Redis, and is parked for the
  answer, asks with a command to which Redis, as long as this ban lasts by its clock, answers such that the
  request is resumed and rejected with the configured status: whatever the worker's own store says of the
  client, and whatever happened in the process between the question, the answer and the resumption.\<close>

theorem redis_ban_shared:
  assumes "redis_doc R view" "site_ok S" "zi < length (st_zones S)" "sorted (map fst es)" "\<forall>e \<in> set es. 0 \<le> fst e" "distinct (map snd es)"
    and "db_set (view d) (events_key (st_redis S) (st_zones S ! zi) key) = []" "db_str (view d) (block_key (st_redis S) (st_zones S ! zi) key) = None"
    and "run_events R (st_fmt S) (st_sha S) (st_redis S) (st_zones S ! zi) key es d = (rs, d')"
    and "i < length es" "blocks (rs ! i)" "t < fst (es ! i) + z_block (st_zones S ! zi) * 1000"
    and "rq_main r" "rq_inv S r" "conf_ok S conf" "alloc_doc alloc" "ea_prepare_ctx (st_ngx S) p conf r = Some (Some j, r1)"
    and "rx_zone (rq_pool r1 ! j) = Some zi" "rx_key (rq_pool r1 ! j) = key" "\<not> rx_redis_pending (rq_pool r1 ! j)"
    and "\<not> ea_effective_dry_run (rq_pool r1 ! j) conf"
    and "ea_preaccess S p alloc queue_ok now conf W r = Some (NGX_AGAIN, W1, r2)" "clock_ok now2"
  shows "\<exists>c. wk_calls (wd_worker W1) = wk_calls (wd_worker W) @ [c]
     \<and> (\<forall>W2. \<exists>W3 r3. ea_check_reply S (Some (fst (redis_exec R (st_fmt S) t c d'))) now2 W2 r2 = Some (W3, r3)
         \<and> rq_parked r3 = rq_parked r
         \<and> (\<forall>p' alloc' queue_ok' now3 W4. \<exists>W5 r5. ea_preaccess S p' alloc' queue_ok' now3 conf W4 r3
              = Some (HTTP_STATUS (conf_reject_status conf), W5, r5)))"
proof -
  let ?z = "st_zones S ! zi" and ?c = "rq_pool r1 ! j" and ?get = "H_COMMAND [ascii ''GET'', block_key (st_redis S) (st_zones S ! zi) key]"
  have fmt: "fmt_doc (st_fmt S)" using assms(2) by (simp add: site_ok_def)
  note ans = redis_answers[OF assms(1) fmt site_zone(1)[OF assms(2,3)] assms(4-9)]
  obtain dl u where "snd (snd (a_events ?z es ([], None))) = Some (dl, u)" "fst (es ! i) + z_block ?z * 1000 \<le> u"
    using a_events_ban[OF assms(10) _ assms(4), of ?z "([], None)"] assms(11) ans(1) by auto
  then have get: "fst (redis_exec R (st_fmt S) t ?get d') = R_STRING (st_fmt S dl)" using ans(2)[of t] assms(12) by simp
  have pr: "prepared S r (Some j) r1" by (rule prepared_of[OF assms(2,14,15,17)])
  note run = prepared_run[OF pr assms(18)]
  have r1: "rq_main r1" "rq_parked r1 = rq_parked r" using pr assms(13) by (simp_all add: prepared_def same_rest_def)
  have "preaccess_client S alloc queue_ok now conf zi ?z j ?c W r1 = Some (NGX_AGAIN, W1, r2)"
    using preaccess_main[OF assms(13,17) pr, of alloc queue_ok now W] assms(18,22) by simp
  then obtain w c1 parked where k: "ea_redis_check (st_redis S) ?z now alloc queue_ok (wd_worker W) ?c = Some (NGX_AGAIN, w, c1, parked)"
    "W1 = W \<lparr> wd_worker := w \<rparr>" "r2 = put_ctx j c1 (if parked then r1 \<lparr> rq_parked := rq_parked r1 + 1 \<rparr> else r1)"
    by (rule client_asks)
  note asks = check_asks[OF assms(16) run(5) assms(20) k(1)]
  note keeps = redis_touched_keeps[OF asks(3)]
  have r2: "r2 = (put_ctx j c1 r1) \<lparr> rq_parked := rq_parked r + 1 \<rparr>" using k(3) asks(1) r1(2) by (simp add: put_ctx_parked)
  have "\<exists>W3 r3. ea_check_reply S (Some (R_STRING (st_fmt S dl))) now2 W2 r2 = Some (W3, r3) \<and> rq_parked r3 = rq_parked r
      \<and> (\<forall>p' alloc' queue_ok' now3 W4. \<exists>W5 r5. ea_preaccess S p' alloc' queue_ok' now3 conf W4 r3
           = Some (HTTP_STATUS (conf_reject_status conf), W5, r5))" for W2
  proof (rule string_blocks[OF assms(23), of "st_ngx S" ?z "st_fmt S dl" "wd_worker W2" c1 conf])
    fix w' c'
    assume c': "ea_redis_check_callback (st_ngx S) ?z now2 (Some (R_STRING (st_fmt S dl))) (wd_worker W2) c1 = Some (w', c')"
      "rx_redis_blocked c'" "rx_redis_checked c'" "rx_zone c' = rx_zone c1" "\<not> rx_redis_pending c'"
      "ea_effective_dry_run c' conf = ea_effective_dry_run c1 conf"
    let ?r3 = "(put_ctx j c' r2) \<lparr> rq_parked := rq_parked r2 - 1 \<rparr>"
    have "ea_check_reply S (Some (R_STRING (st_fmt S dl))) now2 W2 r2 = Some (W2 \<lparr> wd_worker := w' \<rparr>, ?r3)"
      using c'(1) run assms(18) keeps(1) by (simp add: ea_check_reply_def r2 at_idx_def)
    moreover have "rq_parked ?r3 = rq_parked r" by (simp add: r2)
    moreover have "\<exists>W5 r5. ea_preaccess S p' alloc' queue_ok' now3 conf W4 ?r3
           = Some (HTTP_STATUS (conf_reject_status conf), W5, r5)" for p' alloc' queue_ok' now3 W4
      by (rule resumed_rejects[where i = j and zi = zi]) (use c' r1 run assms(18,21) keeps(1,9) in \<open>simp_all add: r2\<close>)
    ultimately show ?thesis by blast
  qed
  then show ?thesis using k(2) asks(2) assms(19) get by auto
qed

section \<open>Witness\<close>

definition ex_redis_site :: "(nat \<times> addr list) site" where
  "ex_redis_site = ex_site \<lparr> st_zones := [ex_zone \<lparr> z_redis := True \<rparr>] \<rparr>"

lemma ex_redis_site_sel [simp]:
  "st_ngx ex_redis_site = ref_ngx" "st_fmt ex_redis_site = ref_fmt" "st_sha ex_redis_site = []" "st_redis ex_redis_site = ex_rcf"
  "st_zones ex_redis_site = [ex_zone \<lparr> z_redis := True \<rparr>]"
  by (simp_all add: ex_redis_site_def)

lemma ex_redis_site_ok: "site_ok ex_redis_site" "conf_ok ex_redis_site ex_loc" "rq_inv ex_redis_site ex_req1"
proof -
  show "site_ok ex_redis_site"
    by (simp add: site_ok_def zones_ok_def config_ok_def ref_fmt_doc) (simp add: ex_zone_def scan_consts wf_zone_def MAX_THRESHOLD_def MAX_SECONDS_def)
  show "conf_ok ex_redis_site ex_loc" by (simp add: conf_ok_def loc_ok_def merged_def ex_loc_def)
  show "rq_inv ex_redis_site ex_req1"
    by (auto simp: rq_inv_def ctx_ok_def cache_ok_def scan_consts ex_key_def) (simp_all add: ex_req1_def ex_req_def)
qed

lemma ex_asks: "\<exists>W1 r2. ea_preaccess ex_redis_site ex_prep ex_mem True 1020 ex_loc ex_world ex_req1 = Some (NGX_AGAIN, W1, r2)"
proof -
  obtain rc c1 ev bl where k: "ea_redis_keys ex_rcf (ex_zone \<lparr> z_redis := True \<rparr>) ex_mem ex_ctx1 = Some (rc, c1, ev, bl)" "rc = NGX_OK"
    using redis_keys_exact[OF ex_mem_doc(1), of ex_rcf "ex_zone \<lparr> z_redis := True \<rparr>" ex_ctx1] ex_mem_doc(2) by (auto simp: cache_ok_def)
  have "ea_redis_available ex_worker 1020" by (simp add: ea_redis_available_def ex_worker_def worker0_def)
  then have "\<exists>w c. ea_redis_check ex_rcf (ex_zone \<lparr> z_redis := True \<rparr>) 1020 ex_mem True ex_worker ex_ctx1 = Some (NGX_AGAIN, w, c, True)"
    using k by (simp add: ea_redis_check_def Let_def)
  then show ?thesis
    by (auto simp: ea_preaccess_def ea_prepare_ctx_def at_idx_def preaccess_client_def ex_world_def Let_def)
qed

theorem redis_ban_shared_witness:
  "\<exists>W1 r2 c db' W3 r3 W5 r5.
     run_events ref_redis ref_fmt [] ex_rcf (ex_zone \<lparr> z_redis := True \<rparr>) ex_key [(5000, 7, 1), (9000, 8, 1)]
       \<lparr> db_set = (\<lambda>_. []), db_set_end = (\<lambda>_. None), db_str = (\<lambda>_. None) \<rparr>
       = ([R_ARRAY [R_INTEGER 0, R_INTEGER 1], R_ARRAY [R_INTEGER 1, R_INTEGER 2, R_INTEGER 609]], db')
     \<and> ea_preaccess ex_redis_site ex_prep ex_mem True 1020 ex_loc ex_world ex_req1 = Some (NGX_AGAIN, W1, r2)
     \<and> ea_check_reply ex_redis_site (Some (fst (redis_exec ref_redis ref_fmt 608999 c db'))) 1020 W1 r2 = Some (W3, r3)
     \<and> ea_preaccess ex_redis_site ex_prep ex_mem True 1020 ex_loc W3 r3 = Some (HTTP_STATUS 429, W5, r5)"
proof -
  let ?z = "ex_zone \<lparr> z_redis := True \<rparr>" and ?es = "[(5000, 7, 1), (9000, 8, 1)] :: (int \<times> 64 word \<times> 64 word) list"
  let ?db = "\<lparr> db_set = (\<lambda>_. []), db_set_end = (\<lambda>_. None), db_str = (\<lambda>_. None) \<rparr> :: rdb"
  obtain rs db' where r: "run_events ref_redis ref_fmt [] ex_rcf ?z ex_key ?es ?db = (rs, db')" by fastforce
  have z: "wf_zone ?z" using site_zone(1)[OF ex_redis_site_ok(1), of 0] by simp
  have a: "fst (a_events ?z ?es ([], None)) = [R_ARRAY [R_INTEGER 0, R_INTEGER 1], R_ARRAY [R_INTEGER 1, R_INTEGER 2, R_INTEGER 609]]"
    by (simp add: a_event_def)
  have rs: "rs = [R_ARRAY [R_INTEGER 0, R_INTEGER 1], R_ARRAY [R_INTEGER 1, R_INTEGER 2, R_INTEGER 609]]"
    using redis_answers(1)[OF ref_redis_doc ref_fmt_doc z _ _ _ _ _ r] a by simp
  obtain W1 r2 where p: "ea_preaccess ex_redis_site ex_prep ex_mem True 1020 ex_loc ex_world ex_req1 = Some (NGX_AGAIN, W1, r2)"
    using ex_asks by blast
  let ?rejects = "\<lambda>r3. \<forall>p' alloc' queue_ok' now3 W4. \<exists>W5 r5. ea_preaccess ex_redis_site p' alloc' queue_ok' now3 ex_loc W4 r3 = Some (HTTP_STATUS 429, W5, r5)"
  have "\<exists>c. wk_calls (wd_worker W1) = wk_calls (wd_worker ex_world) @ [c] \<and>
     (\<forall>W2. \<exists>W3 r3. ea_check_reply ex_redis_site (Some (fst (redis_exec ref_redis ref_fmt 608999 c db'))) 1020 W2 r2 = Some (W3, r3)
       \<and> rq_parked r3 = 0 \<and> ?rejects r3)"
    using redis_ban_shared[OF ref_redis_doc ex_redis_site_ok(1), of 0 ?es ?db ex_key rs db' 1 608999 ex_req1 ex_loc ex_mem ex_prep 0 ex_req1
        True 1020 ex_world W1 r2 1020] r rs p ex_redis_site_ok(2,3) ex_mem_doc(1)
    by (simp add: ea_prepare_ctx_def blocks_def ea_effective_dry_run_def conf_on_def)
  then obtain c W3 r3 where "ea_check_reply ex_redis_site (Some (fst (redis_exec ref_redis ref_fmt 608999 c db'))) 1020 W1 r2 = Some (W3, r3)"
    "?rejects r3" by blast
  moreover from this(2) obtain W5 r5 where "ea_preaccess ex_redis_site ex_prep ex_mem True 1020 ex_loc W3 r3 = Some (HTTP_STATUS 429, W5, r5)" by blast
  ultimately show ?thesis using r[unfolded rs] p by (intro exI conjI)
qed

end
