(* ===== verification/EA_Process.thy ===== *)
theory EA_Process
  imports EA_Owner EA_Save EA_RedisRun
begin

text \<open>
  What the platform layer and \<^verbatim>\<open>init_process\<close> put together from other theories: the exclusive creation of a
  temporary file and the ownership of a zone's file on both platforms, and the start of a process with its Redis
  worker and its savers.
\<close>

section \<open>The platform layer\<close>

text \<open>\<open>left\<close> is the error that a failed conversion leaves behind, \<open>descriptor\<close> says that the security descriptor can be had;
  \<open>create\<close> is \<^verbatim>\<open>CreateFileW\<close> with \<^verbatim>\<open>CREATE_NEW\<close>.  \<^verbatim>\<open>ERROR_FILE_EXISTS\<close> becomes \<^verbatim>\<open>NGX_EEXIST\<close>.\<close>

definition ea_win32_create_temp :: "win_env \<Rightarrow> errno \<Rightarrow> bool \<Rightarrow> (wide \<Rightarrow> create_res) \<Rightarrow> create_res" where
  "ea_win32_create_temp V err descriptor create =
     (case ea_win32_utf16 V of
        None \<Rightarrow> CR_ERR err
      | Some name \<Rightarrow>
          if \<not> descriptor then CR_ERR err
          else case create name of
            CR_FD fd \<Rightarrow> CR_FD fd
          | CR_ERR e \<Rightarrow> CR_ERR (if e = EEXIST_FILE then EEXIST else e))"

text \<open>\<open>excl\<close> is \<^verbatim>\<open>open\<close> with \<^verbatim>\<open>O_CREAT|O_EXCL|O_NOFOLLOW\<close>.\<close>

definition ea_platform_create_temp ::
  "platform \<Rightarrow> (bytes \<Rightarrow> create_res) \<Rightarrow> (bytes \<Rightarrow> win_env) \<Rightarrow> errno \<Rightarrow> bool \<Rightarrow> (wide \<Rightarrow> create_res) \<Rightarrow> bytes \<Rightarrow> create_res" where
  "ea_platform_create_temp P excl V err descriptor create path =
     (case P of WIN32 \<Rightarrow> ea_win32_create_temp (V path) err descriptor create | POSIX \<Rightarrow> excl path)"

definition ea_win32_flush_file :: "bool \<Rightarrow> ngx_rc" where
  "ea_win32_flush_file flushed = (if flushed then NGX_OK else NGX_ERROR)"

definition ea_platform_flush_file :: "platform \<Rightarrow> int \<Rightarrow> bool \<Rightarrow> ngx_rc" where
  "ea_platform_flush_file P fsync flushed =
     (case P of WIN32 \<Rightarrow> ea_win32_flush_file flushed | POSIX \<Rightarrow> if fsync = 0 then NGX_OK else NGX_ERROR)"

definition ea_platform_owner_try ::
  "platform \<Rightarrow> (bytes \<Rightarrow> bytes option) \<Rightarrow> win_env \<Rightarrow> bool \<Rightarrow> (wide \<Rightarrow> wait_res) \<Rightarrow> owner \<Rightarrow> ngx_rc \<times> owner" where
  "ea_platform_owner_try P sha V create_ok wait ow =
     (case P of WIN32 \<Rightarrow> ea_win32_owner_try sha V create_ok wait ow | POSIX \<Rightarrow> (NGX_OK, ow))"

definition ea_platform_owner_release :: "platform \<Rightarrow> bool \<Rightarrow> owner \<Rightarrow> owner \<times> wide option" where
  "ea_platform_owner_release P release_ok ow =
     (case P of WIN32 \<Rightarrow> ea_win32_owner_release release_ok ow | POSIX \<Rightarrow> (ow, None))"

section \<open>Trying names\<close>

text \<open>A name that is taken is refused with the error that the loop of \<^verbatim>\<open>write_file\<close> tries again.\<close>

definition exclusive_doc :: "fs \<Rightarrow> (bytes \<Rightarrow> create_res) \<Rightarrow> (bytes \<Rightarrow> win_env) \<Rightarrow> (wide \<Rightarrow> create_res) \<Rightarrow> bool" where
  "exclusive_doc s excl V create \<longleftrightarrow> (\<forall>path. fs_dir s path \<noteq> None \<longrightarrow>
     excl path = CR_ERR EEXIST \<and> (\<forall>w. ea_win32_utf16 (V path) = Some w \<longrightarrow> create w = CR_ERR EEXIST_FILE))"

lemma create_loop_skips:
  assumes "\<forall>j < k. fe_create env (i + j) = CR_ERR EEXIST" "k < n" "fe_create env (i + k) = CR_FD fd"
  shows "create_loop F persist env i n = Some (temp_name F persist env (i + k), fd)"
  using assms
proof (induction k arbitrary: i n)
  case 0
  then show ?case by (cases n) auto
next
  case (Suc k)
  obtain m where n: "n = Suc m" using Suc.prems(2) by (cases n) auto
  have "create_loop F persist env (Suc i) m = Some (temp_name F persist env (Suc i + k), fd)"
  proof (rule Suc.IH)
    show "\<forall>j < k. fe_create env (Suc i + j) = CR_ERR EEXIST" using Suc.prems(1) by (metis Suc_less_eq add_Suc add_Suc_right)
  qed (use Suc.prems n in simp_all)
  moreover have "fe_create env i = CR_ERR EEXIST" using Suc.prems(1) by (metis add.right_neutral zero_less_Suc)
  ultimately show ?case using n by simp
qed

text \<open>On both platforms a taken name never ends the attempts: up to seven names may be taken, and the eighth is
  used.\<close>

theorem taken_names_skipped:
  assumes "exclusive_doc s excl V create" "\<forall>j < k. fs_dir s (temp_name F persist env j) \<noteq> None"
    and "\<forall>j. fe_create env j = ea_platform_create_temp P excl V err True create (temp_name F persist env j)"
    and "\<forall>path. \<exists>w. ea_win32_utf16 (V path) = Some w" "k < 8" "fe_create env k = CR_FD fd"
  shows "create_loop F persist env 0 8 = Some (temp_name F persist env k, fd)"
proof -
  have "fe_create env j = CR_ERR EEXIST" if "j < k" for j
  proof -
    obtain w where "ea_win32_utf16 (V (temp_name F persist env j)) = Some w" using assms(4) by blast
    moreover have "fs_dir s (temp_name F persist env j) \<noteq> None" using assms(2) that by blast
    ultimately show ?thesis using assms(1,3)
      by (simp add: exclusive_doc_def ea_platform_create_temp_def ea_win32_create_temp_def split: platform.split)
  qed
  then show ?thesis using create_loop_skips[of k env 0 8 fd F persist] assms(5,6) by simp
qed

section \<open>The start of a process\<close>

text \<open>The Redis part of a start: its nonce, what the connection gives, and a random number.\<close>

record start_env =
  sn_nonce :: "64 word"
  sn_conn :: conn
  sn_rnd :: nat
  sn_owner :: "zone \<Rightarrow> ngx_rc"

definition ea_init_process :: "platform \<Rightarrow> process \<Rightarrow> main_conf option \<Rightarrow> start_env \<Rightarrow> worker option \<times> saver option list" where
  "ea_init_process P pr mcf V =
     (case mcf of
        None \<Rightarrow> (None, [])
      | Some mcf \<Rightarrow>
          if pr = HELPER then (None, [])
          else ((if rd_configured (mc_redis mcf)
                 then Some (ea_redis_init_process (mc_redis mcf) (sn_nonce V) (sn_conn V) (sn_rnd V)) else None),
                if \<not> saves_here P pr then []
                else map (\<lambda>z. ea_init_process_zone P pr z (sn_owner V z)) (mc_zones mcf)))"

text \<open>A helper process neither connects nor sets a timer; every other one has its Redis worker if Redis is
  configured, in order from the first moment; and on POSIX the only ones that set a timer, one for each zone
  with a file, are a single process and the first worker.\<close>

theorem process_starts_right:
  assumes "ea_init_process P pr (Some mcf) V = (w, savers)" "clock_ok t"
  shows "(pr = HELPER \<longrightarrow> w = None \<and> savers = [])
     \<and> (pr \<noteq> HELPER \<longrightarrow> (w \<noteq> None \<longleftrightarrow> rd_configured (mc_redis mcf)) \<and> (\<forall>v. w = Some v \<longrightarrow> wk_inv (t, v)))
     \<and> (P = POSIX \<longrightarrow> ((\<exists>s. Some s \<in> set savers) \<longleftrightarrow> (pr = SINGLE \<or> pr = WORKER 0) \<and> (\<exists>z \<in> set (mc_zones mcf). z_persist z \<noteq> [])))"
proof -
  have "wk_inv (t, ea_redis_init_process (mc_redis mcf) (sn_nonce V) (sn_conn V) (sn_rnd V))"
    using init_process_inv[of t] clock_okD(1)[OF assms(2)] by simp
  then show ?thesis using assms(1)
    by (cases pr; cases P) (auto simp: ea_init_process_def ea_init_process_zone_def saves_here_def image_iff split: if_splits)
qed

end
