(* ===== verification/EA_Probe.thy ===== *)
theory EA_Probe
  imports EA_Zone EA_Remote
begin

text \<open>
  The probe of the test build (\<^verbatim>\<open>NGX_TEST_HARNESS\<close>): the directive \<^verbatim>\<open>error_abuse_probe\<close>, its content handler, and
  the two hooks of \<^verbatim>\<open>src/ngx_http_error_abuse_probe_hooks.c\<close> through which the test harness, a library outside
  this repository, reads a zone and arms the failure of an allocation.  A probed zone is its name with its
  store, which is missing until the zone is initialized.
\<close>

section \<open>The hooks\<close>

definition PROBE_ZONE_MAX :: nat where "PROBE_ZONE_MAX = 160"

datatype probe_fault = FAULT_SLAB | FAULT_OTHER

type_synonym 's shm_zone = "bytes \<times> 's shctx option"

text \<open>\<^verbatim>\<open>ngx_slprintf\<close> puts its pieces one after the other and stops at \<open>room\<close> bytes.  \<open>fmt\<close> prints an integer
  (\<^verbatim>\<open>%ui\<close>, \<^verbatim>\<open>%i\<close>).\<close>

definition ngx_slprintf :: "nat \<Rightarrow> bytes list \<Rightarrow> bytes" where
  "ngx_slprintf room pieces = take room (concat pieces)"

definition zone_pieces :: "(int \<Rightarrow> bytes) \<Rightarrow> nat \<Rightarrow> nat \<Rightarrow> int \<Rightarrow> nat \<Rightarrow> bytes list" where
  "zone_pieces fmt nodes blocked k seen =
     [ascii '',\"nodes\":'', fmt (int nodes), ascii '',\"blocked\":'', fmt (int blocked),
      ascii '',\"fault\":{\"slab_nth\":'', fmt k, ascii '',\"slab_seen\":'', fmt (int seen), ascii ''}'']"

definition ea_probe_zone_render :: "(int \<Rightarrow> bytes) \<Rightarrow> time \<Rightarrow> 's shm_zone option \<Rightarrow> nat \<Rightarrow> bytes option" where
  "ea_probe_zone_render fmt now zone room =
     (case zone of
        None \<Rightarrow> Some []
      | Some z \<Rightarrow> do {
          (nodes, blocked) \<leftarrow> ea_probe_count_nodes (snd z) now;
          let (k, seen) = ea_probe_fault_state (snd z);
          Some (ngx_slprintf room (zone_pieces fmt nodes blocked k seen))
        })"

definition ea_probe_fault_set :: "'s shm_zone option \<Rightarrow> probe_fault \<Rightarrow> int \<Rightarrow> ngx_rc \<times> 's shm_zone option" where
  "ea_probe_fault_set zone fault k =
     (if fault \<noteq> FAULT_SLAB then (NGX_DECLINED, zone)
      else case zone of
        None \<Rightarrow> (NGX_DECLINED, None)
      | Some (name, sh) \<Rightarrow>
          (case ea_probe_arm_slab sh k of
             (rc, None) \<Rightarrow> (rc, zone)
           | (rc, Some sh') \<Rightarrow> (rc, Some (name, Some sh'))))"

record 's probe_hooks =
  zone_render :: "(int \<Rightarrow> bytes) \<Rightarrow> time \<Rightarrow> 's shm_zone option \<Rightarrow> nat \<Rightarrow> bytes option"
  fault_set :: "'s shm_zone option \<Rightarrow> probe_fault \<Rightarrow> int \<Rightarrow> ngx_rc \<times> 's shm_zone option"

definition ea_probe_hooks :: "'s probe_hooks" where
  "ea_probe_hooks = \<lparr> zone_render = ea_probe_zone_render, fault_set = ea_probe_fault_set \<rparr>"

text \<open>The argument is what the harness had registered before.\<close>

definition ea_probe_hooks_register :: "'s probe_hooks option \<Rightarrow> 's probe_hooks option" where
  "ea_probe_hooks_register registered = Some ea_probe_hooks"

section \<open>The harness\<close>

text \<open>What the query string asks for, if anything; and the document, which the harness renders into a buffer of
  the given size, with a call of the hook for the zone's part.  A harness without hooks arms nothing and
  renders its own part.\<close>

record harness =
  JSON_MAX :: nat
  test_probe_query :: "bytes \<Rightarrow> (probe_fault \<times> int) option"
  test_probe_json :: "(nat \<Rightarrow> bytes option) \<Rightarrow> nat \<Rightarrow> bytes \<Rightarrow> bytes option"

definition test_probe_arm :: "harness \<Rightarrow> 's probe_hooks option \<Rightarrow> 's shm_zone option \<Rightarrow> bytes \<Rightarrow> 's shm_zone option" where
  "test_probe_arm H hooks zone args =
     (case (hooks, test_probe_query H args) of
        (Some h, Some (fault, k)) \<Rightarrow> snd (fault_set h zone fault k)
      | _ \<Rightarrow> zone)"

text \<open>The hook's text stands between a first and a second part, which together are within the harness's bound and the
  zone's name; the hook has the room that the first part leaves, and the end of the buffer cuts the document off.\<close>

definition json_doc :: "harness \<Rightarrow> bytes \<Rightarrow> bytes \<Rightarrow> bytes \<Rightarrow> bool" where
  "json_doc H name pre post \<longleftrightarrow> length pre + length post \<le> JSON_MAX H + length name
     \<and> (\<forall>hook room. test_probe_json H hook room name
          = map_option (\<lambda>t. take room (pre @ t @ post)) (hook (room - length pre)))"

section \<open>The directive and its handler\<close>

text \<open>The location: the zone's name, and whether the probe is its content handler.\<close>

record probe_loc =
  lc_probe_zone :: "bytes option"
  lc_probe_handler :: bool

datatype probe_err = PROBE_IS_DUPLICATE | PROBE_CONF_ERROR

text \<open>\<open>shm_add\<close>: \<^verbatim>\<open>ngx_shared_memory_add\<close> finds the zone of that name, or fails.\<close>

definition ea_probe :: "(bytes \<Rightarrow> bytes option) \<Rightarrow> bytes \<Rightarrow> probe_loc \<Rightarrow> probe_err + probe_loc" where
  "ea_probe shm_add arg l =
     (if lc_probe_zone l \<noteq> None then Inl PROBE_IS_DUPLICATE
      else case shm_add arg of
        None \<Rightarrow> Inl PROBE_CONF_ERROR
      | Some name \<Rightarrow> Inr (l \<lparr> lc_probe_zone := Some name, lc_probe_handler := True \<rparr>))"

datatype http_method = METHOD_GET | METHOD_HEAD | METHOD_OTHER

text \<open>A request of the probe, with what nginx answers to the handler's calls.\<close>

record probe_req =
  pq_method :: http_method
  pq_args :: bytes
  pq_main :: bool
  pq_discard :: ngx_rc
  pq_pnalloc :: "nat \<Rightarrow> bool"
  pq_send_header :: ngx_rc
  pq_header_only :: bool
  pq_calloc_buf :: bool
  pq_output :: ngx_rc

record probe_reply =
  pr_status :: nat
  pr_content_length :: nat
  pr_content_type :: bytes
  pr_body :: "(bytes \<times> bool) option"

text \<open>\<^verbatim>\<open>rc > NGX_OK\<close>\<close>

definition is_status :: "ngx_rc \<Rightarrow> bool" where
  "is_status rc = (case rc of HTTP_STATUS n \<Rightarrow> 0 < n | _ \<Rightarrow> False)"

definition ea_probe_handler ::
  "harness \<Rightarrow> 's probe_hooks option \<Rightarrow> (int \<Rightarrow> bytes) \<Rightarrow> time \<Rightarrow> probe_req \<Rightarrow> 's shm_zone option
    \<Rightarrow> (ngx_rc \<times> probe_reply option \<times> 's shm_zone option) option" where
  "ea_probe_handler H hooks fmt now r zone =
     (if pq_method r = METHOD_OTHER then Some (HTTP_STATUS 405, None, zone)
      else if pq_discard r \<noteq> NGX_OK then Some (pq_discard r, None, zone)
      else let zone = test_probe_arm H hooks zone (pq_args r);
               size = JSON_MAX H + PROBE_ZONE_MAX + (case zone of None \<Rightarrow> 0 | Some z \<Rightarrow> length (fst z))
           in if \<not> pq_pnalloc r size then Some (HTTP_STATUS 500, None, zone)
      else do {
        buf \<leftarrow> test_probe_json H
                 (case hooks of None \<Rightarrow> (\<lambda>_. Some []) | Some h \<Rightarrow> zone_render h fmt now zone)
                 size (case zone of None \<Rightarrow> [] | Some z \<Rightarrow> fst z);
        let reply = \<lparr> pr_status = 200, pr_content_length = length buf, pr_content_type = ascii ''application/json'', pr_body = None \<rparr>;
        if pq_send_header r = NGX_ERROR \<or> is_status (pq_send_header r) \<or> pq_header_only r
        then Some (pq_send_header r, Some reply, zone)
        else if \<not> pq_calloc_buf r then Some (HTTP_STATUS 500, Some reply, zone)
        else Some (pq_output r, Some (reply \<lparr> pr_body := Some (buf, pq_main r) \<rparr>), zone)
      })"

section \<open>The reserved bound\<close>

text \<open>A negative number is printed as a minus sign and its absolute value.\<close>

definition signed_fmt_doc :: "(int \<Rightarrow> bytes) \<Rightarrow> bool" where
  "signed_fmt_doc fmt \<longleftrightarrow> fmt_doc fmt \<and> (\<forall>n. 0 < n \<longrightarrow> fmt (- n) = 45 # fmt n)"

definition int64 :: "int \<Rightarrow> bool" where
  "int64 k \<longleftrightarrow> - (2 ^ 63) \<le> k \<and> k < 2 ^ 63"

lemma signed_length:
  assumes "signed_fmt_doc fmt" "- (10 ^ 19) < k" "k < 10 ^ 20"
  shows "length (fmt k) \<le> 20"
proof (cases "0 \<le> k")
  case True
  then show ?thesis using fmt_docD(4)[of fmt k 20] assms by (simp add: signed_fmt_doc_def)
next
  case False
  then have "fmt k = 45 # fmt (- k)" using assms(1)[unfolded signed_fmt_doc_def] by (metis add.inverse_inverse neg_0_less_iff_less not_le)
  moreover have "length (fmt (- k)) \<le> 19" using fmt_docD(4)[of fmt "- k" 19] assms False by (simp add: signed_fmt_doc_def)
  ultimately show ?thesis by simp
qed

lemma zone_text_fits:
  assumes "signed_fmt_doc fmt" "nodes < 2 ^ 64" "blocked < 2 ^ 64" "seen < 2 ^ 64" "int64 k"
  shows "length (concat (zone_pieces fmt nodes blocked k seen)) \<le> PROBE_ZONE_MAX"
proof -
  have n: "length (fmt (int n)) \<le> 20" if "n < 2 ^ 64" for n
    by (rule signed_length[OF assms(1)]) (use that in simp_all)
  have "length (fmt k) \<le> 20" by (rule signed_length[OF assms(1)]) (use assms(5) in \<open>simp_all add: int64_def\<close>)
  then show ?thesis
    using n[OF assms(2)] n[OF assms(3)] n[OF assms(4)] by (simp add: zone_pieces_def ascii_def PROBE_ZONE_MAX_def)
qed

section \<open>The answer\<close>

text \<open>The injector's state after a request with this query.\<close>

definition armed :: "harness \<Rightarrow> bytes \<Rightarrow> 's shctx \<Rightarrow> 's shctx" where
  "armed H args sh =
     (case test_probe_query H args of
        Some (FAULT_SLAB, k) \<Rightarrow> sh \<lparr> sh_fault_nth := k, sh_fault_seen := 0 \<rparr>
      | _ \<Rightarrow> sh)"

lemma armed_sel [simp]: "zabs (armed H args sh) = zabs sh" "wf_sh E z (armed H args sh) = wf_sh E z sh"
  by (simp_all add: armed_def zabs_def wf_sh_def split: option.split prod.split probe_fault.split)

lemma probe_armed:
  "test_probe_arm H (ea_probe_hooks_register h) (Some (name, Some sh)) args = Some (name, Some (armed H args sh))"
  by (auto simp: test_probe_arm_def armed_def ea_probe_hooks_register_def ea_probe_hooks_def ea_probe_fault_set_def
      ea_probe_arm_slab_def split: option.split probe_fault.split)

lemma zone_rendered:
  assumes "wf_sh E z sh"
  shows "ea_probe_zone_render fmt now (Some (name, Some sh)) room
     = Some (ngx_slprintf room (zone_pieces fmt (length (zabs sh)) (length (filter (\<lambda>c. now < c_ban c) (zabs sh)))
         (sh_fault_nth sh) (sh_fault_seen sh)))"
  using probe_counts[OF assms, of now] by (simp add: ea_probe_zone_render_def ea_probe_fault_state_def)

text \<open>C39. The probe's answer is whole and true.  Whatever the zone holds and whatever 64-bit numbers the counters are, the
  buffer of the handler is large enough: the document is not cut off, and its length is the one announced.
  It shows the number of clients the zone tracks, the number of those that are banned now, and the state of the
  failure injector as the request itself has set it; and the probe changes no client.\<close>

theorem probe_document_whole:
  assumes "signed_fmt_doc fmt" "json_doc H name pre post" "wf_sh E z sh"
    and "length (zabs sh) < 2 ^ 64" "sh_fault_seen (armed H (pq_args r) sh) < 2 ^ 64" "int64 (sh_fault_nth (armed H (pq_args r) sh))"
    and "pq_method r \<noteq> METHOD_OTHER" "pq_discard r = NGX_OK" "\<And>n. pq_pnalloc r n" "pq_send_header r = NGX_OK"
    and "\<not> pq_header_only r" "pq_calloc_buf r"
  shows "\<exists>doc sh'. ea_probe_handler H (ea_probe_hooks_register h) fmt now r (Some (name, Some sh))
       = Some (pq_output r, Some \<lparr> pr_status = 200, pr_content_length = length doc,
           pr_content_type = ascii ''application/json'', pr_body = Some (doc, pq_main r) \<rparr>, Some (name, Some sh'))
     \<and> doc = pre @ concat (zone_pieces fmt (length (zabs sh)) (length (filter (\<lambda>c. now < c_ban c) (zabs sh)))
         (sh_fault_nth sh') (sh_fault_seen sh')) @ post
     \<and> zabs sh' = zabs sh \<and> wf_sh E z sh'
     \<and> (sh_fault_nth sh', sh_fault_seen sh')
        = (case test_probe_query H (pq_args r) of Some (FAULT_SLAB, k) \<Rightarrow> (k, 0) | _ \<Rightarrow> (sh_fault_nth sh, sh_fault_seen sh))"
proof -
  let ?sh = "armed H (pq_args r) sh"
  let ?t = "concat (zone_pieces fmt (length (zabs sh)) (length (filter (\<lambda>c. now < c_ban c) (zabs sh))) (sh_fault_nth ?sh) (sh_fault_seen ?sh))"
  let ?size = "JSON_MAX H + PROBE_ZONE_MAX + length name"
  have "length (filter (\<lambda>c. now < c_ban c) (zabs sh)) < 2 ^ 64" using assms(4) length_filter_le order.strict_trans1 by blast
  then have fits: "length ?t \<le> PROBE_ZONE_MAX" by (rule zone_text_fits[OF assms(1,4) _ assms(5,6)])
  have pp: "length pre + length post \<le> JSON_MAX H + length name" using assms(2) by (simp add: json_doc_def)
  have wf: "wf_sh E z ?sh" using assms(3) by simp
  have "test_probe_json H (ea_probe_zone_render fmt now (Some (name, Some ?sh))) ?size name = Some (pre @ ?t @ post)"
    using assms(2) fits pp by (simp add: json_doc_def zone_rendered[OF wf] ngx_slprintf_def)
  then have "ea_probe_handler H (ea_probe_hooks_register h) fmt now r (Some (name, Some sh))
       = Some (pq_output r, Some \<lparr> pr_status = 200, pr_content_length = length (pre @ ?t @ post),
           pr_content_type = ascii ''application/json'', pr_body = Some (pre @ ?t @ post, pq_main r) \<rparr>, Some (name, Some ?sh))"
    using assms(7-12) probe_armed[of H h name sh "pq_args r"]
    by (simp add: ea_probe_handler_def Let_def is_status_def ea_probe_hooks_register_def ea_probe_hooks_def)
  moreover have "(sh_fault_nth ?sh, sh_fault_seen ?sh)
      = (case test_probe_query H (pq_args r) of Some (FAULT_SLAB, k) \<Rightarrow> (k, 0) | _ \<Rightarrow> (sh_fault_nth sh, sh_fault_seen sh))"
    by (simp add: armed_def split: option.split prod.split probe_fault.split)
  ultimately show ?thesis using wf by (intro exI[of _ "pre @ ?t @ post"] exI[of _ ?sh]) simp
qed

section \<open>Witness\<close>

definition ex_signed_fmt :: "int \<Rightarrow> bytes" where
  "ex_signed_fmt v = (if v < 0 then 45 # ref_fmt (- v) else ref_fmt v)"

lemma ex_signed_fmt_doc: "signed_fmt_doc ex_signed_fmt"
  using ref_fmt_doc by (simp add: signed_fmt_doc_def fmt_doc_def ex_signed_fmt_def)

text \<open>A harness that arms the second allocation for any query, and prints the zone between braces.\<close>

definition ex_harness :: harness where
  "ex_harness = \<lparr> JSON_MAX = 20, test_probe_query = (\<lambda>args. Some (FAULT_SLAB, 2)),
     test_probe_json = (\<lambda>hook room name. map_option (\<lambda>t. take room (ascii ''{'' @ t @ ascii ''}'')) (hook (room - 1))) \<rparr>"

definition ex_probe_req :: probe_req where
  "ex_probe_req = \<lparr> pq_method = METHOD_GET, pq_args = ascii ''fault_slab=2'', pq_main = True, pq_discard = NGX_OK,
     pq_pnalloc = (\<lambda>n. True), pq_send_header = NGX_OK, pq_header_only = False, pq_calloc_buf = True, pq_output = NGX_OK \<rparr>"

lemma ex_probe_text:
  "concat (zone_pieces ex_signed_fmt (Suc 0) (Suc 0) 2 0) = ascii '',\"nodes\":1,\"blocked\":1,\"fault\":{\"slab_nth\":2,\"slab_seen\":0}''"
  by (simp add: zone_pieces_def ex_signed_fmt_def ref_fmt_def digits.simps ascii_def)

theorem probe_document_whole_witness:
  "\<exists>reply sh'. ea_probe_handler ex_harness (ea_probe_hooks_register None) ex_signed_fmt 1020 ex_probe_req (Some ([97], Some ex_sh2))
       = Some (NGX_OK, Some reply, Some ([97], Some sh')) \<and> sh_fault_nth sh' = 2
     \<and> pr_body reply = Some (ascii ''{'' @ ascii '',\"nodes\":1,\"blocked\":1,\"fault\":{\"slab_nth\":2,\"slab_seen\":0}'' @ ascii ''}'', True)"
proof -
  have "json_doc ex_harness [97] (ascii ''{'') (ascii ''}'')"
    by (simp add: json_doc_def ex_harness_def ascii_def)
  from probe_document_whole[OF ex_signed_fmt_doc this ex_sh2_wf, of ex_probe_req None 1020]
  show ?thesis
    by (auto simp: armed_def ex_harness_def ex_probe_req_def int64_def ex_probe_text)
qed

end
