(* ===== verification/EA_Fuzz.thy ===== *)
theory EA_Fuzz
  imports EA_Formats
begin

text \<open>
  The two fuzz targets of \<^verbatim>\<open>src/ci/fuzz\<close>: programs that give any input to the scan core and stop with a trap if it
  breaks its contract.  A run ends with a return or a trap; undefined behaviour, which the sanitizers turn into a
  stop, is \<open>None\<close> as everywhere.  \<open>mem n\<close> is what \<^verbatim>\<open>malloc(n)\<close> returns: nothing, or \<open>n\<close> bytes of any content.
\<close>

datatype fuzz_end = FUZZ_RETURN | FUZZ_TRAP

definition FUZZ_MAX_RECORDS :: "32 word" where "FUZZ_MAX_RECORDS = 100000"

section \<open>The status list\<close>

definition fuzz_statuses :: "'s ngx \<Rightarrow> (nat \<Rightarrow> bytes option) \<Rightarrow> bool \<Rightarrow> bytes \<Rightarrow> fuzz_end option" where
  "fuzz_statuses E mem calloc_ok input =
     (if \<not> calloc_ok then Some FUZZ_RETURN
      else let bitmap = replicate STATUS_BYTES 0;
               size = length input;
               alloc = (if size \<noteq> 0 then size else 1)
      in case mem alloc of
        None \<Rightarrow> Some FUZZ_RETURN
      | Some buf \<Rightarrow> do {
          (buf, _) \<leftarrow> cpymem buf 0 input;
          value \<leftarrow> slice buf 0 size;
          (rc, _) \<leftarrow> ea_parse_statuses E value bitmap;
          Some (if rc \<in> {STATUSES_OK, STATUSES_EMPTY_ELEMENT, STATUSES_TRAILING_COMMA, STATUSES_RANGE}
                then FUZZ_RETURN else FUZZ_TRAP)
        })"

section \<open>The snapshot\<close>

text \<open>\<^verbatim>\<open>sink ^= p[k]\<close> over the payload of a record.\<close>

fun touch_loop :: "bytes \<Rightarrow> nat \<Rightarrow> nat \<Rightarrow> byte \<Rightarrow> byte option" where
  "touch_loop buf p 0 sink = Some sink"
| "touch_loop buf p (Suc n) sink = do {
     b \<leftarrow> rd buf p;
     touch_loop buf (p + 1) n (sink XOR b)
   }"

text \<open>The walk of \<^verbatim>\<open>load\<close>, with a trap where the validator should have refused.\<close>

fun replay_loop :: "bytes \<Rightarrow> nat \<Rightarrow> nat \<Rightarrow> nat \<Rightarrow> byte \<Rightarrow> fuzz_end option" where
  "replay_loop buf e 0 p sink = Some (if p \<noteq> e then FUZZ_TRAP else FUZZ_RETURN)"
| "replay_loop buf e (Suc n) p sink =
     (if ptr_diff e p < FILE_REC_LEN then Some FUZZ_TRAP
      else do {
        rec_key_len \<leftarrow> ea_get_u16 buf p;
        rec_event_count \<leftarrow> ea_get_u16 buf (p + 2);
        let p = p + FILE_REC_LEN;
        let need = unat rec_key_len + unat rec_event_count * 8;
        if ptr_diff e p < need then Some FUZZ_TRAP
        else do {
          sink \<leftarrow> touch_loop buf p need sink;
          replay_loop buf e n (p + need) sink
        }
      })"

text \<open>The check of \<^verbatim>\<open>rc\<close>, and the walk after \<^verbatim>\<open>NGX_OK\<close>.\<close>

definition fuzz_payload :: "bytes \<Rightarrow> nat \<Rightarrow> 32 word \<Rightarrow> nat \<Rightarrow> fuzz_end option" where
  "fuzz_payload buf e records threshold = do {
     rc \<leftarrow> ea_validate_snapshot buf 0 e records threshold;
     if rc \<noteq> NGX_OK \<and> rc \<noteq> NGX_ERROR then Some FUZZ_TRAP
     else if rc = NGX_OK then replay_loop buf e (unat records) 0 0
     else Some FUZZ_RETURN
   }"

definition fuzz_snapshot :: "(nat \<Rightarrow> bytes option) \<Rightarrow> bytes \<Rightarrow> fuzz_end option" where
  "fuzz_snapshot mem input =
     (if length input < 5 then Some FUZZ_RETURN
      else do {
        d0 \<leftarrow> rd input 0; d1 \<leftarrow> rd input 1; d2 \<leftarrow> rd input 2; d3 \<leftarrow> rd input 3; d4 \<leftarrow> rd input 4;
        let records = (ucast d0 :: 32 word) OR push_bit 8 (ucast d1) OR push_bit 16 (ucast d2) OR push_bit 24 (ucast d3);
        let records = (if records > FUZZ_MAX_RECORDS then FUZZ_MAX_RECORDS else records);
        let threshold = unat d4;
        let payload_len = length input - 5;
        let alloc = (if payload_len \<noteq> 0 then payload_len else 1);
        case mem alloc of
          None \<Rightarrow> Some FUZZ_RETURN
        | Some buf \<Rightarrow> do {
            payload \<leftarrow> slice input 5 payload_len;
            (buf, _) \<leftarrow> cpymem buf 0 payload;
            fuzz_payload buf payload_len records threshold
          }
      })"

section \<open>No input makes them stop\<close>

lemma touch_defined: "p + n \<le> length buf \<Longrightarrow> \<exists>s. touch_loop buf p n sink = Some s"
  by (induction n arbitrary: p sink) (auto simp: rd_def)

lemma replay_returns:
  assumes "e \<le> length buf" "e < 2 ^ 64"
  shows "drop p buf = enc_recs rs @ post \<Longrightarrow> \<forall>r \<in> set rs. wf_rec thr r \<Longrightarrow> p + length (enc_recs rs) = e
    \<Longrightarrow> replay_loop buf e (length rs) p sink = Some FUZZ_RETURN"
proof (induction rs arbitrary: p sink)
  case (Cons r rs)
  let ?n = "DIGEST_LEN + length (sr_events r) * 8"
  have r: "length (sr_key r) = DIGEST_LEN" "length (sr_events r) < 2 ^ 16" using Cons.prems(2) by (auto simp: wf_rec_def)
  have d: "drop p buf = enc_rec r @ enc_recs rs @ post" using Cons.prems(1) by simp
  have e: "p + FILE_REC_LEN + ?n + length (enc_recs rs) = e" using Cons.prems(3) r(1) by simp
  have g: "ea_get_u16 buf p = Some (of_nat DIGEST_LEN)" "ea_get_u16 buf (p + 2) = Some (of_nat (length (sr_events r)))"
    using enc_rec_gets(1,2)[OF d] r(1) by simp_all
  have u: "unat (of_nat (length (sr_events r)) :: 16 word) = length (sr_events r)" "unat (of_nat DIGEST_LEN :: 16 word) = DIGEST_LEN"
    using r(2) by (simp_all add: unat_of_nat DIGEST_LEN_def)
  obtain s where s: "touch_loop buf (p + FILE_REC_LEN) ?n sink = Some s"
    using touch_defined[of "p + FILE_REC_LEN" ?n buf sink] e assms(1) by auto
  have "drop (p + FILE_REC_LEN + ?n) buf = enc_recs rs @ post"
    using d r(1) by (simp add: drop_plus[of p] drop_plus[of "p + FILE_REC_LEN"])
  then have "replay_loop buf e (length rs) (p + FILE_REC_LEN + ?n) s = Some FUZZ_RETURN"
    using Cons.IH Cons.prems(2) e by simp
  moreover have "ptr_diff e p = e - p" "ptr_diff e (p + FILE_REC_LEN) = e - (p + FILE_REC_LEN)"
    using e assms(2) by (simp_all add: ptr_diff_le)
  moreover have "\<not> e - p < FILE_REC_LEN" "\<not> e - (p + FILE_REC_LEN) < ?n" using e by linarith+
  ultimately show ?case using s g u by (simp add: Let_def)
qed simp

lemma snapshot_returns:
  assumes "length input < 2 ^ 64" "\<And>n b. mem n = Some b \<Longrightarrow> length b = n"
  shows "fuzz_snapshot mem input = Some FUZZ_RETURN"
proof (cases "length input < 5")
  case True
  then show ?thesis by (simp add: fuzz_snapshot_def)
next
  case False
  let ?n = "length input - 5"
  have r: "rd input i = Some (input ! i)" if "i < 5" for i using False that by (simp add: rd_def)
  show ?thesis
  proof (cases "mem (if ?n \<noteq> 0 then ?n else 1)")
    case None
    then show ?thesis using False by (auto simp: fuzz_snapshot_def r Let_def split: if_splits)
  next
    case (Some buf)
    have len: "length buf = (if ?n \<noteq> 0 then ?n else 1)" using assms(2)[OF Some] .
    define b where "b = overwrite buf 0 (drop 5 input)"
    have b: "cpymem buf 0 (drop 5 input) = Some (b, ?n)" "?n \<le> length b" "length b < 2 ^ 64" "?n < 2 ^ 64"
      using len assms(1) by (auto simp: b_def cpymem_def overwrite_def)
    have sl: "slice input 5 ?n = Some (drop 5 input)" using False by (simp add: slice_def)
    have replay: "replay_loop b ?n k 0 0 = Some FUZZ_RETURN"
      if "length rs = k" "\<forall>r \<in> set rs. wf_rec thr r" "take ?n b = enc_recs rs" for rs k thr
    proof -
      have "drop 0 b = enc_recs rs @ drop ?n b" using that(3) by (metis append_take_drop_id drop_0)
      moreover have "0 + length (enc_recs rs) = ?n" using b(2) by (simp flip: that(3))
      ultimately show ?thesis using replay_returns[OF b(2,4), of 0 rs] that(1,2) by blast
    qed
    have "fuzz_payload b ?n records thr = Some FUZZ_RETURN" for records thr
      using validate_loop_iff[OF b(2,4), of 0 thr "unat records"] replay by (auto simp: fuzz_payload_def ea_validate_snapshot_def)
    then show ?thesis using False Some b(1) sl by (auto simp: fuzz_snapshot_def r Let_def split: if_splits)
  qed
qed

lemma statuses_return:
  assumes "strlchr_doc E" "\<And>n b. mem n = Some b \<Longrightarrow> length b = n"
  shows "fuzz_statuses E mem calloc_ok input = Some FUZZ_RETURN"
proof (cases "calloc_ok \<and> mem (if length input \<noteq> 0 then length input else 1) \<noteq> None")
  case True
  then obtain buf where buf: "mem (if length input \<noteq> 0 then length input else 1) = Some buf" by auto
  have "length input \<le> length buf" using assms(2)[OF buf] by (auto split: if_splits)
  then have "cpymem buf 0 input = Some (overwrite buf 0 input, length input)" "slice (overwrite buf 0 input) 0 (length input) = Some input"
    by (simp_all add: cpymem_def slice_def overwrite_def)
  moreover have "\<exists>rc bm. ea_parse_statuses E input (replicate STATUS_BYTES 0) = Some (rc, bm)"
  proof (cases input)
    case Nil
    then show ?thesis by (simp add: ea_parse_statuses_def parse_statuses_loop.simps)
  next
    case Cons
    then show ?thesis using parse_statuses_loop_spec[OF assms(1), of "replicate STATUS_BYTES 0" 0 input]
      by (auto simp: ea_parse_statuses_def)
  qed
  ultimately show ?thesis using True buf
    by (auto simp: fuzz_statuses_def Let_def intro: statuses_rc.exhaust)
next
  case False
  then show ?thesis by (auto simp: fuzz_statuses_def Let_def)
qed

text \<open>C40. No input stops a fuzz target.  Whatever the input and the memory it is copied to, both targets return: the
  parser and the validator, and the walk that repeats \<^verbatim>\<open>load\<close>'s steps over every payload the validator accepts,
  neither read nor write outside a buffer, and no trap is reached.  So the validator and the loader's stride agree
  on every input that a fuzzer could ever try.\<close>

theorem fuzz_targets_return:
  assumes "strlchr_doc E" "length input < 2 ^ 64" "\<And>n b. mem n = Some b \<Longrightarrow> length b = n"
  shows "fuzz_statuses E mem calloc_ok input = Some FUZZ_RETURN \<and> fuzz_snapshot mem input = Some FUZZ_RETURN"
  using statuses_return[OF assms(1,3)] snapshot_returns[OF assms(2,3)] by simp

theorem fuzz_targets_return_witness:
  "fuzz_statuses ref_ngx (\<lambda>n. Some (replicate n 0xA5)) True (ascii ''404,500-599'') = Some FUZZ_RETURN
     \<and> fuzz_snapshot (\<lambda>n. Some (replicate n 0xA5)) [1, 0, 0, 0, 2, 32, 0] = Some FUZZ_RETURN"
  using fuzz_targets_return[OF ref_strlchr_doc, of "ascii ''404,500-599''" "\<lambda>n. Some (replicate n 0xA5)" True]
    fuzz_targets_return[OF ref_strlchr_doc, of "[1, 0, 0, 0, 2, 32, 0]" "\<lambda>n. Some (replicate n 0xA5)" True]
  by (simp add: ascii_def)

end
